(* ===== verification/JS_Prelude.thy ===== *)
theory JS_Prelude
  imports Main "HOL-Library.Code_Target_Nat" "HOL-Library.Word" "HOL-Library.Multiset" "HOL-Library.Sublist"
begin

text \<open>
  Shared vocabulary of the development: JavaScript strings as sequences of UTF-16 code units,
  exceptions as values of a sum type, the conversions between numbers and their decimal
  spelling, and the list and arithmetic lemmas that several components use.  The named
  collections \<open>js_simps\<close> (evaluation of string helpers) and \<open>res_simps\<close> (sequencing of
  fallible computations) are extended by the component theories.
\<close>

named_theorems js_simps "evaluation rules of the JavaScript string helpers"
named_theorems res_simps "sequencing of computations that may throw"

section \<open>Strings\<close>

text \<open>A JavaScript string is a list of UTF-16 code units.  Code units are natural numbers; an
  ASCII literal is written \<open>lit ''abc''\<close>.\<close>

type_synonym cu = nat
type_synonym jsstr = "nat list"

definition lit :: "string \<Rightarrow> jsstr" where
  "lit s = map of_char s"

lemma lit_Nil [simp, js_simps]: "lit '''' = []"
  by (simp add: lit_def)

lemma lit_Cons [simp, js_simps]: "lit (c # cs) = of_char c # lit cs"
  by (simp add: lit_def)

lemma lit_append [js_simps]: "lit (a @ b) = lit a @ lit b"
  by (simp add: lit_def)

text \<open>\<open>a < b\<close> on strings: lexicographic comparison of code units (ES5 11.8.5).\<close>

fun str_less :: "jsstr \<Rightarrow> jsstr \<Rightarrow> bool" where
  "str_less _ [] = False"
| "str_less [] (_ # _) = True"
| "str_less (x # xs) (y # ys) = (x < y \<or> x = y \<and> str_less xs ys)"

lemma str_less_irrefl [simp]: "\<not> str_less a a"
  by (induction a) auto

lemma str_less_trans: "str_less a b \<Longrightarrow> str_less b c \<Longrightarrow> str_less a c"
proof (induction a b arbitrary: c rule: str_less.induct)
  case (3 x xs y ys)
  then show ?case by (cases c) auto
qed (auto split: list.splits elim: str_less.elims)

lemma str_less_linear: "a = b \<or> str_less a b \<or> str_less b a"
proof (induction a b rule: str_less.induct)
  case (1 a)
  then show ?case by (cases a) auto
qed auto

lemma str_less_asym: "str_less a b \<Longrightarrow> \<not> str_less b a"
  using str_less_trans str_less_irrefl by blast

text \<open>\<open>String.prototype.slice\<close> (ES5 15.5.4.13) and \<open>substring\<close> on in-range arguments.\<close>

definition clamp_index :: "nat \<Rightarrow> int \<Rightarrow> nat" where
  "clamp_index n i = (if i < 0 then nat (max (int n + i) 0) else min (nat i) n)"

definition str_slice :: "jsstr \<Rightarrow> int \<Rightarrow> int \<Rightarrow> jsstr" where
  "str_slice s a b =
     (let from = clamp_index (length s) a; to = clamp_index (length s) b
      in take (to - from) (drop from s))"

definition str_slice_from :: "jsstr \<Rightarrow> int \<Rightarrow> jsstr" where
  "str_slice_from s a = drop (clamp_index (length s) a) s"

lemma str_slice_from_neg: "0 < n \<Longrightarrow> str_slice_from s (- int n) = drop (length s - n) s"
  by (auto simp: str_slice_from_def clamp_index_def max_def nat_diff_distrib' of_nat_diff)

lemma str_slice_nonneg: "str_slice s (int a) (int b) = take (b - a) (drop a s)"
  by (auto simp: str_slice_def clamp_index_def Let_def min_def)

text \<open>\<open>Array.prototype.join\<close> on an array of strings (ES5 15.4.4.5).\<close>

fun join :: "jsstr \<Rightarrow> jsstr list \<Rightarrow> jsstr" where
  "join sep [] = []"
| "join sep [x] = x"
| "join sep (x # y # zs) = x @ sep @ join sep (y # zs)"

text \<open>\<open>prefix_at s i t\<close>: the string \<open>t\<close> occurs in \<open>s\<close> at index \<open>i\<close>.  \<open>indexOf\<close> returns the
  first occurrence and \<open>replace\<close> with a string pattern replaces it (ES5 15.5.4.7, 15.5.4.11).\<close>

definition prefix_at :: "jsstr \<Rightarrow> nat \<Rightarrow> jsstr \<Rightarrow> bool" where
  "prefix_at s i t \<longleftrightarrow> i + length t \<le> length s \<and> take (length t) (drop i s) = t"

definition index_of :: "jsstr \<Rightarrow> jsstr \<Rightarrow> nat option" where
  "index_of s t = find (\<lambda>i. prefix_at s i t) [0..<Suc (length s)]"

definition replace_str :: "jsstr \<Rightarrow> jsstr \<Rightarrow> jsstr \<Rightarrow> jsstr" where
  "replace_str s t r = (case index_of s t of
     None \<Rightarrow> s | Some i \<Rightarrow> take i s @ r @ drop (i + length t) s)"

definition contains :: "jsstr \<Rightarrow> jsstr \<Rightarrow> bool" where
  "contains s t \<longleftrightarrow> index_of s t \<noteq> None"

lemma contains_iff: "contains s t \<longleftrightarrow> (\<exists>i. prefix_at s i t)"
  by (force simp: contains_def index_of_def find_None_iff prefix_at_def)

lemma replace_str_absent: "\<not> contains s t \<Longrightarrow> replace_str s t r = s"
  by (simp add: replace_str_def contains_def)

lemma find_upt_first:
  assumes "i < n" and "P i" and "\<And>j. j < i \<Longrightarrow> \<not> P j"
  shows "find P [0..<n] = Some i"
  using assms by (auto simp: find_Some_iff intro!: exI [of _ i])

text \<open>A string without separator that is appended after a separator occurs there, and otherwise
  only inside the part before.\<close>

lemma prefix_at_append_sep:
  assumes "sep \<notin> set t" and "t \<noteq> []"
  shows "prefix_at (s @ sep # u) i t \<longleftrightarrow> prefix_at s i t \<or> length s < i \<and> prefix_at u (i - Suc (length s)) t"
proof (cases "i + length t \<le> length s \<or> length s < i")
  case True
  then show ?thesis
  proof
    assume "i + length t \<le> length s"
    then show ?thesis by (auto simp: prefix_at_def)
  next
    assume "length s < i"
    then have "i - length s = Suc (i - Suc (length s))" by simp
    with \<open>length s < i\<close> assms(2) show ?thesis by (auto simp: prefix_at_def)
  qed
next
  case False
  then have "length s - i < length t" "i \<le> length s" by auto
  have "\<not> prefix_at (s @ sep # u) i t"
  proof
    assume "prefix_at (s @ sep # u) i t"
    then have "t ! (length s - i) = drop i (s @ sep # u) ! (length s - i)"
      using \<open>length s - i < length t\<close> unfolding prefix_at_def by (metis nth_take)
    then have "t ! (length s - i) = sep" using \<open>i \<le> length s\<close> by (simp add: nth_append)
    then show False using \<open>length s - i < length t\<close> assms(1) nth_mem by metis
  qed
  with False show ?thesis by (auto simp: prefix_at_def)
qed

lemma replace_str_appended:
  assumes "\<not> contains s t" and "sep \<notin> set t" and "t \<noteq> []"
  shows "replace_str (s @ sep # t @ v) t r = s @ sep # r @ v"
proof -
  have "index_of (s @ sep # t @ v) t = Some (Suc (length s))"
    unfolding index_of_def
  proof (rule find_upt_first)
    show "prefix_at (s @ sep # t @ v) (Suc (length s)) t" by (simp add: prefix_at_def)
    show "\<not> prefix_at (s @ sep # t @ v) j t" if "j < Suc (length s)" for j
      using that assms by (auto simp: prefix_at_append_sep contains_iff)
  qed simp
  then show ?thesis by (simp add: replace_str_def)
qed

section \<open>Exceptions\<close>

text \<open>A computation that may throw has a result of type \<open>'a res\<close>: \<open>Inl\<close> carries the
  exception that left the function, \<open>Inr\<close> the value returned.\<close>

datatype exn = TypeError | RangeError | ReferenceError | NotFoundError | JSError jsstr

type_synonym 'a res = "exn + 'a"

definition bindR :: "'a res \<Rightarrow> ('a \<Rightarrow> 'b res) \<Rightarrow> 'b res" where
  "bindR m f = (case m of Inl e \<Rightarrow> Inl e | Inr x \<Rightarrow> f x)"

lemma bindR_simps [simp, res_simps]:
  "bindR (Inl e) f = Inl e"
  "bindR (Inr x) f = f x"
  by (simp_all add: bindR_def)

lemma bindR_assoc: "bindR (bindR m f) g = bindR m (\<lambda>x. bindR (f x) g)"
  by (cases m) simp_all

lemma bindR_Inr_conv: "bindR m f = Inr y \<longleftrightarrow> (\<exists>x. m = Inr x \<and> f x = Inr y)"
  by (cases m) auto

lemma bindR_cong [fundef_cong]:
  "m = m' \<Longrightarrow> (\<And>x. m' = Inr x \<Longrightarrow> f x = f' x) \<Longrightarrow> bindR m f = bindR m' f'"
  by (cases m') auto

text \<open>\<open>mapR f xs\<close> calls \<open>f\<close> on the elements from left to right and stops at the first throw.\<close>

fun mapR :: "('a \<Rightarrow> 'b res) \<Rightarrow> 'a list \<Rightarrow> 'b list res" where
  "mapR f [] = Inr []"
| "mapR f (x # xs) = bindR (f x) (\<lambda>y. bindR (mapR f xs) (\<lambda>ys. Inr (y # ys)))"

lemma mapR_cong [fundef_cong]:
  "xs = ys \<Longrightarrow> (\<And>x. x \<in> set ys \<Longrightarrow> f x = g x) \<Longrightarrow> mapR f xs = mapR g ys"
  by (induction xs arbitrary: ys) auto

lemma mapR_Inr: "mapR f xs = Inr ys \<longleftrightarrow> list_all2 (\<lambda>x y. f x = Inr y) xs ys"
  by (induction xs arbitrary: ys) (auto simp: bindR_Inr_conv list_all2_Cons1)

lemma mapR_total: "(\<And>x. x \<in> set xs \<Longrightarrow> f x = Inr (g x)) \<Longrightarrow> mapR f xs = Inr (map g xs)"
  by (induction xs) auto

section \<open>Decimal numerals\<close>

text \<open>\<open>String(n)\<close> of a non-negative integer below \<open>1e21\<close> is its decimal spelling, and
  \<open>Number(s)\<close> of a non-empty digit string is the value it spells.\<close>

definition is_digit :: "cu \<Rightarrow> bool" where
  "is_digit c \<longleftrightarrow> 48 \<le> c \<and> c \<le> 57"

fun dec :: "nat \<Rightarrow> jsstr" where
  "dec n = (if n < 10 then [48 + n] else dec (n div 10) @ [48 + n mod 10])"

declare dec.simps [simp del]

lemmas dec_unfold = dec.simps

definition undec :: "jsstr \<Rightarrow> nat" where
  "undec ds = foldl (\<lambda>a d. 10 * a + (d - 48)) 0 ds"

lemma dec_small [simp]: "n < 10 \<Longrightarrow> dec n = [48 + n]"
  by (subst dec_unfold) simp

lemma undec_Nil [simp]: "undec [] = 0"
  by (simp add: undec_def)

lemma undec_snoc [simp]: "undec (ds @ [d]) = 10 * undec ds + (d - 48)"
  by (simp add: undec_def)

lemma undec_append: "undec (as @ bs) = undec as * 10 ^ length bs + undec bs"
proof (induction bs rule: rev_induct)
  case (snoc b bs)
  then show ?case
    by (simp add: undec_snoc [of "as @ bs", simplified] algebra_simps)
qed simp

lemma undec_replicate_zero [simp]: "undec (replicate n 48) = 0"
  by (induction n) (auto simp: undec_def)

lemma undec_dec [simp]: "undec (dec n) = n"
proof (induction n rule: dec.induct)
  case (1 n)
  show ?case
    by (cases "n < 10") (simp_all add: dec_unfold [of n] undec_def [of "[_]"] 1 div_mult_mod_eq)
qed

lemma dec_digits: "\<forall>d \<in> set (dec n). is_digit d"
proof (induction n rule: dec.induct)
  case (1 n)
  then show ?case
    by (cases "n < 10") (auto simp: dec_unfold [of n] is_digit_def)
qed

lemma dec_nonempty [simp]: "dec n \<noteq> []"
  by (subst dec_unfold) simp

lemma undec_bound: "\<forall>d \<in> set ds. is_digit d \<Longrightarrow> undec ds < 10 ^ length ds"
proof (induction ds rule: rev_induct)
  case (snoc d ds)
  then show ?case by (auto simp: is_digit_def)
qed simp

lemma length_dec_pos [simp]: "0 < length (dec n)"
  by simp

lemma length_dec_le: "0 < k \<Longrightarrow> n < 10 ^ k \<Longrightarrow> length (dec n) \<le> k"
proof (induction k arbitrary: n)
  case (Suc k)
  show ?case
  proof (cases "n < 10")
    case False
    with Suc.prems have "0 < k" by (cases k) auto
    moreover have "n div 10 < 10 ^ k" using Suc.prems by (simp add: less_mult_imp_div_less mult.commute)
    ultimately have "length (dec (n div 10)) \<le> k" by (rule Suc.IH)
    with False show ?thesis by (subst dec_unfold) simp
  qed simp
qed simp

text \<open>Zero padding on the left, the idiom \<open>strSlice('000' + n, -w)\<close>.\<close>

definition pad :: "nat \<Rightarrow> nat \<Rightarrow> jsstr" where
  "pad w n = replicate (w - length (dec n)) 48 @ dec n"

lemma pad_digits: "\<forall>d \<in> set (pad w n). is_digit d"
  using dec_digits by (auto simp: pad_def is_digit_def)

lemma undec_pad [simp]: "undec (pad w n) = n"
  by (simp add: pad_def undec_append)

lemma length_pad: "0 < w \<Longrightarrow> n < 10 ^ w \<Longrightarrow> length (pad w n) = w"
  using length_dec_le [of w n] by (simp add: pad_def)

lemma slice_zeros_dec:
  assumes "0 < w" and "n < 10 ^ w" and "w \<le> k + length (dec n)"
  shows "str_slice_from (replicate k 48 @ dec n) (- int w) = pad w n"
  using assms length_dec_le [of w n]
  by (simp add: str_slice_from_neg pad_def)

lemma pad_Suc: "0 < k \<Longrightarrow> pad (Suc k) d = pad k (d div 10) @ [48 + d mod 10]"
proof (cases "d < 10")
  case True
  moreover assume "0 < k"
  then have "replicate k (48 :: nat) = replicate (k - 1) 48 @ [48]"
    by (metis Suc_diff_1 replicate_Suc replicate_append_same)
  ultimately show ?thesis by (simp add: pad_def)
next
  case False
  then show ?thesis by (simp add: pad_def dec_unfold [of d])
qed

lemma dec_append_pad: "0 < v \<Longrightarrow> 0 < k \<Longrightarrow> d < 10 ^ k \<Longrightarrow> dec (v * 10 ^ k + d) = dec v @ pad k d"
proof (induction k arbitrary: d)
  case (Suc k)
  have split: "dec (10 * a + r) = dec a @ [48 + r]" if "0 < a" "r < 10" for a r :: nat
    using that by (subst dec_unfold) auto
  show ?case
  proof (cases k)
    case 0
    then show ?thesis using Suc.prems split [of v d] by (simp add: pad_def mult.commute)
  next
    case (Suc k')
    have "d div 10 < 10 ^ k" using Suc.prems(3) by (simp add: less_mult_imp_div_less mult.commute)
    then have "dec (v * 10 ^ k + d div 10) = dec v @ pad k (d div 10)" using Suc.IH Suc.prems Suc by simp
    moreover have "v * 10 ^ Suc k + d = 10 * (v * 10 ^ k + d div 10) + d mod 10" by simp
    ultimately show ?thesis using split [of "v * 10 ^ k + d div 10" "d mod 10"] Suc.prems Suc
      by (simp add: pad_Suc algebra_simps)
  qed
qed simp

section \<open>Lists\<close>

lemma take_drop_split: "i \<le> j \<Longrightarrow> take (j - i) (drop i xs) @ drop j xs = drop i xs"
  by (metis append_take_drop_id drop_drop le_add_diff_inverse2)

lemma set_drop_mono: "set (drop n xs) \<subseteq> set xs"
  by (rule set_drop_subset)

end
