(* ===== verification/JS_Num.thy ===== *)
theory JS_Num
  imports Complex_Main "HOL-Library.Log_Nat" JS_Prelude
begin

text \<open>
  Numbers of the language: IEEE 754 binary64 values, with the two zeros identified.  A finite
  value is kept as the rational it denotes and every arithmetic operation of the sources is the
  exact operation followed by \<open>fl\<close>, the rounding to the nearest representable value with ties
  to even, subnormal numbers and overflow included.  The lemmas say when rounding changes
  nothing and that it never changes a sign.
\<close>

datatype jsnum = NaN | Infinite bool | Fin rat

text \<open>\<open>ilog2 x\<close> is the binary exponent of a positive rational.\<close>

definition ilog2 :: "rat \<Rightarrow> int" where
  "ilog2 x = (case quotient_of x of (a, b) \<Rightarrow>
     let k = bitlen a - bitlen b in if 2 powi k \<le> x then k else k - 1)"

text \<open>Round to the nearest integer, ties to even.\<close>

definition round_even :: "rat \<Rightarrow> int" where
  "round_even q =
     (let f = \<lfloor>q\<rfloor>; d = q - of_int f
      in if d < 1 / 2 \<or> d = 1 / 2 \<and> even f then f else f + 1)"

definition ulp_exp :: "rat \<Rightarrow> int" where
  "ulp_exp x = max (-1074) (ilog2 \<bar>x\<bar> - 52)"

definition fl :: "rat \<Rightarrow> jsnum" where
  "fl x =
     (if x = 0 then Fin 0
      else let e = ulp_exp x; r = of_int (round_even (x / 2 powi e)) * 2 powi e
           in if 2 ^ 1024 \<le> \<bar>r\<bar> then Infinite (x < 0) else Fin r)"

definition representable :: "rat \<Rightarrow> bool" where
  "representable x \<longleftrightarrow> fl x = Fin x"

section \<open>The binary exponent\<close>

lemma powi_of_nat_diff: "(2::rat) powi (int a - int b) = 2 ^ a / 2 ^ b"
  by (simp add: power_int_diff)

lemma bitlen_rat_bounds:
  assumes "0 < a"
  shows "(2::rat) powi (bitlen a - 1) \<le> of_int a" and "of_int a < (2::rat) powi bitlen a"
proof -
  have pos: "0 < bitlen a" using assms bitlen_nonneg [of a] bitlen_eq_zero_iff [of a] by linarith
  have b: "2 ^ nat (bitlen a - 1) \<le> a \<and> a < 2 ^ nat (bitlen a)"
    using bitlen_bounds [OF assms] .
  then have "(of_int (2 ^ nat (bitlen a - 1)) :: rat) \<le> of_int a"
    and "(of_int a :: rat) < of_int (2 ^ nat (bitlen a))"
    by (simp_all only: of_int_le_iff of_int_less_iff)
  then show "(2::rat) powi (bitlen a - 1) \<le> of_int a" and "of_int a < (2::rat) powi bitlen a"
    using pos by (simp_all add: power_int_def)
qed

lemma ilog2_bounds:
  assumes "0 < x"
  shows "2 powi ilog2 x \<le> x \<and> x < 2 powi (ilog2 x + 1)"
proof -
  obtain a b where q: "quotient_of x = (a, b)" by (cases "quotient_of x")
  have b: "0 < b" using q by (rule quotient_of_denom_pos)
  have x: "x = of_int a / of_int b" using q by (rule quotient_of_div)
  with assms b have a: "0 < a" by (simp add: zero_less_divide_iff)
  note A = bitlen_rat_bounds [OF a] and B = bitlen_rat_bounds [OF b]
  have lo: "2 powi (bitlen a - bitlen b - 1) \<le> x"
  proof -
    have "(2::rat) powi (bitlen a - bitlen b - 1) = 2 powi (bitlen a - 1) / 2 powi bitlen b"
      by (simp add: power_int_diff [symmetric] algebra_simps)
    also have "\<dots> \<le> of_int a / of_int b"
      using A B a b by (intro frac_le) auto
    finally show ?thesis by (simp add: x)
  qed
  have hi: "x < 2 powi (bitlen a - bitlen b + 1)"
  proof -
    have "of_int a / of_int b < (2::rat) powi bitlen a / 2 powi (bitlen b - 1)"
      using A B a b by (intro frac_less) auto
    also have "\<dots> = 2 powi (bitlen a - bitlen b + 1)"
      by (simp add: power_int_diff [symmetric] algebra_simps)
    finally show ?thesis by (simp add: x)
  qed
  show ?thesis using lo hi by (auto simp: ilog2_def q Let_def)
qed

lemma powi_le_cancel: "(2::rat) powi a \<le> 2 powi b \<longleftrightarrow> a \<le> b"
  using power_int_increasing [of a b "2::rat"] power_int_strict_increasing [of b a "2::rat"]
  by (cases "a \<le> b") auto

lemma powi_less_cancel: "(2::rat) powi a < 2 powi b \<longleftrightarrow> a < b"
  by (meson linorder_not_le powi_le_cancel)

lemma ilog2_less: "0 < x \<Longrightarrow> x < 2 powi k \<Longrightarrow> ilog2 x < k"
  using ilog2_bounds [of x] powi_less_cancel [of "ilog2 x" k] by (meson le_less_trans)

lemma ilog2_ge: "2 powi k \<le> x \<Longrightarrow> k \<le> ilog2 x"
proof -
  assume "2 powi k \<le> x"
  moreover have "(0::rat) < 2 powi k" by simp
  ultimately have "0 < x" by linarith
  from ilog2_bounds [OF this] \<open>2 powi k \<le> x\<close> have "(2::rat) powi k < 2 powi (ilog2 x + 1)"
    by (meson le_less_trans)
  then show ?thesis by (simp only: powi_less_cancel)
qed

section \<open>Rounding\<close>

lemma round_even_int [simp]: "round_even (of_int n) = n"
  by (simp add: round_even_def)

lemma round_even_bounds: "\<lfloor>q\<rfloor> \<le> round_even q \<and> round_even q \<le> \<lfloor>q\<rfloor> + 1"
  by (simp add: round_even_def Let_def)

text \<open>A value that is an integer multiple of its last place is not changed by rounding.\<close>

lemma fl_exact:
  assumes "x = of_int m * 2 powi e" and "\<bar>m\<bar> < 2 ^ 53" and "-1074 \<le> e" and "\<bar>x\<bar> < 2 ^ 1024"
  shows "fl x = Fin x"
proof (cases "x = 0")
  case False
  let ?u = "ulp_exp x"
  have "ilog2 \<bar>x\<bar> < 53 + e"
  proof (rule ilog2_less)
    show "0 < \<bar>x\<bar>" using False by simp
    have "of_int \<bar>m\<bar> < (2 ^ 53 :: rat)" using assms(2) by (metis of_int_less_numeral_power_cancel_iff)
    then show "\<bar>x\<bar> < 2 powi (53 + e)"
      unfolding assms(1) by (simp add: abs_mult power_int_add)
  qed
  then have u: "?u \<le> e" using assms(3) by (simp add: ulp_exp_def)
  have "x / 2 powi ?u = of_int m * 2 powi (e - ?u)"
    using assms(1) by (simp add: power_int_diff)
  also have "\<dots> = of_int (m * 2 ^ nat (e - ?u))"
    using u by (simp add: power_int_def)
  finally have "of_int (round_even (x / 2 powi ?u)) * 2 powi ?u = x"
    by (metis nonzero_eq_divide_eq power_int_not_zero round_even_int zero_neq_numeral)
  with False assms(4) show ?thesis by (simp add: fl_def Let_def)
qed (simp add: fl_def)

lemma fl_int: "\<bar>n\<bar> < 2 ^ 53 \<Longrightarrow> fl (of_int n) = Fin (of_int n)"
proof (rule fl_exact [of _ n 0])
  assume n: "\<bar>n\<bar> < 2 ^ 53"
  have "of_int \<bar>n\<bar> < (2 ^ 53 :: rat)" using n by (metis of_int_less_numeral_power_cancel_iff)
  also have "\<dots> < 2 ^ 1024" by (rule power_strict_increasing) auto
  finally show "\<bar>of_int n\<bar> < (2 ^ 1024 :: rat)" by simp
qed auto

text \<open>Rounding keeps the sign of every multiple of the smallest subnormal: a difference of two
  representable numbers is zero only when they are equal.\<close>

lemma round_even_pos: "1 \<le> q \<Longrightarrow> 0 < round_even q"
  using round_even_bounds [of q] by (metis le_floor_iff of_int_1 less_le_trans zero_less_one)

lemma round_even_neg: "q \<le> -1 \<Longrightarrow> round_even q < 0"
proof -
  assume "q \<le> -1"
  then consider "q = -1" | "\<lfloor>q\<rfloor> \<le> -2" using floor_le_iff [of q "-2"] by fastforce
  then show ?thesis
  proof cases
    case 1
    then show ?thesis using round_even_int [of "-1"] by simp
  next
    case 2
    with round_even_bounds [of q] show ?thesis by linarith
  qed
qed

definition num_sub :: "jsnum \<Rightarrow> jsnum \<Rightarrow> jsnum" where
  "num_sub x y =
     (case (x, y) of
        (Fin a, Fin b) \<Rightarrow> fl (a - b)
      | (NaN, _) \<Rightarrow> NaN
      | (_, NaN) \<Rightarrow> NaN
      | (Infinite n, Infinite n') \<Rightarrow> if n = n' then NaN else Infinite n
      | (Infinite n, Fin _) \<Rightarrow> Infinite n
      | (Fin _, Infinite n) \<Rightarrow> Infinite (\<not> n))"

definition sgn_num :: "jsnum \<Rightarrow> int" where
  "sgn_num x = (case x of NaN \<Rightarrow> 0 | Infinite neg \<Rightarrow> if neg then -1 else 1 | Fin q \<Rightarrow> if q < 0 then -1 else if q = 0 then 0 else 1)"

lemma ulp_le_abs:
  assumes "2 powi (-1074) \<le> \<bar>x\<bar>"
  shows "2 powi ulp_exp x \<le> \<bar>x\<bar>"
proof -
  have "(0::rat) < 2 powi (-1074)" by (rule zero_less_power_int) simp
  with assms have "0 < \<bar>x\<bar>" by linarith
  from ilog2_bounds [OF this] have lo: "2 powi ilog2 \<bar>x\<bar> \<le> \<bar>x\<bar>" by blast
  have "(2::rat) powi (ilog2 \<bar>x\<bar> - 52) \<le> 2 powi ilog2 \<bar>x\<bar>" by (simp add: powi_le_cancel)
  with lo assms show ?thesis by (auto simp: ulp_exp_def max_def)
qed

lemma sgn_fl:
  assumes "x = 0 \<or> 2 powi (-1074) \<le> \<bar>x\<bar>"
  shows "sgn_num (fl x) = (if x < 0 then -1 else if x = 0 then 0 else 1)"
proof (cases "x = 0")
  case False
  let ?p = "(2::rat) powi ulp_exp x"
  have p: "0 < ?p" by simp
  have le: "?p \<le> \<bar>x\<bar>" using ulp_le_abs assms False by blast
  show ?thesis
  proof (cases "x < 0")
    case True
    with le p have "x / ?p \<le> -1" by (simp add: divide_le_eq)
    then have "round_even (x / ?p) < 0" by (rule round_even_neg)
    then have "of_int (round_even (x / ?p)) * ?p < 0"
      using p by (simp add: mult_neg_pos)
    with True show ?thesis by (simp add: fl_def Let_def sgn_num_def)
  next
    case pos: False
    with le p have "1 \<le> x / ?p" by (simp add: le_divide_eq)
    then have "0 < round_even (x / ?p)" by (rule round_even_pos)
    then have "0 < of_int (round_even (x / ?p)) * ?p" using p by simp
    with pos False show ?thesis by (auto simp: fl_def Let_def sgn_num_def)
  qed
qed (simp add: fl_def sgn_num_def)

section \<open>The rounding error\<close>

text \<open>The value of a rounded result that does not overflow.\<close>

definition rfl :: "rat \<Rightarrow> rat" where
  "rfl x = (case fl x of Fin r \<Rightarrow> r | _ \<Rightarrow> 0)"

lemma rfl_exact:
  "x = of_int m * 2 powi e \<Longrightarrow> \<bar>m\<bar> < 2 ^ 53 \<Longrightarrow> -1074 \<le> e \<Longrightarrow> \<bar>x\<bar> < 2 ^ 1024 \<Longrightarrow> rfl x = x"
  using fl_exact [of x m e] by (simp add: rfl_def)

lemma rfl_int [simp]: "\<bar>n\<bar> < 2 ^ 53 \<Longrightarrow> rfl (of_int n) = of_int n"
  by (simp add: rfl_def fl_int)

lemma rfl_zero [simp]: "rfl 0 = 0"
  by (simp add: rfl_def fl_def)

lemma round_even_error: "\<bar>of_int (round_even q) - q\<bar> \<le> 1 / 2"
proof -
  have "of_int \<lfloor>q\<rfloor> \<le> q" "q < of_int \<lfloor>q\<rfloor> + 1" by linarith+
  then show ?thesis by (auto simp: round_even_def Let_def abs_le_iff)
qed

lemma fl_error:
  assumes "\<bar>x\<bar> < 2 powi k" "-1021 \<le> k" "k \<le> 1000"
  shows "fl x = Fin (rfl x) \<and> \<bar>rfl x - x\<bar> \<le> 2 powi (k - 54)"
proof (cases "x = 0")
  case False
  let ?e = "ulp_exp x"
  let ?r = "of_int (round_even (x / 2 powi ?e)) * 2 powi ?e :: rat"
  have "ilog2 \<bar>x\<bar> < k" using assms(1) False by (intro ilog2_less) auto
  then have e: "?e \<le> k - 53" using assms(2) by (simp add: ulp_exp_def)
  have "\<bar>?r - x\<bar> = \<bar>of_int (round_even (x / 2 powi ?e)) - x / 2 powi ?e\<bar> * 2 powi ?e"
    by (simp add: abs_mult [symmetric] field_simps)
  also have "\<dots> \<le> (1 / 2) * 2 powi ?e"
    by (rule mult_right_mono [OF round_even_error]) simp
  also have "\<dots> \<le> (1 / 2) * 2 powi (k - 53)"
    using e powi_le_cancel [of ?e "k - 53"] by simp
  also have "\<dots> = 2 powi (k - 54)"
    using power_int_add [of "2::rat" "k - 54" 1] by simp
  finally have err: "\<bar>?r - x\<bar> \<le> 2 powi (k - 54)" .
  have "\<bar>?r\<bar> \<le> \<bar>x\<bar> + \<bar>?r - x\<bar>" by linarith
  also have "\<dots> < 2 powi k + 2 powi k"
    using assms(1) err powi_le_cancel [of "k - 54" k] by linarith
  also have "\<dots> = 2 powi (k + 1)" by (simp add: power_int_add)
  also have "\<dots> \<le> 2 powi 1024" unfolding powi_le_cancel using assms(3) by linarith
  finally have "\<bar>?r\<bar> < 2 ^ 1024" by (simp add: power_int_def)
  then have "fl x = Fin ?r" using False by (simp add: fl_def Let_def)
  with err show ?thesis by (simp add: rfl_def)
qed (simp add: fl_def rfl_def)

text \<open>Rounding a quotient does not move it across an integer when the error is smaller than the
  distance, so the floor of a rounded quotient is the floor of the quotient.\<close>

lemma floor_rfl:
  assumes "\<bar>x\<bar> < 2 powi k" "-1021 \<le> k" "k \<le> 52"
    and "of_int \<lfloor>x\<rfloor> + d \<le> x \<or> x = of_int \<lfloor>x\<rfloor>" "x + d \<le> of_int (\<lfloor>x\<rfloor> + 1)" "2 powi (k - 54) < d"
  shows "\<lfloor>rfl x\<rfloor> = \<lfloor>x\<rfloor>"
proof -
  have err: "\<bar>rfl x - x\<bar> \<le> 2 powi (k - 54)" using fl_error [of x k] assms by simp
  show ?thesis
  proof (cases "x = of_int \<lfloor>x\<rfloor>")
    case True
    have "\<bar>x\<bar> < 2 powi 52" using assms(1,3) powi_le_cancel [of k 52] by linarith
    then have "\<bar>\<lfloor>x\<rfloor>\<bar> < 2 ^ 53" using True by simp
    from rfl_int [OF this] True show ?thesis by simp
  next
    case False
    with assms(4) have "of_int \<lfloor>x\<rfloor> + d \<le> x" by blast
    with err assms(5,6) have "of_int \<lfloor>x\<rfloor> \<le> rfl x" "rfl x < of_int \<lfloor>x\<rfloor> + 1" by (simp_all add: abs_le_iff)
    then show ?thesis by linarith
  qed
qed

text \<open>A value closer than half a unit in the last place to a multiple of it rounds to that multiple.\<close>

lemma fl_near:
  assumes "2 powi (e + 52) \<le> x" "x < 2 powi (e + 53)" "-1074 \<le> e" "e \<le> 900" "\<bar>x / 2 powi e - of_int N\<bar> < 1 / 2"
  shows "rfl x = of_int N * 2 powi e"
proof -
  have pos: "0 < x" using assms(1) by (meson less_le_trans zero_less_power_int zero_less_numeral)
  have "e + 52 \<le> ilog2 x" "ilog2 x < e + 53" using assms(1,2) ilog2_ge ilog2_less [OF pos] by blast+
  then have e: "ulp_exp x = e" using assms(3) pos by (simp add: ulp_exp_def)
  have N: "round_even (x / 2 powi e) = N"
  proof -
    have "\<bar>of_int (round_even (x / 2 powi e)) - of_int N :: rat\<bar> < 1"
      using round_even_error [of "x / 2 powi e"] assms(5) by linarith
    then have "\<bar>of_int (round_even (x / 2 powi e) - N) :: rat\<bar> < 1" by simp
    then show ?thesis by linarith
  qed
  have "\<bar>x\<bar> < 2 powi (e + 53)" using pos assms(2) by simp
  from fl_error [OF this] assms(3,4) have "fl x = Fin (rfl x)" by simp
  moreover have "fl x = (if 2 ^ 1024 \<le> \<bar>of_int N * 2 powi e :: rat\<bar> then Infinite (x < 0) else Fin (of_int N * 2 powi e))"
    using pos unfolding fl_def e N Let_def by simp
  ultimately show ?thesis by (auto split: if_splits)
qed

end
