(* ===== verification/SortTable_Shaker.thy ===== *)
theory SortTable_Shaker
  imports JS_Num
begin

text \<open>
  \<open>sorttable.shaker_sort\<close> of sorttable.js, the stable alternative to the native sort: two index
  loops over a shrinking window of the array, run until a forward pass swaps nothing.  The
  contract of a comparison function is the locale \<open>consistent_cmp\<close>; under it the routine
  terminates without a throw and yields a sorted, stable permutation of its input.  The proof
  goes through \<open>cocktail\<close>, the same algorithm on list segments.
\<close>

section \<open>The routine\<close>

function fwd_pass :: "('a \<Rightarrow> 'a \<Rightarrow> jsnum res) \<Rightarrow> nat \<Rightarrow> int \<Rightarrow> 'a list \<Rightarrow> bool \<Rightarrow> ('a list \<times> bool) res" where
  "fwd_pass comp_func i t list swap =
     (if int i < t then
        bindR (comp_func (list ! i) (list ! (i + 1))) (\<lambda>c.
          if sgn_num c > 0
          then fwd_pass comp_func (i + 1) t (list[i := list ! (i + 1), i + 1 := list ! i]) True
          else fwd_pass comp_func (i + 1) t list swap)
      else Inr (list, swap))"
  by pat_completeness auto
termination by (relation "measure (\<lambda>(_, i, t, _, _). nat (t - int i))") auto

function bwd_pass :: "('a \<Rightarrow> 'a \<Rightarrow> jsnum res) \<Rightarrow> int \<Rightarrow> nat \<Rightarrow> 'a list \<Rightarrow> bool \<Rightarrow> ('a list \<times> bool) res" where
  "bwd_pass comp_func i b list swap =
     (if i > int b then
        bindR (comp_func (list ! nat i) (list ! nat (i - 1))) (\<lambda>c.
          if sgn_num c < 0
          then bwd_pass comp_func (i - 1) b (list[nat i := list ! nat (i - 1), nat (i - 1) := list ! nat i]) True
          else bwd_pass comp_func (i - 1) b list swap)
      else Inr (list, swap))"
  by pat_completeness auto
termination by (relation "measure (\<lambda>(_, i, b, _, _). nat (i - int b))") auto

declare fwd_pass.simps [simp del] bwd_pass.simps [simp del]

lemma fwd_pass_swapped: "fwd_pass comp_func i t list False = Inr (list', True) \<Longrightarrow> int i < t"
  by (cases "int i < t") (simp_all add: fwd_pass.simps [of comp_func i t])

function shaker_loop :: "('a \<Rightarrow> 'a \<Rightarrow> jsnum res) \<Rightarrow> nat \<Rightarrow> int \<Rightarrow> 'a list \<Rightarrow> 'a list res" where
  "shaker_loop comp_func b t list =
     bindR (fwd_pass comp_func b t list False) (\<lambda>(list, swap).
       if \<not> swap then Inr list
       else bindR (bwd_pass comp_func (t - 1) b list swap) (\<lambda>(list, swap).
         shaker_loop comp_func (b + 1) (t - 1) list))"
  by pat_completeness auto
termination
  by (relation "measure (\<lambda>(_, b, t, _). nat (t - int b))") (auto dest!: fwd_pass_swapped)

declare shaker_loop.simps [simp del]

definition shaker_sort :: "'a list \<Rightarrow> ('a \<Rightarrow> 'a \<Rightarrow> jsnum res) \<Rightarrow> 'a list res" where
  "shaker_sort list comp_func = shaker_loop comp_func 0 (int (length list) - 1) list"

section \<open>The algorithm on segments\<close>

text \<open>One pass: \<open>P x y\<close> says that neighbours \<open>x\<close>, \<open>y\<close> are swapped.\<close>

fun bubble :: "('a \<Rightarrow> 'a \<Rightarrow> bool) \<Rightarrow> 'a list \<Rightarrow> 'a list" where
  "bubble P (x # y # zs) = (if P x y then y # bubble P (x # zs) else x # bubble P (y # zs))"
| "bubble P xs = xs"

fun bubbled :: "('a \<Rightarrow> 'a \<Rightarrow> bool) \<Rightarrow> 'a list \<Rightarrow> bool" where
  "bubbled P (x # y # zs) = (P x y \<or> bubbled P (y # zs))"
| "bubbled P xs = False"

lemma length_bubble [simp]: "length (bubble P xs) = length xs"
  by (induction P xs rule: bubble.induct) auto

lemma mset_bubble [simp]: "mset (bubble P xs) = mset xs"
  by (induction P xs rule: bubble.induct) auto

lemma set_bubble [simp]: "set (bubble P xs) = set xs"
  by (metis mset_bubble set_mset_mset)

lemma bubble_Nil_iff [simp]: "bubble P xs = [] \<longleftrightarrow> xs = []"
  by (metis length_bubble length_0_conv)

lemma bubble_id: "\<not> bubbled P xs \<Longrightarrow> bubble P xs = xs"
  by (induction P xs rule: bubble.induct) auto

lemma bubbled_length: "bubbled P xs \<Longrightarrow> 2 \<le> length xs"
  by (induction P xs rule: bubbled.induct) auto

function cocktail :: "('a \<Rightarrow> 'a \<Rightarrow> bool) \<Rightarrow> ('a \<Rightarrow> 'a \<Rightarrow> bool) \<Rightarrow> 'a list \<Rightarrow> 'a list" where
  "cocktail gt lt xs =
     (if \<not> bubbled gt xs then xs
      else let ys = bubble gt xs; ws = rev (bubble lt (rev (butlast ys)))
           in hd ws # cocktail gt lt (tl ws) @ [last ys])"
  by pat_completeness auto
termination
  by (relation "measure (\<lambda>(_, _, xs). length xs)") (auto dest: bubbled_length)

declare cocktail.simps [simp del]

lemma cocktail_step:
  assumes "bubbled gt xs"
  obtains ys ws where "ys = bubble gt xs" and "ws = rev (bubble lt (rev (butlast ys)))"
    and "cocktail gt lt xs = hd ws # cocktail gt lt (tl ws) @ [last ys]"
    and "ys \<noteq> []" and "ws \<noteq> []" and "length ws < length xs"
    and "set ws = set (butlast ys)" and "set ws \<subseteq> set xs" and "set (tl ws) \<subseteq> set ws" and "hd ws \<in> set ws"
proof -
  let ?ys = "bubble gt xs"
  let ?ws = "rev (bubble lt (rev (butlast ?ys)))"
  have "?ys \<noteq> []" "?ws \<noteq> []" "length ?ws < length xs"
    using bubbled_length [OF assms] by (auto dest: arg_cong [of _ _ length])
  moreover have "cocktail gt lt xs = hd ?ws # cocktail gt lt (tl ?ws) @ [last ?ys]"
    using assms by (subst cocktail.simps) (simp add: Let_def)
  moreover have "set ?ws \<subseteq> set xs" by (metis in_set_butlastD set_bubble set_rev subsetI)
  moreover have "set (tl ?ws) \<subseteq> set ?ws" by (metis list.set_sel(2) subsetI tl_Nil)
  moreover have "hd ?ws \<in> set ?ws" using \<open>?ws \<noteq> []\<close> by (rule hd_in_set)
  moreover have "set ?ws = set (butlast ?ys)" by simp
  ultimately show ?thesis using that by blast
qed

lemma cocktail_done: "\<not> bubbled gt xs \<Longrightarrow> cocktail gt lt xs = xs"
  by (simp add: cocktail.simps)

lemma mset_cocktail: "mset (cocktail gt lt xs) = mset xs"
proof (induction "length xs" arbitrary: xs rule: less_induct)
  case less
  show ?case
  proof (cases "bubbled gt xs")
    case True
    from cocktail_step [OF True, of lt] obtain ys ws where
      s: "ys = bubble gt xs" "ws = rev (bubble lt (rev (butlast ys)))"
        "cocktail gt lt xs = hd ws # cocktail gt lt (tl ws) @ [last ys]" "ys \<noteq> []" "ws \<noteq> []"
        "length ws < length xs" "set ws = set (butlast ys)" "set ws \<subseteq> set xs"
        "set (tl ws) \<subseteq> set ws" "hd ws \<in> set ws" .
    have "mset xs = mset (butlast ys @ [last ys])" using s(1,4) by simp
    also have "\<dots> = mset ws + {#last ys#}" by (simp add: s(2))
    also have "mset ws = mset (hd ws # tl ws)" using s(5) by simp
    finally have "mset xs = {#hd ws#} + mset (tl ws) + {#last ys#}" by simp
    with less [of "tl ws"] s(3,6) show ?thesis by simp
  qed (simp add: cocktail_done)
qed

text \<open>Swapping neighbours that differ strictly keeps the order inside every class of equal keys.\<close>

lemma bubble_stable:
  assumes "set xs \<subseteq> S" and "\<And>x y. x \<in> S \<Longrightarrow> y \<in> S \<Longrightarrow> P x y \<Longrightarrow> \<not> (Q x \<and> Q y)"
  shows "filter Q (bubble P xs) = filter Q xs"
  using assms by (induction P xs rule: bubble.induct) auto

lemma cocktail_stable:
  assumes "set xs \<subseteq> S" and gt: "\<And>x y. x \<in> S \<Longrightarrow> y \<in> S \<Longrightarrow> gt x y \<Longrightarrow> \<not> (Q x \<and> Q y)"
    and lt: "\<And>x y. x \<in> S \<Longrightarrow> y \<in> S \<Longrightarrow> lt x y \<Longrightarrow> \<not> (Q x \<and> Q y)"
  shows "filter Q (cocktail gt lt xs) = filter Q xs"
  using assms(1)
proof (induction "length xs" arbitrary: xs rule: less_induct)
  case less
  show ?case
  proof (cases "bubbled gt xs")
    case True
    from cocktail_step [OF True, of lt] obtain ys ws where
      s: "ys = bubble gt xs" "ws = rev (bubble lt (rev (butlast ys)))"
        "cocktail gt lt xs = hd ws # cocktail gt lt (tl ws) @ [last ys]" "ys \<noteq> []" "ws \<noteq> []"
        "length ws < length xs" "set ws = set (butlast ys)" "set ws \<subseteq> set xs"
        "set (tl ws) \<subseteq> set ws" "hd ws \<in> set ws" .
    have S: "set ys \<subseteq> S" "set (rev (butlast ys)) \<subseteq> S" "set (tl ws) \<subseteq> S"
      using less.prems s(1,7,8,9) by auto
    have "filter Q (hd ws # tl ws) = filter Q (butlast ys)"
      using bubble_stable [OF S(2) lt] s(2,5) by (simp add: rev_filter [symmetric])
    moreover have "filter Q (cocktail gt lt (tl ws)) = filter Q (tl ws)"
      using less.hyps [OF _ S(3)] s(6) by simp
    moreover have "filter Q (butlast ys @ [last ys]) = filter Q xs"
      using bubble_stable [OF less.prems gt] s(1,4) by simp
    ultimately show ?thesis unfolding s(3) by (metis append_Cons filter.simps(2) filter_append)
  qed (simp add: cocktail_done)
qed

locale consistent_cmp =
  fixes ok :: "'a \<Rightarrow> bool"
    and cmp :: "'a \<Rightarrow> 'a \<Rightarrow> jsnum res"
    and le :: "'a \<Rightarrow> 'a \<Rightarrow> bool"
  assumes cmp_defined: "ok a \<Longrightarrow> ok b \<Longrightarrow> \<exists>n. cmp a b = Inr n"
    and cmp_pos: "ok a \<Longrightarrow> ok b \<Longrightarrow> cmp a b = Inr n \<Longrightarrow> sgn_num n > 0 \<longleftrightarrow> \<not> le a b"
    and cmp_neg: "ok a \<Longrightarrow> ok b \<Longrightarrow> cmp a b = Inr n \<Longrightarrow> sgn_num n < 0 \<longleftrightarrow> \<not> le b a"
    and le_total: "ok a \<Longrightarrow> ok b \<Longrightarrow> le a b \<or> le b a"
    and le_trans: "ok a \<Longrightarrow> ok b \<Longrightarrow> ok c \<Longrightarrow> le a b \<Longrightarrow> le b c \<Longrightarrow> le a c"
begin

lemma cmp_value:
  assumes "ok a" "ok b"
  obtains n where "cmp a b = Inr n" "sgn_num n > 0 \<longleftrightarrow> \<not> le a b" "sgn_num n < 0 \<longleftrightarrow> \<not> le b a"
  using assms cmp_defined cmp_pos cmp_neg by meson

lemma le_refl: "ok a \<Longrightarrow> le a a"
  using le_total by blast

text \<open>The index loops act on the segment between the two bounds; \<open>pre\<close> and \<open>post\<close> are the parts
  of the array outside it.\<close>

lemma fwd_pass_segment:
  assumes "\<forall>z \<in> set (x # seg). ok z" and "t = int (length pre) + int (length seg)"
  shows "fwd_pass cmp (length pre) t (pre @ x # seg @ post) sw
    = Inr (pre @ bubble (\<lambda>a b. \<not> le a b) (x # seg) @ post, sw \<or> bubbled (\<lambda>a b. \<not> le a b) (x # seg))"
  using assms
proof (induction seg arbitrary: x pre sw)
  case Nil
  then show ?case by (simp add: fwd_pass.simps)
next
  case (Cons y zs)
  then obtain n where n: "cmp x y = Inr n" "sgn_num n > 0 \<longleftrightarrow> \<not> le x y"
    by (meson cmp_value list.set_intros)
  have upd: "(pre @ y # y # zs @ post)[Suc (length pre) := x] = pre @ y # x # zs @ post"
    by (simp add: list_update_append)
  have IH: "fwd_pass cmp (Suc (length pre)) t (pre @ a # b # zs @ post) sw'
    = Inr (pre @ a # bubble (\<lambda>a b. \<not> le a b) (b # zs) @ post, sw' \<or> bubbled (\<lambda>a b. \<not> le a b) (b # zs))"
    if "ok b" for a b sw'
    using Cons.IH [of b "pre @ [a]" sw'] Cons.prems that by simp
  have "int (length pre) < t" using Cons.prems by simp
  then show ?case
    using Cons.prems(1)
    by (simp add: fwd_pass.simps [of cmp "length pre"] nth_append n upd IH)
qed

lemma bwd_pass_segment:
  assumes "\<forall>z \<in> set (x # seg). ok z" and "i = int (length pre) + int (length seg)"
  shows "bwd_pass cmp i (length pre) (pre @ rev (x # seg) @ post) sw
    = Inr (pre @ rev (bubble (\<lambda>a b. \<not> le b a) (x # seg)) @ post, sw \<or> bubbled (\<lambda>a b. \<not> le b a) (x # seg))"
  using assms
proof (induction seg arbitrary: x i post sw)
  case Nil
  then show ?case by (simp add: bwd_pass.simps)
next
  case (Cons y zs)
  then obtain n where n: "cmp x y = Inr n" "sgn_num n < 0 \<longleftrightarrow> \<not> le y x"
    by (meson cmp_value list.set_intros)
  let ?p = "pre @ rev zs"
  have i: "nat i = Suc (length ?p)" "nat (i - 1) = length ?p" "int (length pre) < i"
    using Cons.prems(2) by simp_all
  have nth: "(?p @ y # x # post) ! Suc (length ?p) = x" "(?p @ y # x # post) ! length ?p = y"
    using nth_append_length [of "?p @ [y]" x post] nth_append_length [of ?p y "x # post"] by simp_all
  have upd: "(?p @ y # x # post)[Suc (length ?p) := y, length ?p := x] = ?p @ x # y # post"
    using list_update_length [of "?p @ [y]" x post y] list_update_length [of ?p y "y # post" x] by simp
  have IH: "bwd_pass cmp (i - 1) (length pre) (?p @ b # a # post) sw'
    = Inr (pre @ rev (bubble (\<lambda>a b. \<not> le b a) (b # zs)) @ a # post, sw' \<or> bubbled (\<lambda>a b. \<not> le b a) (b # zs))"
    if "ok b" for a b sw'
    using Cons.IH [of b "i - 1" "a # post" sw'] Cons.prems that by simp
  have "bwd_pass cmp i (length pre) (?p @ y # x # post) sw
    = Inr (pre @ rev (bubble (\<lambda>a b. \<not> le b a) (x # y # zs)) @ post, sw \<or> bubbled (\<lambda>a b. \<not> le b a) (x # y # zs))"
    unfolding bwd_pass.simps [of cmp i] if_P [OF i(3)] i(1,2) nth upd n(1) bindR_simps
    using Cons.prems(1) n(2) by (simp add: IH del: append_assoc length_append)
  then show ?case by simp
qed

text \<open>Hence the whole loop computes \<open>cocktail\<close> on the segment.\<close>

lemma shaker_loop_segment:
  assumes "\<forall>z \<in> set seg. ok z" and "t = int (length pre) + int (length seg) - 1"
  shows "shaker_loop cmp (length pre) t (pre @ seg @ post)
    = Inr (pre @ cocktail (\<lambda>a b. \<not> le a b) (\<lambda>a b. \<not> le b a) seg @ post)"
  using assms
proof (induction "length seg" arbitrary: seg t pre post rule: less_induct)
  case less
  let ?gt = "\<lambda>a b. \<not> le a b" and ?lt = "\<lambda>a b. \<not> le b a"
  show ?case
  proof (cases "bubbled ?gt seg")
    case False
    have "fwd_pass cmp (length pre) t (pre @ seg @ post) False = Inr (pre @ seg @ post, False)"
    proof (cases seg)
      case Nil
      then show ?thesis using less.prems by (simp add: fwd_pass.simps)
    next
      case (Cons x r)
      then show ?thesis
        using fwd_pass_segment [of x r t pre post False] less.prems False bubble_id [OF False] by simp
    qed
    then show ?thesis using False by (simp add: shaker_loop.simps cocktail.simps)
  next
    case True
    then obtain x r where seg: "seg = x # r" and r: "r \<noteq> []"
      using bubbled_length [OF True] by (cases seg; cases "tl seg") auto
    define ys where "ys = bubble ?gt seg"
    define zs where "zs = rev (butlast ys)"
    have ys: "ys \<noteq> []" "length ys = length seg" "\<forall>z \<in> set ys. ok z"
      using less.prems(1) by (auto simp: ys_def seg)
    have fwd: "fwd_pass cmp (length pre) t (pre @ seg @ post) False = Inr (pre @ ys @ post, True)"
      using fwd_pass_segment [of x r t pre post False] less.prems True by (simp add: seg ys_def)
    obtain z zr where zs: "zs = z # zr"
      using ys(2) r seg by (cases zs) (auto simp: zs_def dest: arg_cong [of _ _ length])
    have okz: "\<forall>z \<in> set zs. ok z" using ys(1,3) by (auto simp: zs_def dest: in_set_butlastD)
    have split: "pre @ ys @ post = pre @ rev (z # zr) @ last ys # post"
      using ys(1) zs by (simp add: zs_def flip: zs)
    define ws where "ws = rev (bubble ?lt zs)"
    have "length zs = length seg - 1" using ys(2) by (simp add: zs_def)
    then have ws: "ws \<noteq> []" "length ws = length seg - 1" "\<forall>z \<in> set ws. ok z"
      and lenr: "length zr = length seg - 2"
      using okz zs by (auto simp: ws_def)
    have bwd: "bwd_pass cmp (t - 1) (length pre) (pre @ ys @ post) True = Inr (pre @ ws @ last ys # post, True)"
      unfolding split using bwd_pass_segment [of z zr "t - 1" pre "last ys # post" True]
        less.prems(2) okz lenr seg r by (simp add: ws_def zs Suc_leI)
    have ih: "shaker_loop cmp (Suc (length pre)) (t - 1) (pre @ ws @ last ys # post)
      = Inr (pre @ hd ws # cocktail ?gt ?lt (tl ws) @ last ys # post)"
      using less.hyps [of "tl ws" "t - 1" "pre @ [hd ws]" "last ys # post"] ws less.prems(2) seg r
      by (cases ws) auto
    have "cocktail ?gt ?lt seg = hd ws # cocktail ?gt ?lt (tl ws) @ [last ys]"
      using True by (subst cocktail.simps) (simp add: Let_def ws_def zs_def ys_def)
    then show ?thesis by (simp add: shaker_loop.simps [of cmp "length pre"] fwd bwd ih)
  qed
qed

subsection \<open>Sorted, stable, a permutation\<close>

lemma bubble_last:
  assumes "\<forall>z \<in> set (x # xs). ok z"
  shows "\<forall>z \<in> set xs \<union> {x}. le z (last (bubble (\<lambda>a b. \<not> le a b) (x # xs)))"
  using assms
proof (induction xs arbitrary: x)
  case Nil
  then show ?case by (simp add: le_refl)
next
  case (Cons y zs)
  let ?B = "bubble (\<lambda>a b. \<not> le a b)"
  have last: "last (a # ?B (b # zs)) = last (?B (b # zs))" for a b
    by (metis bubble_Nil_iff last_ConsR list.distinct(1))
  have ok: "ok (last (?B (b # zs)))" if "ok b" for b
    using Cons.prems that by (metis bubble_Nil_iff last_in_set list.distinct(1) list.set_intros set_ConsD set_bubble)
  show ?case
  proof (cases "le x y")
    case True
    then have "le x (last (?B (y # zs)))"
      using Cons.IH [of y] Cons.prems ok le_trans [of x y "last (?B (y # zs))"] by auto
    with True Cons.IH [of y] Cons.prems show ?thesis by (simp add: last)
  next
    case False
    then have "le y x" using le_total Cons.prems by auto
    then have "le y (last (?B (x # zs)))"
      using Cons.IH [of x] Cons.prems ok le_trans [of y x "last (?B (x # zs))"] by auto
    with False Cons.IH [of x] Cons.prems show ?thesis by (simp add: last)
  qed
qed

text \<open>The converse order satisfies the same laws, so the backward pass needs no proof of its own.\<close>

lemma converse_consistent: "consistent_cmp ok (\<lambda>a b. cmp b a) (\<lambda>a b. le b a)"
  using cmp_defined cmp_pos cmp_neg le_total le_trans
  by unfold_locales blast+

lemma not_bubbled_sorted:
  assumes "\<forall>z \<in> set xs. ok z" and "\<not> bubbled (\<lambda>a b. \<not> le a b) xs"
  shows "sorted_wrt le xs"
  using assms
proof (induction xs rule: induct_list012)
  case (3 x y zs)
  then have "sorted_wrt le (y # zs)" and "le x y" by simp_all
  moreover have "\<forall>z \<in> set zs. le x z"
    using "3.prems"(1) \<open>le x y\<close> \<open>sorted_wrt le (y # zs)\<close> le_trans [of x y] by simp
  ultimately show ?case by simp
qed simp_all

lemma bubble_last_all:
  assumes "\<forall>z \<in> set xs. ok z" and "z \<in> set xs"
  shows "le z (last (bubble (\<lambda>a b. \<not> le a b) xs))"
  using assms bubble_last by (cases xs) auto

lemma sorted_cocktail:
  assumes "\<forall>z \<in> set xs. ok z"
  shows "sorted_wrt le (cocktail (\<lambda>a b. \<not> le a b) (\<lambda>a b. \<not> le b a) xs)"
  using assms
proof (induction "length xs" arbitrary: xs rule: less_induct)
  case less
  let ?gt = "\<lambda>a b. \<not> le a b" and ?lt = "\<lambda>a b. \<not> le b a"
  show ?case
  proof (cases "bubbled ?gt xs")
    case False
    then show ?thesis using not_bubbled_sorted less.prems by (simp add: cocktail.simps)
  next
    case True
    from cocktail_step [OF True, of ?lt] obtain ys ws where
      s: "ys = bubble ?gt xs" "ws = rev (bubble ?lt (rev (butlast ys)))"
        "cocktail ?gt ?lt xs = hd ws # cocktail ?gt ?lt (tl ws) @ [last ys]" "ys \<noteq> []" "ws \<noteq> []"
        "length ws < length xs" "set ws = set (butlast ys)" "set ws \<subseteq> set xs"
        "set (tl ws) \<subseteq> set ws" "hd ws \<in> set ws" .
    have oks: "\<forall>z \<in> set ws. ok z" using s(8) less.prems by auto
    have top: "le z (last ys)" if "z \<in> set ws" for z
      using bubble_last_all [OF less.prems, of z] that s(1,8) by auto
    have "hd ws = last (bubble ?lt (rev (butlast ys)))" using s(2) by (simp add: hd_rev)
    then have bot: "le (hd ws) z" if "z \<in> set ws" for z
      using consistent_cmp.bubble_last_all [OF converse_consistent, of "rev (butlast ys)" z] oks that
        s(7) by simp
    have elems: "set (cocktail ?gt ?lt (tl ws)) = set (tl ws)"
      by (metis mset_cocktail set_mset_mset)
    have "sorted_wrt le (cocktail ?gt ?lt (tl ws))"
    proof (rule less.hyps)
      show "length (tl ws) < length xs" using s(6) by simp
      show "\<forall>z \<in> set (tl ws). ok z" using s(9) oks by blast
    qed
    moreover have "le (hd ws) (last ys)" using top s(10) by blast
    ultimately show ?thesis
      unfolding s(3) using top bot s(9) elems by (auto simp: sorted_wrt_append)
  qed
qed

lemma shaker_sort_spec:
  assumes "\<forall>z \<in> set xs. ok z"
  shows "\<exists>ys. shaker_sort xs cmp = Inr ys \<and> mset ys = mset xs \<and> sorted_wrt le ys
     \<and> (\<forall>a. ok a \<longrightarrow> filter (\<lambda>x. le a x \<and> le x a) ys = filter (\<lambda>x. le a x \<and> le x a) xs)"
proof -
  let ?ys = "cocktail (\<lambda>a b. \<not> le a b) (\<lambda>a b. \<not> le b a) xs"
  have "shaker_sort xs cmp = Inr ?ys"
    using shaker_loop_segment [of xs _ "[]" "[]"] assms by (simp add: shaker_sort_def)
  moreover have "filter (\<lambda>x. le a x \<and> le x a) ?ys = filter (\<lambda>x. le a x \<and> le x a) xs" if "ok a" for a
    using assms that by (intro cocktail_stable [of _ "Collect ok"]) (auto dest: le_trans)
  ultimately show ?thesis using mset_cocktail sorted_cocktail [OF assms] by blast
qed

end

end
