(* ===== verification/JS_Regex.thy ===== *)
theory JS_Regex
  imports JS_Prelude
begin

text \<open>
  The regular expressions of the language (ES5 15.10), as far as the sources use them: a
  backtracking matcher in continuation-passing style that follows the specification's internal
  matcher procedures, with greedy and lazy quantifiers, capturing groups that are cleared at
  every iteration, back references, look-ahead, the anchors with and without the multiline flag
  and word boundaries.  \<open>ss\<close> is the reference semantics, the list of all ways to match in
  order of priority; \<open>rm_ss\<close> shows that the matcher returns the first one its continuation
  accepts.  The loop of a quantifier is bounded by the length of the input;
  \<open>ssrep_fuel\<close> shows the bound is never reached.
\<close>

named_theorems regex_simps "symbolic evaluation of the matcher"

section \<open>Syntax\<close>

datatype re =
    REmpty
  | RSet bool "(nat \<times> nat) list"
  | RSeq re re
  | RAlt re re
  | RRep re nat "nat option" bool
  | RGroup nat re
  | RBack nat
  | RBol
  | REol
  | RWordB bool
  | RLook bool re

abbreviation rchr :: "char \<Rightarrow> re" where "rchr c \<equiv> RSet True [(of_char c, of_char c)]"
abbreviation runit :: "nat \<Rightarrow> re" where "runit n \<equiv> RSet True [(n, n)]"
abbreviation rstar :: "re \<Rightarrow> re" where "rstar r \<equiv> RRep r 0 None True"
abbreviation rplus :: "re \<Rightarrow> re" where "rplus r \<equiv> RRep r 1 None True"
abbreviation ropt :: "re \<Rightarrow> re" where "ropt r \<equiv> RRep r 0 (Some 1) True"
abbreviation rtimes :: "re \<Rightarrow> nat \<Rightarrow> re" where "rtimes r n \<equiv> RRep r n (Some n) True"

abbreviation digit_ranges :: "(nat \<times> nat) list" where "digit_ranges \<equiv> [(48, 57)]"
abbreviation word_ranges :: "(nat \<times> nat) list" where
  "word_ranges \<equiv> [(48, 57), (65, 90), (95, 95), (97, 122)]"
abbreviation space_ranges :: "(nat \<times> nat) list" where
  "space_ranges \<equiv> [(9, 13), (32, 32), (160, 160), (5760, 5760), (6158, 6158), (8192, 8202),
     (8232, 8233), (8239, 8239), (8287, 8287), (12288, 12288), (65279, 65279)]"
abbreviation line_end_ranges :: "(nat \<times> nat) list" where
  "line_end_ranges \<equiv> [(10, 10), (13, 13), (8232, 8233)]"

abbreviation rdigit :: re where "rdigit \<equiv> RSet True digit_ranges"
abbreviation rspace :: re where "rspace \<equiv> RSet True space_ranges"
abbreviation rword :: re where "rword \<equiv> RSet True word_ranges"
abbreviation rdot :: re where "rdot \<equiv> RSet False line_end_ranges"

fun rseq :: "re list \<Rightarrow> re" where
  "rseq [] = REmpty"
| "rseq [r] = r"
| "rseq (r # rs) = RSeq r (rseq rs)"

fun ralts :: "re list \<Rightarrow> re" where
  "ralts [] = REmpty"
| "ralts [r] = r"
| "ralts (r # rs) = RAlt r (ralts rs)"

fun rstr :: "string \<Rightarrow> re" where
  "rstr s = rseq (map (\<lambda>c. rchr c) s)"

definition in_ranges :: "(nat \<times> nat) list \<Rightarrow> nat \<Rightarrow> bool" where
  "in_ranges rs c \<longleftrightarrow> list_ex (\<lambda>(a, b). a \<le> c \<and> c \<le> b) rs"

definition is_space :: "cu \<Rightarrow> bool" where
  "is_space c = in_ranges space_ranges c"

definition is_word :: "cu \<Rightarrow> bool" where
  "is_word c = in_ranges word_ranges c"

definition is_line_end :: "cu \<Rightarrow> bool" where
  "is_line_end c = in_ranges line_end_ranges c"

text \<open>The capturing groups inside a pattern.\<close>

primrec groups :: "re \<Rightarrow> nat list" where
  "groups REmpty = []"
| "groups (RSet _ _) = []"
| "groups (RSeq a b) = groups a @ groups b"
| "groups (RAlt a b) = groups a @ groups b"
| "groups (RRep r _ _ _) = groups r"
| "groups (RGroup n r) = n # groups r"
| "groups (RBack _) = []"
| "groups RBol = []"
| "groups REol = []"
| "groups (RWordB _) = []"
| "groups (RLook _ r) = groups r"

section \<open>The matcher\<close>

text \<open>A state is the end index of the match so far and the captures, group \<open>n\<close> at
  position \<open>n\<close> (position 0 is unused).\<close>

type_synonym caps = "jsstr option list"
type_synonym mstate = "nat \<times> caps"

definition clear :: "nat list \<Rightarrow> caps \<Rightarrow> caps" where
  "clear gs c = fold (\<lambda>g c. c[g := None]) gs c"

definition cap_at :: "caps \<Rightarrow> nat \<Rightarrow> jsstr option" where
  "cap_at c n = (if n < length c then c ! n else None)"

definition at_bol :: "bool \<Rightarrow> jsstr \<Rightarrow> nat \<Rightarrow> bool" where
  "at_bol ml s i \<longleftrightarrow> i = 0 \<or> ml \<and> i \<le> length s \<and> is_line_end (s ! (i - 1))"

definition at_eol :: "bool \<Rightarrow> jsstr \<Rightarrow> nat \<Rightarrow> bool" where
  "at_eol ml s i \<longleftrightarrow> i = length s \<or> ml \<and> i < length s \<and> is_line_end (s ! i)"

definition word_at :: "jsstr \<Rightarrow> nat \<Rightarrow> bool" where
  "word_at s i \<longleftrightarrow> i < length s \<and> is_word (s ! i)"

definition at_boundary :: "jsstr \<Rightarrow> nat \<Rightarrow> bool" where
  "at_boundary s i \<longleftrightarrow> (0 < i \<and> word_at s (i - 1)) \<noteq> word_at s i"

fun rep :: "((mstate \<Rightarrow> mstate option) \<Rightarrow> mstate \<Rightarrow> mstate option) \<Rightarrow> nat list \<Rightarrow> nat \<Rightarrow> nat \<Rightarrow>
    nat option \<Rightarrow> bool \<Rightarrow> (mstate \<Rightarrow> mstate option) \<Rightarrow> mstate \<Rightarrow> mstate option" where
  "rep m gs 0 mn mx g k st = None"
| "rep m gs (Suc f) mn mx g k st =
     (if mx = Some 0 then k st
      else let d = (\<lambda>st'. if mn = 0 \<and> fst st' = fst st then None
                          else rep m gs f (mn - 1) (map_option (\<lambda>n. n - 1) mx) g k st');
               st0 = (fst st, clear gs (snd st))
           in if mn > 0 then m d st0
              else if g then (case m d st0 of Some z \<Rightarrow> Some z | None \<Rightarrow> k st)
              else (case k st of Some z \<Rightarrow> Some z | None \<Rightarrow> m d st0))"

primrec rm :: "re \<Rightarrow> bool \<Rightarrow> jsstr \<Rightarrow> (mstate \<Rightarrow> mstate option) \<Rightarrow> mstate \<Rightarrow> mstate option" where
  "rm REmpty ml s k st = k st"
| "rm (RSet pos rs) ml s k st =
     (if fst st < length s \<and> in_ranges rs (s ! fst st) = pos then k (Suc (fst st), snd st) else None)"
| "rm (RSeq a b) ml s k st = rm a ml s (rm b ml s k) st"
| "rm (RAlt a b) ml s k st =
     (case rm a ml s k st of Some z \<Rightarrow> Some z | None \<Rightarrow> rm b ml s k st)"
| "rm (RRep r mn mx g) ml s k st =
     rep (rm r ml s) (groups r) (Suc (mn + (length s - fst st))) mn mx g k st"
| "rm (RGroup n r) ml s k st =
     rm r ml s (\<lambda>st'. k (fst st', (snd st')[n := Some (take (fst st' - fst st) (drop (fst st) s))])) st"
| "rm (RBack n) ml s k st =
     (case cap_at (snd st) n of
        None \<Rightarrow> k st
      | Some t \<Rightarrow> if prefix_at s (fst st) t then k (fst st + length t, snd st) else None)"
| "rm RBol ml s k st = (if at_bol ml s (fst st) then k st else None)"
| "rm REol ml s k st = (if at_eol ml s (fst st) then k st else None)"
| "rm (RWordB b) ml s k st = (if at_boundary s (fst st) = b then k st else None)"
| "rm (RLook pos r) ml s k st =
     (case rm r ml s Some st of
        None \<Rightarrow> if pos then None else k st
      | Some st' \<Rightarrow> if pos then k (fst st, snd st') else None)"

text \<open>For evaluation the state is taken apart before the matcher is unfolded.\<close>

lemma rep_code [code]:
  "rep m gs 0 mn mx g k (i, c) = None"
  "rep m gs (Suc f) mn mx g k (i, c) =
     (if mx = Some 0 then k (i, c)
      else let d = (\<lambda>st'. if mn = 0 \<and> fst st' = i then None
                          else rep m gs f (mn - 1) (map_option (\<lambda>n. n - 1) mx) g k st')
           in if mn > 0 then m d (i, clear gs c)
              else if g then (case m d (i, clear gs c) of Some z \<Rightarrow> Some z | None \<Rightarrow> k (i, c))
              else (case k (i, c) of Some z \<Rightarrow> Some z | None \<Rightarrow> m d (i, clear gs c)))"
  by (simp_all add: Let_def)

lemma rm_code [code]:
  "rm REmpty ml s k (i, c) = k (i, c)"
  "rm (RSet pos rs) ml s k (i, c) =
     (if i < length s \<and> in_ranges rs (s ! i) = pos then k (Suc i, c) else None)"
  "rm (RSeq a b) ml s k (i, c) = rm a ml s (rm b ml s k) (i, c)"
  "rm (RAlt a b) ml s k (i, c) =
     (case rm a ml s k (i, c) of Some z \<Rightarrow> Some z | None \<Rightarrow> rm b ml s k (i, c))"
  "rm (RRep r mn mx g) ml s k (i, c) =
     rep (rm r ml s) (groups r) (Suc (mn + (length s - i))) mn mx g k (i, c)"
  "rm (RGroup n r) ml s k (i, c) =
     rm r ml s (\<lambda>st'. k (fst st', (snd st')[n := Some (take (fst st' - i) (drop i s))])) (i, c)"
  "rm (RBack n) ml s k (i, c) =
     (case cap_at c n of
        None \<Rightarrow> k (i, c)
      | Some t \<Rightarrow> if prefix_at s i t then k (i + length t, c) else None)"
  "rm RBol ml s k (i, c) = (if at_bol ml s i then k (i, c) else None)"
  "rm REol ml s k (i, c) = (if at_eol ml s i then k (i, c) else None)"
  "rm (RWordB pos) ml s k (i, c) = (if at_boundary s i = pos then k (i, c) else None)"
  "rm (RLook pos r) ml s k (i, c) =
     (case rm r ml s Some (i, c) of
        None \<Rightarrow> if pos then None else k (i, c)
      | Some st' \<Rightarrow> if pos then k (i, snd st') else None)"
  by (simp_all add: fun_eq_iff split: option.split)

text \<open>\<open>RegExp.prototype.exec\<close> tries the start indices from left to right (ES5 15.10.6.2).  The
  result is the start index, the end index and the captures.\<close>

definition no_caps :: "re \<Rightarrow> caps" where
  "no_caps r = replicate (Suc (foldr max (groups r) 0)) None"

definition match_at :: "re \<Rightarrow> bool \<Rightarrow> jsstr \<Rightarrow> nat \<Rightarrow> mstate option" where
  "match_at r ml s i = rm r ml s Some (i, no_caps r)"

fun search_from :: "nat \<Rightarrow> re \<Rightarrow> bool \<Rightarrow> jsstr \<Rightarrow> nat \<Rightarrow> (nat \<times> mstate) option" where
  "search_from 0 r ml s i = None"
| "search_from (Suc n) r ml s i =
     (case match_at r ml s i of Some st \<Rightarrow> Some (i, st) | None \<Rightarrow> search_from n r ml s (Suc i))"

definition exec_from :: "re \<Rightarrow> bool \<Rightarrow> jsstr \<Rightarrow> nat \<Rightarrow> (nat \<times> mstate) option" where
  "exec_from r ml s i = search_from (Suc (length s) - i) r ml s i"

definition exec :: "re \<Rightarrow> jsstr \<Rightarrow> (nat \<times> mstate) option" where
  "exec r s = exec_from r False s 0"

definition re_test :: "re \<Rightarrow> jsstr \<Rightarrow> bool" where
  "re_test r s \<longleftrightarrow> exec r s \<noteq> None"

section \<open>Reference semantics: the list of successes\<close>

fun find_map :: "('a \<Rightarrow> 'b option) \<Rightarrow> 'a list \<Rightarrow> 'b option" where
  "find_map k [] = None"
| "find_map k (x # xs) = (case k x of Some z \<Rightarrow> Some z | None \<Rightarrow> find_map k xs)"

lemma find_map_append:
  "find_map k (xs @ ys) = (case find_map k xs of Some z \<Rightarrow> Some z | None \<Rightarrow> find_map k ys)"
  by (induction xs) (auto split: option.splits)

lemma find_map_concat_map:
  "find_map k (concat (map f xs)) = find_map (\<lambda>x. find_map k (f x)) xs"
  by (induction xs) (auto simp: find_map_append split: option.splits)

lemma find_map_cong: "(\<And>x. x \<in> set xs \<Longrightarrow> k x = k' x) \<Longrightarrow> find_map k xs = find_map k' xs"
  by (induction xs) (auto split: option.splits)

lemma find_map_map: "find_map k (map f xs) = find_map (\<lambda>x. k (f x)) xs"
  by (induction xs) (auto split: option.splits)

lemma find_map_None: "find_map k xs = None \<longleftrightarrow> (\<forall>x \<in> set xs. k x = None)"
  by (induction xs) (auto split: option.splits)

lemma find_map_SomeD: "find_map k xs = Some y \<Longrightarrow> \<exists>x \<in> set xs. k x = Some y"
  by (induction xs) (auto split: option.splits)

fun ssrep :: "(mstate \<Rightarrow> mstate list) \<Rightarrow> nat list \<Rightarrow> nat \<Rightarrow> nat \<Rightarrow> nat option \<Rightarrow> bool \<Rightarrow>
    mstate \<Rightarrow> mstate list" where
  "ssrep m gs 0 mn mx g st = []"
| "ssrep m gs (Suc f) mn mx g st =
     (if mx = Some 0 then [st]
      else let body = concat (map (\<lambda>st'. if mn = 0 \<and> fst st' = fst st then []
                                else ssrep m gs f (mn - 1) (map_option (\<lambda>n. n - 1) mx) g st')
                              (m (fst st, clear gs (snd st))))
           in if mn > 0 then body else if g then body @ [st] else st # body)"

primrec ss :: "re \<Rightarrow> bool \<Rightarrow> jsstr \<Rightarrow> mstate \<Rightarrow> mstate list" where
  "ss REmpty ml s st = [st]"
| "ss (RSet pos rs) ml s st =
     (if fst st < length s \<and> in_ranges rs (s ! fst st) = pos then [(Suc (fst st), snd st)] else [])"
| "ss (RSeq a b) ml s st = concat (map (ss b ml s) (ss a ml s st))"
| "ss (RAlt a b) ml s st = ss a ml s st @ ss b ml s st"
| "ss (RRep r mn mx g) ml s st =
     ssrep (ss r ml s) (groups r) (Suc (mn + (length s - fst st))) mn mx g st"
| "ss (RGroup n r) ml s st =
     map (\<lambda>st'. (fst st', (snd st')[n := Some (take (fst st' - fst st) (drop (fst st) s))]))
       (ss r ml s st)"
| "ss (RBack n) ml s st =
     (case cap_at (snd st) n of
        None \<Rightarrow> [st]
      | Some t \<Rightarrow> if prefix_at s (fst st) t then [(fst st + length t, snd st)] else [])"
| "ss RBol ml s st = (if at_bol ml s (fst st) then [st] else [])"
| "ss REol ml s st = (if at_eol ml s (fst st) then [st] else [])"
| "ss (RWordB b) ml s st = (if at_boundary s (fst st) = b then [st] else [])"
| "ss (RLook pos r) ml s st =
     (case ss r ml s st of
        [] \<Rightarrow> if pos then [] else [st]
      | st' # _ \<Rightarrow> if pos then [(fst st, snd st')] else [])"

lemma find_map_Some [simp]: "find_map Some xs = (case xs of [] \<Rightarrow> None | x # _ \<Rightarrow> Some x)"
  by (cases xs) auto

lemma rep_ssrep:
  assumes "\<And>k st. m k st = find_map k (l st)"
  shows "rep m gs f mn mx g k st = find_map k (ssrep l gs f mn mx g st)"
proof (induction f arbitrary: mn mx st)
  case (Suc f)
  have body: "m (\<lambda>st'. if mn = 0 \<and> fst st' = fst st then None
                       else rep m gs f (mn - 1) (map_option (\<lambda>n. n - 1) mx) g k st') st0
    = find_map k (concat (map (\<lambda>st'. if mn = 0 \<and> fst st' = fst st then []
                       else ssrep l gs f (mn - 1) (map_option (\<lambda>n. n - 1) mx) g st') (l st0)))" for st0
    by (subst assms, subst find_map_concat_map, rule find_map_cong) (simp add: Suc)
  show ?case
    unfolding rep.simps ssrep.simps Let_def body
    by (simp add: find_map_append split: option.split)
qed simp

theorem rm_ss: "rm r ml s k st = find_map k (ss r ml s st)"
proof (induction r arbitrary: k st)
  case (RSeq a b)
  show ?case by (simp add: RSeq find_map_concat_map)
next
  case (RAlt a b)
  then show ?case by (simp add: find_map_append split: option.split)
next
  case (RRep r mn mx g)
  then show ?case unfolding rm.simps ss.simps by (rule rep_ssrep)
next
  case (RGroup n r)
  then show ?case by (simp add: find_map_map)
next
  case (RLook pos r)
  then show ?case by (auto split: list.splits option.splits)
qed (auto split: option.splits)

lemma length_clear [simp]: "length (clear gs c) = length c"
  unfolding clear_def by (induction gs arbitrary: c) auto

text \<open>Every success ends at or after its start, inside the input, and keeps the number of captures.\<close>

lemma ssrep_bounds:
  assumes "\<And>st st'. fst st \<le> n \<Longrightarrow> st' \<in> set (m st) \<Longrightarrow>
      fst st \<le> fst st' \<and> fst st' \<le> n \<and> length (snd st') = length (snd st)"
    and "fst st \<le> n" and "st' \<in> set (ssrep m gs f mn mx g st)"
  shows "fst st \<le> fst st' \<and> fst st' \<le> n \<and> length (snd st') = length (snd st)"
  using assms(2,3)
proof (induction f arbitrary: mn mx st)
  case (Suc f)
  consider "st' = st" | st1 where "st1 \<in> set (m (fst st, clear gs (snd st)))"
      "st' \<in> set (ssrep m gs f (mn - 1) (map_option (\<lambda>n. n - 1) mx) g st1)"
    using Suc.prems(2) by (auto simp: Let_def split: if_splits)
  then show ?case
  proof cases
    case 1
    with Suc.prems show ?thesis by simp
  next
    case 2
    from assms(1) [OF _ 2(1)] Suc.prems(1)
    have st1: "fst st \<le> fst st1" "fst st1 \<le> n" "length (snd st1) = length (snd st)" by simp_all
    from Suc.IH [OF st1(2) 2(2)] st1 show ?thesis by simp
  qed
qed simp

lemma ss_bounds:
  "fst st \<le> length s \<Longrightarrow> st' \<in> set (ss r ml s st) \<Longrightarrow>
     fst st \<le> fst st' \<and> fst st' \<le> length s \<and> length (snd st') = length (snd st)"
proof (induction r arbitrary: st st')
  case (RSeq a b)
  from RSeq.prems(2) obtain st1 where st1: "st1 \<in> set (ss a ml s st)" "st' \<in> set (ss b ml s st1)"
    by auto
  from RSeq.IH(1) [OF RSeq.prems(1) st1(1)]
  have a: "fst st \<le> fst st1" "fst st1 \<le> length s" "length (snd st1) = length (snd st)" by blast+
  from RSeq.IH(2) [OF a(2) st1(2)] a show ?case by (metis order_trans)
next
  case (RAlt a b)
  from RAlt.prems(2) have "st' \<in> set (ss a ml s st) \<or> st' \<in> set (ss b ml s st)" by simp
  with RAlt.IH RAlt.prems(1) show ?case by metis
next
  case (RGroup n r)
  from RGroup.prems(2) obtain st1 where st1: "st1 \<in> set (ss r ml s st)"
    "fst st' = fst st1" "length (snd st') = length (snd st1)"
    by auto
  from RGroup.IH [OF RGroup.prems(1) st1(1)] show ?case unfolding st1(2,3) .
next
  case (RRep r mn mx g)
  from RRep.prems(2) have "st' \<in> set (ssrep (ss r ml s) (groups r)
      (Suc (mn + (length s - fst st))) mn mx g st)" by (simp only: ss.simps)
  from ssrep_bounds [OF RRep.IH RRep.prems(1) this] show ?case .
next
  case (RLook pos r)
  show ?case
  proof (cases "ss r ml s st")
    case Nil
    with RLook.prems(2) have "st' = st" by (simp split: if_splits)
    with RLook.prems(1) show ?thesis by simp
  next
    case (Cons st1 sts)
    then have "st1 \<in> set (ss r ml s st)" by simp
    from RLook.IH [OF RLook.prems(1) this]
    have "fst st \<le> fst st1" "length (snd st1) = length (snd st)" by blast+
    moreover from Cons RLook.prems(2) have "st' = (fst st, snd st1)" by (simp split: if_splits)
    ultimately show ?thesis using RLook.prems(1) by simp
  qed
qed (auto simp: prefix_at_def split: if_splits option.splits)

text \<open>The iteration bound of a quantifier is never the reason it stops: with any bound above
  \<open>mn\<close> plus the length of the remaining input the successes are the same.\<close>

lemma ssrep_fuel:
  assumes "\<And>st st'. fst st \<le> n \<Longrightarrow> st' \<in> set (m st) \<Longrightarrow> fst st \<le> fst st' \<and> fst st' \<le> n"
    and "fst st \<le> n" and "mn + (n - fst st) < f" and "f \<le> f'"
  shows "ssrep m gs f' mn mx g st = ssrep m gs f mn mx g st"
  using assms(2-4)
proof (induction f arbitrary: f' mn mx st)
  case (Suc f)
  then obtain f'' where f': "f' = Suc f''" by (cases f') auto
  have "ssrep m gs f'' (mn - 1) (map_option (\<lambda>n. n - 1) mx) g st1
      = ssrep m gs f (mn - 1) (map_option (\<lambda>n. n - 1) mx) g st1"
    if "st1 \<in> set (m (fst st, clear gs (snd st)))" and "\<not> (mn = 0 \<and> fst st1 = fst st)" for st1
    using that assms(1) [of "(fst st, clear gs (snd st))" st1] Suc.prems f'
    by (intro Suc.IH) auto
  then show ?case
    by (auto simp: f' Let_def intro!: arg_cong [of _ _ concat])
qed simp

theorem rep_bound_sufficient:
  assumes "fst st \<le> length s" and "mn + (length s - fst st) < f"
  shows "rep (rm r ml s) (groups r) f mn mx g k st = rm (RRep r mn mx g) ml s k st"
proof -
  have "ssrep (ss r ml s) (groups r) f mn mx g st
      = ssrep (ss r ml s) (groups r) (Suc (mn + (length s - fst st))) mn mx g st"
    by (rule ssrep_fuel [of "length s"]) (use assms ss_bounds in \<open>auto dest: ss_bounds\<close>)
  then show ?thesis by (simp add: rep_ssrep [of _ "ss r ml s"] rm_ss)
qed

section \<open>Symbolic evaluation\<close>

text \<open>Rules that run the matcher on a string whose code units are known up to their class.\<close>

lemma in_digit_ranges [regex_simps]: "in_ranges digit_ranges c = is_digit c"
  by (simp add: in_ranges_def is_digit_def)

lemma list_update_Cons_numeral [regex_simps]:
  "(x # xs)[numeral n := y] = x # xs[pred_numeral n := y]"
  by (simp add: numeral_eq_Suc)

lemma clear_simps [regex_simps]: "clear [] c = c" "clear (g # gs) c = clear gs (c[g := None])"
  by (simp_all add: clear_def)

lemma at_bol_0 [regex_simps]: "at_bol ml s 0"
  by (simp add: at_bol_def)

lemma at_eol_False [regex_simps]: "at_eol False s i \<longleftrightarrow> i = length s"
  by (simp add: at_eol_def)

lemma prefix_search: "match_at r ml s 0 = Some st \<Longrightarrow> exec_from r ml s 0 = Some (0, st)"
  by (simp add: exec_from_def)

lemma in_unit_range [regex_simps]: "in_ranges [(n, n)] c \<longleftrightarrow> c = n"
  by (auto simp: in_ranges_def)

text \<open>The matcher is run from the outside in: the continuation is looked at only when it is called.\<close>

lemma is_digit_numeral [regex_simps]: "is_digit (numeral n) \<longleftrightarrow> 48 \<le> (numeral n :: nat) \<and> (numeral n :: nat) \<le> 57"
  by (simp add: is_digit_def)

lemma rm_weak_cong: "r = r' \<Longrightarrow> st = st' \<Longrightarrow> rm r ml s k st = rm r' ml s k st'"
  by simp

lemma rep_weak_cong: "f = f' \<Longrightarrow> mn = mn' \<Longrightarrow> mx = mx' \<Longrightarrow> st = st' \<Longrightarrow> rep m gs f mn mx g k st = rep m gs f' mn' mx' g k st'"
  by simp

lemma find_map_weak_cong: "xs = xs' \<Longrightarrow> find_map k xs = find_map k xs'"
  by simp

lemmas regex_congs = rm_weak_cong rep_weak_cong find_map_weak_cong

text \<open>Repetitions of a single unit and optional parts.  A greedy repetition tries the longest run first.\<close>

lemma rm_times_set:
  "rm (RRep (RSet pos rs) n (Some n) True) ml s k (i, c) =
     (if n \<le> length s - i \<and> list_all (\<lambda>x. in_ranges rs x = pos) (take n (drop i s)) then k (i + n, c) else None)"
proof -
  have gen: "rep (rm (RSet pos rs) ml s) [] f n (Some n) True k (i, c) =
     (if n \<le> length s - i \<and> list_all (\<lambda>x. in_ranges rs x = pos) (take n (drop i s)) then k (i + n, c) else None)" if "n < f" for f
    using that
  proof (induction f arbitrary: n i)
    case (Suc f)
    show ?case
    proof (cases n)
      case (Suc n')
      then show ?thesis
        using Suc.IH [of n' "Suc i"] Suc.prems
        by (cases "i < length s") (auto simp: Let_def clear_def take_Cons' Cons_nth_drop_Suc [symmetric])
    qed simp
  qed simp
  show ?thesis unfolding rm.simps(5) groups.simps fst_conv by (rule gen) simp
qed

lemma rep_greedy_set:
  "length s - i + mn < f \<Longrightarrow> rep (rm (RSet pos rs) ml s) [] f mn None True k (i, c) =
     find_map (\<lambda>j. k (i + j, c)) (rev [mn..<Suc (length (takeWhile (\<lambda>x. in_ranges rs x = pos) (drop i s)))])"
proof (induction f arbitrary: mn i)
  case (Suc f)
  let ?n = "\<lambda>i. length (takeWhile (\<lambda>x. in_ranges rs x = pos) (drop i s))"
  show ?case
  proof (cases "i < length s \<and> in_ranges rs (s ! i) = pos")
    case True
    then have n: "?n i = Suc (?n (Suc i))" by (simp add: Cons_nth_drop_Suc [symmetric])
    have up: "rev [Suc a..<Suc (Suc b)] = map Suc (rev [a..<Suc b])" for a b by (simp only: map_Suc_upt [symmetric] rev_map)
    have up0: "rev [0..<Suc (Suc b)] = map Suc (rev [0..<Suc b]) @ [0]" for b
      using up [of 0 b] by (subst upt_conv_Cons) (simp_all del: upt_Suc)
    show ?thesis
    proof (cases mn)
      case 0
      then have "length s - Suc i + 0 < f" using True Suc.prems by arith
      from Suc.IH [OF this] 0 True show ?thesis
        by (simp add: n up0 find_map_append find_map_map clear_def del: upt_Suc split: option.split)
    next
      case (Suc mn')
      then have "length s - Suc i + mn' < f" using True Suc.prems by arith
      from Suc.IH [OF this] Suc True show ?thesis
        by (simp add: n up find_map_map clear_def del: upt_Suc)
    qed
  next
    case False
    then have "?n i = 0" by (cases "i < length s") (auto simp: Cons_nth_drop_Suc [symmetric])
    with False show ?thesis by (cases mn) (auto simp: clear_def split: option.split)
  qed
qed simp

lemma rm_greedy_set:
  "rm (RRep (RSet pos rs) mn None True) ml s k (i, c) =
     find_map (\<lambda>j. k (i + j, c)) (rev [mn..<Suc (length (takeWhile (\<lambda>x. in_ranges rs x = pos) (drop i s)))])"
  unfolding rm.simps(5) groups.simps fst_conv by (rule rep_greedy_set) simp

lemma rm_opt:
  "i < length s \<Longrightarrow> rm (RRep r 0 (Some (Suc 0)) True) ml s k (i, c) =
     (case rm r ml s (\<lambda>st'. if fst st' = i then None else k st') (i, clear (groups r) c) of Some z \<Rightarrow> Some z | None \<Rightarrow> k (i, c))"
proof -
  assume "i < length s"
  then obtain f where "length s - i = Suc f" by (cases "length s - i") auto
  then show ?thesis by (simp add: Let_def cong: if_cong)
qed

text \<open>A literal string as a pattern matches exactly where the string occurs.\<close>

lemma rm_rstr:
  assumes "i \<le> length s \<or> w \<noteq> []"
  shows "rm (rstr w) ml s k (i, c) = (if prefix_at s i (lit w) then k (i + length w, c) else None)"
  using assms
proof (induction w arbitrary: i)
  case Nil
  then show ?case by (simp add: prefix_at_def)
next
  case (Cons x xs)
  have unit: "in_ranges [(n, n)] m \<longleftrightarrow> m = n" for n m :: nat by (auto simp: in_ranges_def)
  have step: "rm (rstr (x # xs)) ml s k (i, c)
    = (if i < length s \<and> s ! i = of_char x then rm (rstr xs) ml s k (Suc i, c) else None)"
    by (cases xs) (auto simp: unit)
  have pre: "prefix_at s i (lit (x # xs)) \<longleftrightarrow> i < length s \<and> s ! i = of_char x \<and> prefix_at s (Suc i) (lit xs)"
    by (cases "i < length s") (auto simp: prefix_at_def Cons_nth_drop_Suc [symmetric])
  show ?case by (simp add: step pre Cons del: rstr.simps lit_Cons)
qed

text \<open>A word between two word boundaries.\<close>

definition word_re :: "string \<Rightarrow> re" where
  "word_re w = RSeq (RWordB True) (RSeq (rstr w) (RWordB True))"

lemma match_at_word_re:
  "w \<noteq> [] \<Longrightarrow> match_at (word_re w) ml s i =
     (if at_boundary s i \<and> prefix_at s i (lit w) \<and> at_boundary s (i + length w)
      then Some (i + length w, no_caps (word_re w)) else None)"
  by (simp add: match_at_def word_re_def rm_rstr del: rstr.simps)

section \<open>Searching\<close>

lemma match_at_bounds:
  assumes "match_at r ml s i = Some (j, c)" and "i \<le> length s"
  shows "i \<le> j \<and> j \<le> length s \<and> length c = length (no_caps r)"
proof -
  have "(j, c) \<in> set (ss r ml s (i, no_caps r))"
    using assms(1) by (auto simp: match_at_def rm_ss split: list.splits)
  from ss_bounds [OF _ this] assms(2) show ?thesis by simp
qed

lemma search_from_bounds:
  "search_from n r ml s i = Some (i', j, c) \<Longrightarrow> i + n \<le> Suc (length s) \<Longrightarrow>
     i \<le> i' \<and> i' \<le> j \<and> j \<le> length s \<and> match_at r ml s i' = Some (j, c)"
proof (induction n arbitrary: i)
  case (Suc n)
  show ?case
  proof (cases "match_at r ml s i")
    case None
    with Suc.prems Suc.IH [of "Suc i"] show ?thesis by simp
  next
    case (Some st)
    with Suc.prems match_at_bounds [of r ml s i j c] show ?thesis by auto
  qed
qed simp

lemma exec_from_bounds:
  assumes "exec_from r ml s i = Some (i', j, c)"
  shows "i \<le> i' \<and> i' \<le> j \<and> j \<le> length s \<and> match_at r ml s i' = Some (j, c)"
proof (cases "i \<le> Suc (length s)")
  case True
  then show ?thesis using assms search_from_bounds [of _ r ml s i] by (simp add: exec_from_def)
next
  case False
  then show ?thesis using assms by (simp add: exec_from_def)
qed

lemma search_from_None:
  "search_from n r ml s i = None \<longleftrightarrow> (\<forall>i' \<in> {i..<i + n}. match_at r ml s i' = None)"
proof (induction n arbitrary: i)
  case (Suc n)
  have "{i..<i + Suc n} = insert i {Suc i..<Suc i + n}" by auto
  with Suc show ?case by (auto split: option.splits)
qed simp

text \<open>\<open>exec\<close> finds the leftmost match: no index before the one it returns matches.\<close>

lemma search_from_leftmost:
  "search_from n r ml s i = Some (i', st) \<Longrightarrow> i \<le> j \<Longrightarrow> j < i' \<Longrightarrow> match_at r ml s j = None"
proof (induction n arbitrary: i)
  case (Suc n)
  show ?case
  proof (cases "match_at r ml s i")
    case None
    with Suc.prems Suc.IH [of "Suc i"] show ?thesis by (cases "j = i") auto
  next
    case (Some st)
    with Suc.prems show ?thesis by auto
  qed
qed simp

lemma search_from_first:
  "match_at r ml s i = Some st \<Longrightarrow> p \<le> i \<Longrightarrow> i < p + n \<Longrightarrow> (\<And>j. p \<le> j \<Longrightarrow> j < i \<Longrightarrow> match_at r ml s j = None) \<Longrightarrow>
     search_from n r ml s p = Some (i, st)"
proof (induction n arbitrary: p)
  case (Suc n)
  show ?case
  proof (cases "p = i")
    case False
    with Suc.prems have "match_at r ml s p = None" by simp
    with Suc False show ?thesis by simp
  qed (use Suc.prems in simp)
qed simp

lemma exec_from_first:
  assumes "match_at r ml s i = Some st" "p \<le> i" "i \<le> length s" "\<And>j. p \<le> j \<Longrightarrow> j < i \<Longrightarrow> match_at r ml s j = None"
  shows "exec_from r ml s p = Some (i, st)"
  unfolding exec_from_def using assms by (intro search_from_first) auto

lemma exec_from_None: "exec_from r ml s p = None \<longleftrightarrow> (\<forall>i. p \<le> i \<and> i \<le> length s \<longrightarrow> match_at r ml s i = None)"
  by (auto simp: exec_from_def search_from_None)

section \<open>Replacing\<close>

text \<open>\<open>s.replace(r, f)\<close> with a pattern that is not global replaces the first match.\<close>

definition replace_first :: "re \<Rightarrow> jsstr \<Rightarrow> (jsstr \<Rightarrow> caps \<Rightarrow> jsstr) \<Rightarrow> jsstr" where
  "replace_first r s f =
     (case exec_from r False s 0 of
        None \<Rightarrow> s
      | Some (i, j, c) \<Rightarrow> take i s @ f (take (j - i) (drop i s)) c @ drop j s)"

text \<open>With the global flag every match is replaced; after an empty match the search moves on by
  one code unit, which is copied.\<close>

function replace_from :: "re \<Rightarrow> bool \<Rightarrow> jsstr \<Rightarrow> (jsstr \<Rightarrow> caps \<Rightarrow> jsstr) \<Rightarrow> nat \<Rightarrow> jsstr" where
  "replace_from r ml s f p =
     (case exec_from r ml s p of
        None \<Rightarrow> drop p s
      | Some (i, j, c) \<Rightarrow>
          take (i - p) (drop p s) @ f (take (j - i) (drop i s)) c @
          (if j = i then take 1 (drop j s) @ replace_from r ml s f (Suc j)
           else replace_from r ml s f j))"
  by pat_completeness auto
termination
  by (relation "measure (\<lambda>(r, ml, s, f, p). Suc (length s) - p)")
     (auto dest!: exec_from_bounds)

declare replace_from.simps [simp del]

definition replace_all :: "re \<Rightarrow> bool \<Rightarrow> jsstr \<Rightarrow> (jsstr \<Rightarrow> caps \<Rightarrow> jsstr) \<Rightarrow> jsstr" where
  "replace_all r ml s f = replace_from r ml s f 0"

text \<open>At the place of a search there is a match, or the code unit is copied.\<close>

lemma exec_from_here: "match_at r ml s p = Some st \<Longrightarrow> p \<le> length s \<Longrightarrow> exec_from r ml s p = Some (p, st)"
  by (rule exec_from_first) auto

lemma replace_from_match:
  assumes "match_at r ml s p = Some (j, c)" "p < j" "j \<le> length s"
  shows "replace_from r ml s f p = f (take (j - p) (drop p s)) c @ replace_from r ml s f j"
  using exec_from_here [OF assms(1)] assms(2,3) by (subst replace_from.simps) simp

lemma replace_from_skip:
  assumes "match_at r ml s p = None" "p < length s"
  shows "replace_from r ml s f p = s ! p # replace_from r ml s f (Suc p)"
proof -
  have e: "exec_from r ml s p = exec_from r ml s (Suc p)" using assms by (simp add: exec_from_def Suc_diff_le)
  show ?thesis
  proof (cases "exec_from r ml s (Suc p)")
    case None
    with e assms(2) show ?thesis by (simp add: replace_from.simps [of _ ml s f p] replace_from.simps [of _ ml s f "Suc p"] Cons_nth_drop_Suc)
  next
    case (Some t)
    obtain i j c where t: "t = (i, j, c)" by (cases t)
    from exec_from_bounds [OF Some [unfolded t]] have "Suc p \<le> i" by simp
    then have "take (i - p) (drop p s) = s ! p # take (i - Suc p) (drop (Suc p) s)"
      using assms(2) by (simp add: take_Cons' Cons_nth_drop_Suc [symmetric])
    with Some t e show ?thesis by (simp add: replace_from.simps [of _ ml s f p] replace_from.simps [of _ ml s f "Suc p"])
  qed
qed

text \<open>Replacing every match of a single-unit class is a map over the code units.\<close>

lemma match_at_RSet:
  "match_at (RSet pos rs) ml s i =
     (if i < length s \<and> in_ranges rs (s ! i) = pos then Some (Suc i, [None]) else None)"
  by (simp add: match_at_def no_caps_def)

lemma exec_from_RSet_step:
  "p < length s \<Longrightarrow> exec_from (RSet pos rs) ml s p =
     (if in_ranges rs (s ! p) = pos then Some (p, Suc p, [None]) else exec_from (RSet pos rs) ml s (Suc p))"
  by (simp add: exec_from_def Suc_diff_le match_at_RSet)

lemma exec_from_RSet_end: "length s \<le> p \<Longrightarrow> exec_from (RSet pos rs) ml s p = None"
  by (cases "p = length s") (simp_all add: exec_from_def match_at_RSet)

lemma replace_from_RSet_skip:
  "p < length s \<Longrightarrow> in_ranges rs (s ! p) \<noteq> pos \<Longrightarrow> replace_from (RSet pos rs) ml s f p = s ! p # replace_from (RSet pos rs) ml s f (Suc p)"
  by (rule replace_from_skip) (simp_all add: match_at_RSet)

lemma replace_from_RSet:
  "replace_from (RSet pos rs) ml s f p =
     concat (map (\<lambda>c. if in_ranges rs c = pos then f [c] [None] else [c]) (drop p s))"
proof (induction "length s - p" arbitrary: p)
  case 0
  then show ?case by (simp add: replace_from.simps [of _ ml s f p] exec_from_RSet_end)
next
  case (Suc n)
  then have p: "p < length s" and n: "n = length s - Suc p" by auto
  from p have drop: "drop p s = s ! p # drop (Suc p) s" by (rule Cons_nth_drop_Suc [symmetric])
  show ?case
  proof (cases "in_ranges rs (s ! p) = pos")
    case True
    with p Suc.hyps(1) [OF n] show ?thesis
      by (simp add: replace_from.simps [of _ ml s f p] exec_from_RSet_step drop)
  next
    case False
    with p Suc.hyps(1) [OF n] show ?thesis by (simp add: replace_from_RSet_skip drop)
  qed
qed

lemma replace_all_RSet:
  "replace_all (RSet pos rs) ml s f =
     concat (map (\<lambda>c. if in_ranges rs c = pos then f [c] [None] else [c]) s)"
  by (simp add: replace_all_def replace_from_RSet)

section \<open>Splitting and all matches\<close>

text \<open>The algorithm of the language (ES5 15.5.4.14): \<open>p\<close> is the end of the last match and \<open>q\<close> the place where
  the separator is tried next.\<close>

function split_spec :: "re \<Rightarrow> bool \<Rightarrow> jsstr \<Rightarrow> nat \<Rightarrow> nat \<Rightarrow> jsstr option list" where
  "split_spec r ml s p q =
     (if length s \<le> q then [Some (drop p s)]
      else case match_at r ml s q of
             None \<Rightarrow> split_spec r ml s p (Suc q)
           | Some (e, c) \<Rightarrow>
               if e \<le> p then split_spec r ml s p (Suc q)
               else Some (take (q - p) (drop p s)) # tl c @ split_spec r ml s e e)"
  by pat_completeness auto
termination
  by (relation "measure (\<lambda>(r, ml, s, p, q). (length s - p) + (length s - q))") (auto dest!: match_at_bounds)

declare split_spec.simps [simp del]

definition split_standard :: "re \<Rightarrow> bool \<Rightarrow> jsstr \<Rightarrow> jsstr option list" where
  "split_standard r ml s =
     (if s = [] then if match_at r ml [] 0 = None then [Some []] else [] else split_spec r ml s 0 0)"

text \<open>\<open>s.match(r)\<close> with a global pattern (ES5 15.5.4.10): the places of all matches, from left to right.\<close>

function matches_from :: "re \<Rightarrow> bool \<Rightarrow> jsstr \<Rightarrow> nat \<Rightarrow> (nat \<times> nat) list" where
  "matches_from r ml s p =
     (case exec_from r ml s p of
        None \<Rightarrow> []
      | Some (i, j, c) \<Rightarrow> (i, j) # matches_from r ml s (if j = i then Suc j else j))"
  by pat_completeness auto
termination
  by (relation "measure (\<lambda>(r, ml, s, p). Suc (length s) - p)") (auto dest!: exec_from_bounds)

declare matches_from.simps [simp del]

definition match_all :: "re \<Rightarrow> bool \<Rightarrow> jsstr \<Rightarrow> jsstr list option" where
  "match_all r ml s =
     (case matches_from r ml s 0 of [] \<Rightarrow> None | ps \<Rightarrow> Some (map (\<lambda>(i, j). take (j - i) (drop i s)) ps))"

end
