(* ===== verification/SortTable_Compare.thy ===== *)
theory SortTable_Compare
  imports SortTable_Shaker JS_Regex
begin

text \<open>
  The comparison functions of sorttable.js and the guess of a column's type.  An entry of the
  array that is sorted is a pair of the cell's text and its row; a comparison function looks at
  the text only.  Each function is shown to meet the contract \<open>consistent_cmp\<close>
  on the keys for which it does not throw, and the date functions are shown to order dates
  chronologically.
\<close>

section \<open>Comparison functions\<close>

text \<open>\<open>parseFloat\<close> on a string of digits, full stops and minus signs (all that is left after
  the pattern \<open>[^0-9.-]\<close> is deleted): the longest prefix that is a decimal literal.\<close>

definition parse_float :: "jsstr \<Rightarrow> jsnum" where
  "parse_float s =
     (let neg = (case s of c # _ \<Rightarrow> c = 45 | [] \<Rightarrow> False);
          r = (if neg then tl s else s);
          ip = takeWhile is_digit r;
          r1 = dropWhile is_digit r;
          fp = (case r1 of c # r2 \<Rightarrow> if c = 46 then takeWhile is_digit r2 else [] | [] \<Rightarrow> [])
      in if ip = [] \<and> fp = [] then NaN
         else let v = of_nat (undec (ip @ fp)) / 10 ^ length fp in fl (if neg then - v else v))"

definition num_key :: "jsstr \<Rightarrow> jsnum" where
  "num_key s =
     (let x = parse_float (replace_all (RSet False [(48, 57), (46, 46), (45, 45)]) False s (\<lambda>_ _. []))
      in if x = NaN then Fin 0 else x)"

definition sort_numeric :: "jsstr \<times> 'r \<Rightarrow> jsstr \<times> 'r \<Rightarrow> jsnum res" where
  "sort_numeric a b = Inr (num_sub (num_key (fst a)) (num_key (fst b)))"

text \<open>\<open>if (x==y) return 0; if (x<y) return -1; return 1\<close> on strings.\<close>

definition compare_str :: "jsstr \<Rightarrow> jsstr \<Rightarrow> jsnum" where
  "compare_str x y = (if x = y then Fin 0 else if str_less x y then Fin (-1) else Fin 1)"

definition sort_alpha :: "jsstr \<times> 'r \<Rightarrow> jsstr \<times> 'r \<Rightarrow> jsnum res" where
  "sort_alpha a b = Inr (compare_str (fst a) (fst b))"

definition DATE_RE :: re where
  "DATE_RE = rseq [RBol, RGroup 1 (rseq [rdigit, ropt rdigit]), RSet True [(47, 47), (46, 46), (45, 45)],
     RGroup 2 (rseq [rdigit, ropt rdigit]), RSet True [(47, 47), (46, 46), (45, 45)],
     RGroup 3 (rseq [ropt (RGroup 4 (rseq [rdigit, rdigit])), rdigit, rdigit]), REol]"

text \<open>The three captures of a date key; \<open>mtch[3]\<close> on a failed match throws.\<close>

definition date_fields :: "jsstr \<Rightarrow> (jsstr \<times> jsstr \<times> jsstr) res" where
  "date_fields s =
     (case exec DATE_RE s of
        None \<Rightarrow> Inl TypeError
      | Some (_, _, c) \<Rightarrow> Inr (the (cap_at c 1), the (cap_at c 2), the (cap_at c 3)))"

definition two_digits :: "jsstr \<Rightarrow> jsstr" where
  "two_digits s = (if length s = 1 then 48 # s else s)"

definition sort_ddmm :: "jsstr \<times> 'r \<Rightarrow> jsstr \<times> 'r \<Rightarrow> jsnum res" where
  "sort_ddmm a b =
     bindR (date_fields (fst a)) (\<lambda>(d, m, y).
       let dt1 = y @ two_digits m @ two_digits d
       in bindR (date_fields (fst b)) (\<lambda>(d, m, y).
            let dt2 = y @ two_digits m @ two_digits d in Inr (compare_str dt1 dt2)))"

definition sort_mmdd :: "jsstr \<times> 'r \<Rightarrow> jsstr \<times> 'r \<Rightarrow> jsnum res" where
  "sort_mmdd a b =
     bindR (date_fields (fst a)) (\<lambda>(m, d, y).
       let dt1 = y @ two_digits m @ two_digits d
       in bindR (date_fields (fst b)) (\<lambda>(m, d, y).
            let dt2 = y @ two_digits m @ two_digits d in Inr (compare_str dt1 dt2)))"

section \<open>The type of a column\<close>

datatype sortfn = SortNumeric | SortAlpha | SortDdmm | SortMmdd

fun call_sortfn :: "sortfn \<Rightarrow> jsstr \<times> 'r \<Rightarrow> jsstr \<times> 'r \<Rightarrow> jsnum res" where
  "call_sortfn SortNumeric = sort_numeric"
| "call_sortfn SortAlpha = sort_alpha"
| "call_sortfn SortDdmm = sort_ddmm"
| "call_sortfn SortMmdd = sort_mmdd"

definition numeric_re :: re where
  "numeric_re = rseq [RBol, ropt (rchr CHR ''-''), ropt (RSet True [(163, 163), (36, 36), (164, 164)]),
     rplus (RSet True [(48, 57), (44, 44), (46, 46)]), ropt (rchr CHR ''%''), REol]"

text \<open>The loop of \<open>guessType\<close> over the texts of the column's cells, with the guess so far.  Each
  text is the outcome of a call of \<open>getInnerText\<close>, which is made only when the loop gets there.\<close>

fun guess_loop :: "sortfn \<Rightarrow> jsstr res list \<Rightarrow> sortfn res" where
  "guess_loop sf [] = Inr sf"
| "guess_loop sf (t # ts) =
     bindR t (\<lambda>text.
       if text \<noteq> [] then
         if re_test numeric_re text then Inr SortNumeric
         else case date_fields text of
             Inr (f, s, _) \<Rightarrow>
               if undec f > 12 then Inr SortDdmm
               else if undec s > 12 then Inr SortMmdd
               else guess_loop SortDdmm ts
           | Inl _ \<Rightarrow> guess_loop sf ts
       else guess_loop sf ts)"

definition guessType :: "jsstr res list \<Rightarrow> sortfn res" where
  "guessType texts = guess_loop SortAlpha texts"

lemma guess_loop_total: "list_all (\<lambda>t. \<not> isl t) ts \<Longrightarrow> \<exists>f. guess_loop sf ts = Inr f"
  by (induction sf ts rule: guess_loop.induct) (auto simp: bindR_def split: sum.splits)

section \<open>Date keys\<close>

definition is_sep :: "cu \<Rightarrow> bool" where
  "is_sep c \<longleftrightarrow> c = 47 \<or> c = 46 \<or> c = 45"

lemma in_sep_ranges [regex_simps]: "in_ranges [(47, 47), (46, 46), (45, 45)] c = is_sep c"
  by (auto simp: in_ranges_def is_sep_def)

lemma sep_not_digit [regex_simps]: "is_sep c \<Longrightarrow> \<not> is_digit c" "is_digit c \<Longrightarrow> \<not> is_sep c"
  by (auto simp: is_sep_def is_digit_def)

lemma no_caps_DATE_RE [regex_simps]: "no_caps DATE_RE = [None, None, None, None, None]"
  by code_simp

lemma length_12E:
  assumes "length xs = 1 \<or> length xs = 2"
  obtains a where "xs = [a]" | a b where "xs = [a, b]"
  using assms by (auto simp: length_Suc_conv numeral_2_eq_2)

lemma length_24E:
  assumes "length xs = 2 \<or> length xs = 4"
  obtains a b where "xs = [a, b]" | a b c d where "xs = [a, b, c, d]"
  using assms by (auto simp: length_Suc_conv numeral_eq_Suc)

definition date_text :: "jsstr \<Rightarrow> cu \<Rightarrow> jsstr \<Rightarrow> cu \<Rightarrow> jsstr \<Rightarrow> bool" where
  "date_text d s1 m s2 y \<longleftrightarrow> list_all is_digit d \<and> list_all is_digit m \<and> list_all is_digit y
     \<and> is_sep s1 \<and> is_sep s2 \<and> (length d = 1 \<or> length d = 2) \<and> (length m = 1 \<or> length m = 2)
     \<and> (length y = 2 \<or> length y = 4)"

lemma date_fields_text:
  assumes "date_text d s1 m s2 y"
  shows "date_fields (d @ [s1] @ m @ [s2] @ y) = Inr (d, m, y)"
proof -
  have "match_at DATE_RE False (d @ [s1] @ m @ [s2] @ y) 0
    = Some (length (d @ [s1] @ m @ [s2] @ y),
        [None, Some d, Some m, Some y, if length y = 4 then Some (take 2 y) else None])"
  proof -
    from assms have d: "length d = 1 \<or> length d = 2" and m: "length m = 1 \<or> length m = 2"
      and y: "length y = 2 \<or> length y = 4" by (auto simp: date_text_def)
    show ?thesis
      unfolding match_at_def no_caps_DATE_RE
      by (rule length_12E [OF d]; rule length_12E [OF m]; rule length_24E [OF y])
         (use assms in \<open>simp_all add: date_text_def DATE_RE_def regex_simps Let_def\<close>)
  qed
  from prefix_search [OF this] show ?thesis
    by (simp add: date_fields_def exec_def cap_at_def)
qed

text \<open>Comparing digit strings of one length as strings compares the numbers they spell.\<close>

lemma str_less_undec:
  assumes "length a = length b" and "list_all is_digit a" and "list_all is_digit b"
  shows "str_less a b \<longleftrightarrow> undec a < undec b"
  using assms
proof (induction a b rule: list_induct2)
  case (Cons x xs y ys)
  have pre: "undec (z # zs) = (z - 48) * 10 ^ length zs + undec zs" for z zs
    using undec_append [of "[z]" zs] by (simp add: undec_def [of "[_]"])
  have bound: "undec xs < 10 ^ length xs" "undec ys < 10 ^ length xs"
    using undec_bound [of xs] undec_bound [of ys] Cons.prems Cons.hyps by (auto simp: list_all_iff)
  have le: "(x - 48 + 1) * 10 ^ length xs \<le> (y - 48) * 10 ^ length xs" if "x < y"
    by (rule mult_right_mono) (use that Cons.prems in \<open>auto simp: is_digit_def\<close>)
  have ge: "(y - 48 + 1) * 10 ^ length xs \<le> (x - 48) * 10 ^ length xs" if "y < x"
    by (rule mult_right_mono) (use that Cons.prems in \<open>auto simp: is_digit_def\<close>)
  consider "x = y" | "x < y" | "y < x" by linarith
  then show ?case
    by cases (use Cons bound le ge in \<open>auto simp: pre\<close>)
qed simp

lemma undec_inj:
  assumes "length a = length b" and "list_all is_digit a" and "list_all is_digit b"
  shows "undec a = undec b \<longleftrightarrow> a = b"
  using str_less_undec [OF assms] str_less_undec [of b a] assms str_less_linear [of a b] by force

lemma compare_str_undec:
  assumes "length a = length b" and "list_all is_digit a" and "list_all is_digit b"
  shows "sgn_num (compare_str a b) = sgn (int (undec a) - int (undec b))"
  using str_less_undec [OF assms] undec_inj [OF assms] by (auto simp: compare_str_def sgn_num_def)

lemma two_digits_props:
  assumes "length s = 1 \<or> length s = 2"
  shows "undec (two_digits s) = undec s" and "length (two_digits s) = 2"
    and "list_all is_digit s \<Longrightarrow> list_all is_digit (two_digits s)"
  using assms by (auto simp: two_digits_def undec_def is_digit_def)

lemma undec_packed:
  assumes "length m = 1 \<or> length m = 2" and "length d = 1 \<or> length d = 2"
  shows "undec (y @ two_digits m @ two_digits d) = undec y * 10000 + undec m * 100 + undec d"
  using two_digits_props [OF assms(1)] two_digits_props [OF assms(2)]
  by (simp add: undec_append algebra_simps)

text \<open>\<open>earlier\<close> orders calendar dates by year, month and day.\<close>

definition earlier :: "nat \<times> nat \<times> nat \<Rightarrow> nat \<times> nat \<times> nat \<Rightarrow> bool" where
  "earlier a b = (case (a, b) of ((d, m, y), (d', m', y')) \<Rightarrow>
     y < y' \<or> y = y' \<and> (m < m' \<or> m = m' \<and> d < d'))"

lemma packed_less:
  fixes y m d y' m' d' :: nat
  assumes "m < 100" "d < 100" "m' < 100" "d' < 100"
  shows "y * 10000 + m * 100 + d < y' * 10000 + m' * 100 + d' \<longleftrightarrow> earlier (d, m, y) (d', m', y')"
  using assms by (auto simp: earlier_def)

lemma undec_short: "length s = 1 \<or> length s = 2 \<Longrightarrow> list_all is_digit s \<Longrightarrow> undec s < 100"
  using undec_bound [of s] by (auto simp: list_all_iff)

lemma packed_compare:
  assumes "date_text d s1 m s2 y" and "date_text d' s1' m' s2' y'" and "length y = length y'"
  shows "sgn_num (compare_str (y @ two_digits m @ two_digits d) (y' @ two_digits m' @ two_digits d')) < 0
      \<longleftrightarrow> earlier (undec d, undec m, undec y) (undec d', undec m', undec y')"
    and "sgn_num (compare_str (y @ two_digits m @ two_digits d) (y' @ two_digits m' @ two_digits d')) > 0
      \<longleftrightarrow> earlier (undec d', undec m', undec y') (undec d, undec m, undec y)"
proof -
  let ?a = "y @ two_digits m @ two_digits d" and ?b = "y' @ two_digits m' @ two_digits d'"
  note t = assms(1,2) [unfolded date_text_def]
  from t have len: "length ?a = length ?b" and dig: "list_all is_digit ?a" "list_all is_digit ?b"
    using assms(3) two_digits_props by auto
  from t have v: "undec ?a = undec y * 10000 + undec m * 100 + undec d"
    "undec ?b = undec y' * 10000 + undec m' * 100 + undec d'"
    by (simp_all only: undec_packed)
  from t have s: "undec m < 100" "undec d < 100" "undec m' < 100" "undec d' < 100"
    using undec_short by blast+
  note c = compare_str_undec [OF len dig, unfolded v] packed_less [OF s] packed_less [OF s(3,4,1,2)]
  show "sgn_num (compare_str ?a ?b) < 0 \<longleftrightarrow> earlier (undec d, undec m, undec y) (undec d', undec m', undec y')"
    and "sgn_num (compare_str ?a ?b) > 0 \<longleftrightarrow> earlier (undec d', undec m', undec y') (undec d, undec m, undec y)"
    unfolding c(1) c(2) [symmetric] c(3) [symmetric] by (simp_all add: sgn_if del: of_nat_add)
qed

section \<open>Every comparison function is consistent\<close>

fun num_le :: "jsnum \<Rightarrow> jsnum \<Rightarrow> bool" where
  "num_le (Fin a) (Fin b) = (a \<le> b)"
| "num_le (Infinite n) y = (n \<or> y = Infinite False)"
| "num_le (Fin a) (Infinite n) = (\<not> n)"
| "num_le _ _ = False"

text \<open>A finite result of rounding is a multiple of the smallest subnormal.\<close>

lemma fl_multiple:
  assumes "fl x = Fin q"
  shows "\<exists>m. q = of_int m * 2 powi (-1074)"
proof (cases "x = 0")
  case True
  with assms have "q = of_int 0 * 2 powi (-1074)" by (simp add: fl_def)
  then show ?thesis by blast
next
  case False
  let ?e = "ulp_exp x"
  from False assms have q: "q = of_int (round_even (x / 2 powi ?e)) * 2 powi ?e"
    by (auto simp: fl_def Let_def split: if_splits)
  have "(2::rat) powi ?e = 2 powi (?e + 1074) * 2 powi (-1074)"
    using power_int_add [of "2::rat" "?e + 1074" "-1074"] by (simp only: add.assoc) simp
  also have "(2::rat) powi (?e + 1074) = of_int (2 ^ nat (?e + 1074))"
    by (simp add: ulp_exp_def power_int_def)
  finally have "q = of_int (round_even (x / 2 powi ?e) * 2 ^ nat (?e + 1074)) * 2 powi (-1074)"
    unfolding q by simp
  then show ?thesis by blast
qed

lemma sgn_num_sub:
  assumes "x = Fin (of_int i * 2 powi (-1074)) \<or> x = Infinite n"
    and "y = Fin (of_int j * 2 powi (-1074)) \<or> y = Infinite n'"
  shows "sgn_num (num_sub x y) > 0 \<longleftrightarrow> \<not> num_le x y" and "sgn_num (num_sub x y) < 0 \<longleftrightarrow> \<not> num_le y x"
proof -
  let ?u = "(2::rat) powi (-1074)"
  have u: "0 < ?u" by (rule zero_less_power_int) simp
  have fin: "sgn_num (fl (of_int i * ?u - of_int j * ?u)) = sgn (i - j)"
  proof -
    have d: "of_int i * ?u - of_int j * ?u = of_int (i - j) * ?u" by (simp add: left_diff_distrib)
    have "i - j = 0 \<or> 1 \<le> \<bar>i - j\<bar>" by linarith
    then have "of_int (i - j) * ?u = 0 \<or> ?u \<le> \<bar>of_int (i - j) * ?u\<bar>"
      using u by (auto simp: abs_mult simp del: of_int_diff)
    from sgn_fl [OF this] u show ?thesis
      unfolding d by (auto simp: sgn_if mult_less_0_iff simp del: of_int_diff)
  qed
  show "sgn_num (num_sub x y) > 0 \<longleftrightarrow> \<not> num_le x y" and "sgn_num (num_sub x y) < 0 \<longleftrightarrow> \<not> num_le y x"
    using assms fin u by (auto simp: num_sub_def sgn_num_def sgn_if not_le split: if_splits)
qed

text \<open>The key a date comparison packs out of a text; only its relative order matters.\<close>

definition date_key :: "sortfn \<Rightarrow> jsstr \<Rightarrow> jsstr" where
  "date_key sf s = (case date_fields s of
     Inl _ \<Rightarrow> []
   | Inr (f, g, y) \<Rightarrow> if sf = SortDdmm then y @ two_digits g @ two_digits f
                     else y @ two_digits f @ two_digits g)"

fun key_ok :: "sortfn \<Rightarrow> jsstr \<times> 'r \<Rightarrow> bool" where
  "key_ok SortNumeric a = True"
| "key_ok SortAlpha a = True"
| "key_ok _ a = (\<not> isl (date_fields (fst a)))"

fun key_le :: "sortfn \<Rightarrow> jsstr \<times> 'r \<Rightarrow> jsstr \<times> 'r \<Rightarrow> bool" where
  "key_le SortNumeric a b = num_le (num_key (fst a)) (num_key (fst b))"
| "key_le SortAlpha a b = (\<not> str_less (fst b) (fst a))"
| "key_le sf a b = (\<not> str_less (date_key sf (fst b)) (date_key sf (fst a)))"

lemma num_key_shape:
  "\<exists>i n. num_key s = Fin (of_int i * 2 powi (-1074)) \<or> num_key s = Infinite n"
proof (cases "num_key s")
  case NaN
  then show ?thesis by (simp add: num_key_def Let_def split: if_splits)
next
  case (Fin q)
  show ?thesis
  proof (cases "q = 0")
    case True
    then have "num_key s = Fin (of_int 0 * 2 powi (-1074))" using Fin by simp
    then show ?thesis by blast
  next
    case False
    then obtain x where "fl x = Fin q"
      using Fin by (auto simp: num_key_def parse_float_def Let_def split: if_splits)
    from fl_multiple [OF this] Fin show ?thesis by blast
  qed
qed blast

lemma num_key_not_NaN [simp]: "num_key s \<noteq> NaN"
  by (simp add: num_key_def Let_def)

lemma num_le_total: "x \<noteq> NaN \<Longrightarrow> y \<noteq> NaN \<Longrightarrow> num_le x y \<or> num_le y x"
  by (cases x; cases y) auto

lemma num_le_trans: "num_le x y \<Longrightarrow> num_le y z \<Longrightarrow> num_le x z"
  by (cases x; cases y; cases z) auto

lemma compare_str_sgn:
  "sgn_num (compare_str a b) > 0 \<longleftrightarrow> str_less b a" "sgn_num (compare_str a b) < 0 \<longleftrightarrow> str_less a b"
  using str_less_asym [of a b] str_less_linear [of a b]
  by (auto simp: compare_str_def sgn_num_def)

lemma date_cmp_key:
  assumes "\<not> isl (date_fields (fst a))" and "\<not> isl (date_fields (fst b))"
  shows "sort_ddmm a b = Inr (compare_str (date_key SortDdmm (fst a)) (date_key SortDdmm (fst b)))"
    and "sort_mmdd a b = Inr (compare_str (date_key SortMmdd (fst a)) (date_key SortMmdd (fst b)))"
  using assms
  by (auto simp: sort_ddmm_def sort_mmdd_def date_key_def Let_def split: sum.splits prod.splits)

interpretation column: consistent_cmp "key_ok sf" "call_sortfn sf" "key_le sf" for sf
proof
  fix a b c :: "jsstr \<times> 'r" and n
  show "key_ok sf a \<Longrightarrow> key_ok sf b \<Longrightarrow> \<exists>n. call_sortfn sf a b = Inr n"
    by (cases sf) (simp_all add: sort_numeric_def sort_alpha_def date_cmp_key)
  obtain i p j q where
    ks: "num_key (fst a) = Fin (of_int i * 2 powi (-1074)) \<or> num_key (fst a) = Infinite p"
      "num_key (fst b) = Fin (of_int j * 2 powi (-1074)) \<or> num_key (fst b) = Infinite q"
    using num_key_shape by blast
  show "key_ok sf a \<Longrightarrow> key_ok sf b \<Longrightarrow> call_sortfn sf a b = Inr n \<Longrightarrow> (0 < sgn_num n) = (\<not> key_le sf a b)"
    using sgn_num_sub(1) [OF ks]
    by (cases sf) (auto simp: sort_numeric_def sort_alpha_def date_cmp_key compare_str_sgn)
  show "key_ok sf a \<Longrightarrow> key_ok sf b \<Longrightarrow> call_sortfn sf a b = Inr n \<Longrightarrow> (sgn_num n < 0) = (\<not> key_le sf b a)"
    using sgn_num_sub(2) [OF ks]
    by (cases sf) (auto simp: sort_numeric_def sort_alpha_def date_cmp_key compare_str_sgn)
  show "key_ok sf a \<Longrightarrow> key_ok sf b \<Longrightarrow> key_le sf a b \<or> key_le sf b a"
    using num_le_total str_less_asym by (cases sf) auto
  show "key_ok sf a \<Longrightarrow> key_ok sf b \<Longrightarrow> key_ok sf c \<Longrightarrow> key_le sf a b \<Longrightarrow> key_le sf b c \<Longrightarrow> key_le sf a c"
    using num_le_trans str_less_trans str_less_linear by (cases sf) (simp; metis)+
qed

end
