(* ===== verification/SortTable_Dom.thy ===== *)
theory SortTable_Dom
  imports SortTable_Compare
begin

text \<open>
  The document side of sorttable.js: the text of a cell (\<open>getInnerText\<close>), the preparation of a
  table (\<open>makeSortable\<close>) and the click handler it installs on the header cells, with the reversal
  and the reordering of the rows.  A document is the list of its tables; \<open>appendChild\<close> on a row
  moves it, and the sources' implicit global variable \<open>tfo\<close> is part of the state.
\<close>

section \<open>Nodes and the text of a cell\<close>

datatype node =
    Elem jsstr "jsstr option" "jsstr option" "node list"
  | TextNode jsstr
  | CDataNode jsstr
  | CommentNode jsstr

text \<open>An element has a tag name, the value of its attribute \<open>sorttable_customkey\<close>, the value of a
  form field and its children.  \<open>textContent\<close> is the text of all descendants but the comments.\<close>

fun text_content :: "node \<Rightarrow> jsstr" where
  "text_content (Elem _ _ _ ns) = concat (map text_content ns)"
| "text_content (TextNode s) = s"
| "text_content (CDataNode s) = s"
| "text_content (CommentNode s) = []"

fun has_inputs :: "node \<Rightarrow> bool" where
  "has_inputs (Elem _ _ _ ns) =
     list_ex (\<lambda>n. (case n of Elem tag _ _ _ \<Rightarrow> tag = lit ''input'' | _ \<Rightarrow> False) \<or> has_inputs n) ns"
| "has_inputs _ = False"

definition trim_re :: re where
  "trim_re = RAlt (RSeq RBol (rplus rspace)) (RSeq (rplus rspace) REol)"

definition trim_text :: "jsstr \<Rightarrow> jsstr" where
  "trim_text s = replace_all trim_re False s (\<lambda>_ _. [])"

text \<open>\<open>node.getAttribute\<close> exists on elements only, so the call throws on every other node; the
  branches of the \<open>switch\<close> for node types other than 1 are never reached.\<close>

fun get_inner_text :: "node \<Rightarrow> jsstr res" where
  "get_inner_text (Elem tag ck val ns) =
     (case ck of
        Some s \<Rightarrow> Inr s
      | None \<Rightarrow>
          if \<not> has_inputs (Elem tag ck val ns) then Inr (trim_text (text_content (Elem tag ck val ns)))
          else bindR (mapR get_inner_text ns) (\<lambda>ts. Inr (trim_text (concat ts))))"
| "get_inner_text (TextNode s) = Inl TypeError"
| "get_inner_text (CDataNode s) = Inl TypeError"
| "get_inner_text (CommentNode s) = Inl TypeError"

definition getInnerText :: "node option \<Rightarrow> jsstr res" where
  "getInnerText n = (case n of None \<Rightarrow> Inr [] | Some n \<Rightarrow> get_inner_text n)"

section \<open>Tables\<close>

datatype indicator = FwdInd | RevInd

record cell =
  cclass :: jsstr
  cnode :: node
  csortfn :: "sortfn option"
  cinds :: "indicator list"

record row =
  rid :: nat
  rclass :: jsstr
  rcells :: "cell list"

record table =
  thead :: "row list option"
  tbodies :: "row list list"
  tfoot :: "row list option"

record doc =
  tables :: "table list"
  tfo :: "nat option"

definition opt_rows :: "row list option \<Rightarrow> row list" where
  "opt_rows r = (case r of None \<Rightarrow> [] | Some rs \<Rightarrow> rs)"

text \<open>\<open>table.rows\<close>: the rows of the head, of the bodies and of the foot.\<close>

definition table_rows :: "table \<Rightarrow> row list" where
  "table_rows t = opt_rows (thead t) @ concat (tbodies t) @ opt_rows (tfoot t)"

text \<open>A row that is appended somewhere else leaves the section it was in.\<close>

definition remove_row :: "nat \<Rightarrow> table \<Rightarrow> table" where
  "remove_row i t = t\<lparr>thead := map_option (filter (\<lambda>r. rid r \<noteq> i)) (thead t),
     tbodies := map (filter (\<lambda>r. rid r \<noteq> i)) (tbodies t),
     tfoot := map_option (filter (\<lambda>r. rid r \<noteq> i)) (tfoot t)\<rparr>"

definition append_foot :: "row \<Rightarrow> table \<Rightarrow> table" where
  "append_foot r t = t\<lparr>tfoot := Some (opt_rows (tfoot t) @ [r])\<rparr>"

definition append_row :: "row \<Rightarrow> row list \<Rightarrow> row list" where
  "append_row r rows = filter (\<lambda>x. rid x \<noteq> rid r) rows @ [r]"

section \<open>Preparing a table\<close>

text \<open>A table without a head gets one, holding the table's first row; \<open>appendChild(undefined)\<close>
  throws when there is none.\<close>

definition ensure_head :: "table \<Rightarrow> table res" where
  "ensure_head t =
     (case thead t of
        Some _ \<Rightarrow> Inr t
      | None \<Rightarrow> (case table_rows t of
           [] \<Rightarrow> Inl TypeError
         | r # _ \<Rightarrow> Inr ((remove_row (rid r) t)\<lparr>thead := Some [r]\<rparr>)))"

definition sortbottom_rows :: "table \<Rightarrow> row list" where
  "sortbottom_rows t = filter (\<lambda>r. re_test (word_re ''sortbottom'') (rclass r)) (table_rows t)"

text \<open>The rows go to the element the global variable \<open>tfo\<close> refers to, which this call sets only
  when it creates the foot.\<close>

fun move_to_foot :: "nat \<Rightarrow> row list \<Rightarrow> doc \<Rightarrow> doc res" where
  "move_to_foot i [] d = Inr d"
| "move_to_foot i (r # rs) d =
     (case tfo d of
        None \<Rightarrow> Inl ReferenceError
      | Some j \<Rightarrow>
          move_to_foot i rs
            (let ts = (tables d)[i := remove_row (rid r) (tables d ! i)]
             in d\<lparr>tables := ts[j := append_foot r (ts ! j)]\<rparr>))"

definition sort_bottom :: "nat \<Rightarrow> doc \<Rightarrow> doc res" where
  "sort_bottom i d =
     (let t = tables d ! i;
          rows = sortbottom_rows t;
          d = (if tfoot t = None
               then d\<lparr>tables := (tables d)[i := t\<lparr>tfoot := Some []\<rparr>], tfo := Some i\<rparr> else d)
      in move_to_foot i rows d)"

text \<open>\<open>sorttable["sort_" + override]\<close>: the comparison function named in the class attribute.\<close>

definition override_re :: re where
  "override_re = rseq [RWordB True, rstr ''sorttable_'',
     RGroup 1 (rplus (RSet True [(97, 122), (48, 57)])), RWordB True]"

definition named_sortfn :: "jsstr \<Rightarrow> sortfn option" where
  "named_sortfn s =
     (if s = lit ''numeric'' then Some SortNumeric
      else if s = lit ''alpha'' then Some SortAlpha
      else if s = lit ''ddmm'' then Some SortDdmm
      else if s = lit ''mmdd'' then Some SortMmdd else None)"

definition override_sortfn :: "jsstr \<Rightarrow> sortfn option" where
  "override_sortfn cls =
     (case exec override_re cls of
        None \<Rightarrow> None
      | Some (_, _, c) \<Rightarrow> Option.bind (cap_at c 1) named_sortfn)"

definition nth_opt :: "'a list \<Rightarrow> nat \<Rightarrow> 'a option" where
  "nth_opt xs i = (if i < length xs then Some (xs ! i) else None)"

definition cell_text :: "nat \<Rightarrow> row \<Rightarrow> jsstr res" where
  "cell_text col r = getInnerText (map_option cnode (nth_opt (rcells r) col))"

text \<open>\<open>guessType(table, i)\<close> reads the rows of the first body; without one \<open>tBodies[0].rows\<close> throws.\<close>

definition guess_column :: "table \<Rightarrow> nat \<Rightarrow> sortfn res" where
  "guess_column t col =
     (case tbodies t of
        [] \<Rightarrow> Inl TypeError
      | body # _ \<Rightarrow> guessType (map (cell_text col) body))"

definition setup_cell :: "table \<Rightarrow> nat \<Rightarrow> cell \<Rightarrow> cell res" where
  "setup_cell t i c =
     (if re_test (word_re ''sorttable_nosort'') (cclass c) then Inr c
      else case override_sortfn (cclass c) of
          Some f \<Rightarrow> Inr (c\<lparr>csortfn := Some f\<rparr>)
        | None \<Rightarrow> bindR (guess_column t i) (\<lambda>f. Inr (c\<lparr>csortfn := Some f\<rparr>)))"

definition setup_header :: "table \<Rightarrow> table res" where
  "setup_header t =
     (case thead t of
        Some (r # rs) \<Rightarrow>
          bindR (mapR (\<lambda>(i, c). setup_cell t i c) (enumerate 0 (rcells r))) (\<lambda>cs.
            Inr (t\<lparr>thead := Some (r\<lparr>rcells := cs\<rparr> # rs)\<rparr>))
      | _ \<Rightarrow> Inl TypeError)"

definition makeSortable :: "nat \<Rightarrow> doc \<Rightarrow> doc res" where
  "makeSortable i d =
     bindR (ensure_head (tables d ! i)) (\<lambda>t.
       let d = d\<lparr>tables := (tables d)[i := t]\<rparr>
       in if length (opt_rows (thead t)) \<noteq> 1 then Inr d
          else bindR (sort_bottom i d) (\<lambda>d.
            bindR (setup_header (tables d ! i)) (\<lambda>t.
              Inr (d\<lparr>tables := (tables d)[i := t]\<rparr>))))"

text \<open>\<open>init\<close> prepares every table whose class attribute holds the word \<open>sortable\<close>; the guard that
  makes a second call return at once is the flag \<open>done\<close>.\<close>

fun init_tables :: "(nat \<times> jsstr) list \<Rightarrow> doc \<Rightarrow> doc res" where
  "init_tables [] d = Inr d"
| "init_tables ((i, cls) # ts) d =
     bindR (if re_test (word_re ''sortable'') cls then makeSortable i d else Inr d) (init_tables ts)"

definition init :: "bool \<Rightarrow> jsstr list \<Rightarrow> doc \<Rightarrow> (bool \<times> doc) res" where
  "init dn classes d =
     (if dn then Inr (True, d)
      else bindR (init_tables (enumerate 0 classes) d) (\<lambda>d. Inr (True, d)))"

section \<open>The click handler\<close>

text \<open>A header cell is addressed by its table and its column.\<close>

definition head_cells :: "table \<Rightarrow> cell list" where
  "head_cells t = (case opt_rows (thead t) of [] \<Rightarrow> [] | r # _ \<Rightarrow> rcells r)"

definition set_head_cells :: "cell list \<Rightarrow> table \<Rightarrow> table" where
  "set_head_cells cs t = t\<lparr>thead := map_option (\<lambda>rs. case rs of [] \<Rightarrow> [] | r # rs \<Rightarrow> r\<lparr>rcells := cs\<rparr> # rs) (thead t)\<rparr>"

text \<open>\<open>document.getElementById\<close> returns the first indicator of its kind in document order.\<close>

definition find_ind :: "indicator \<Rightarrow> doc \<Rightarrow> (nat \<times> nat) option" where
  "find_ind k d =
     List.find (\<lambda>(i, c). k \<in> set (cinds (head_cells (tables d ! i) ! c)))
       (concat (map (\<lambda>i. map (Pair i) [0..<length (head_cells (tables d ! i))]) [0..<length (tables d)]))"

definition upd_cell :: "nat \<times> nat \<Rightarrow> (cell \<Rightarrow> cell) \<Rightarrow> doc \<Rightarrow> doc" where
  "upd_cell p f d = (case p of (i, c) \<Rightarrow>
     let t = tables d ! i; cs = head_cells t
     in d\<lparr>tables := (tables d)[i := set_head_cells (cs[c := f (cs ! c)]) t]\<rparr>)"

definition drop_ind :: "indicator \<Rightarrow> cell \<Rightarrow> cell" where
  "drop_ind k c = c\<lparr>cinds := remove1 k (cinds c)\<rparr>"

definition add_ind :: "indicator \<Rightarrow> cell \<Rightarrow> cell" where
  "add_ind k c = c\<lparr>cinds := cinds c @ [k]\<rparr>"

text \<open>\<open>this.removeChild(document.getElementById(id))\<close>: a missing element is a type error, an
  element that is not a child of this cell is not found.\<close>

definition remove_own_ind :: "indicator \<Rightarrow> nat \<times> nat \<Rightarrow> doc \<Rightarrow> doc res" where
  "remove_own_ind k p d =
     (case find_ind k d of
        None \<Rightarrow> Inl TypeError
      | Some q \<Rightarrow> if q = p then Inr (upd_cell p (drop_ind k) d) else Inl NotFoundError)"

text \<open>\<open>if (ind) { ind.parentNode.removeChild(ind); }\<close>\<close>

definition remove_any_ind :: "indicator \<Rightarrow> doc \<Rightarrow> doc" where
  "remove_any_ind k d = (case find_ind k d of None \<Rightarrow> d | Some q \<Rightarrow> upd_cell q (drop_ind k) d)"

definition first_body :: "table \<Rightarrow> row list option" where
  "first_body t = (case tbodies t of [] \<Rightarrow> None | b # _ \<Rightarrow> Some b)"

definition set_first_body :: "row list \<Rightarrow> table \<Rightarrow> table" where
  "set_first_body b t = t\<lparr>tbodies := (case tbodies t of [] \<Rightarrow> [] | _ # bs \<Rightarrow> b # bs)\<rparr>"

text \<open>\<open>sorttable.reverse\<close>: the rows are appended from the last to the first.\<close>

definition reverse :: "row list \<Rightarrow> row list" where
  "reverse rows = fold append_row (rev rows) rows"

definition upd_body :: "nat \<Rightarrow> (row list \<Rightarrow> row list) \<Rightarrow> doc \<Rightarrow> doc res" where
  "upd_body i f d =
     (case first_body (tables d ! i) of
        None \<Rightarrow> Inl TypeError
      | Some b \<Rightarrow> Inr (d\<lparr>tables := (tables d)[i := set_first_body (f b) (tables d ! i)]\<rparr>))"

definition sorted_cls :: string where "sorted_cls = ''sorttable_sorted''"
definition reverse_cls :: string where "reverse_cls = ''sorttable_sorted_reverse''"

definition set_class :: "(jsstr \<Rightarrow> jsstr) \<Rightarrow> cell \<Rightarrow> cell" where
  "set_class f c = c\<lparr>cclass := f (cclass c)\<rparr>"

definition clear_classes :: "cell \<Rightarrow> cell" where
  "clear_classes c = set_class (\<lambda>s. replace_str s (lit sorted_cls) []) (set_class (\<lambda>s. replace_str s (lit reverse_cls) []) c)"

text \<open>The decorated rows of the first body, in order.\<close>

definition row_array :: "nat \<Rightarrow> row list \<Rightarrow> (jsstr \<times> row) list res" where
  "row_array col rows = mapR (\<lambda>r. bindR (cell_text col r) (\<lambda>s. Inr (s, r))) rows"

text \<open>The comparison the native \<open>sort\<close> is called with, and that sort itself, are arguments:
  \<open>row_array.sort(f)\<close> is \<open>nsort row_array f\<close>.\<close>

type_synonym native_sort =
  "(jsstr \<times> row) list \<Rightarrow> ((jsstr \<times> row) \<Rightarrow> (jsstr \<times> row) \<Rightarrow> jsnum res) \<Rightarrow> (jsstr \<times> row) list res"

definition sort_body :: "native_sort \<Rightarrow> sortfn \<Rightarrow> nat \<Rightarrow> row list \<Rightarrow> row list res" where
  "sort_body nsort f col rows =
     bindR (row_array col rows) (\<lambda>arr.
       bindR (nsort arr (call_sortfn f)) (\<lambda>arr. Inr (fold append_row (map snd arr) rows)))"

definition mark_sorted :: "nat \<times> nat \<Rightarrow> doc \<Rightarrow> doc" where
  "mark_sorted p d =
     (let i = fst p;
          d = d\<lparr>tables := (tables d)[i := set_head_cells (map clear_classes (head_cells (tables d ! i))) (tables d ! i)]\<rparr>;
          d = remove_any_ind FwdInd d;
          d = remove_any_ind RevInd d;
          d = upd_cell p (set_class (\<lambda>s. s @ lit (CHR '' '' # sorted_cls))) d
      in upd_cell p (add_ind FwdInd) d)"

text \<open>The handler returns the document it leaves behind together with the exception it threw, if
  any: what was done before a throw stays done.\<close>

type_synonym outcome = "doc \<times> exn option"

definition attempt :: "doc \<Rightarrow> doc res \<Rightarrow> (doc \<Rightarrow> outcome) \<Rightarrow> outcome" where
  "attempt d m k = (case m of Inl e \<Rightarrow> (d, Some e) | Inr d' \<Rightarrow> k d')"

definition innerSortFunction :: "native_sort \<Rightarrow> nat \<times> nat \<Rightarrow> doc \<Rightarrow> outcome" where
  "innerSortFunction nsort p d =
     (let i = fst p; c = head_cells (tables d ! i) ! snd p
      in if re_test (word_re sorted_cls) (cclass c) then
           attempt d (upd_body i reverse d) (\<lambda>d.
             let d = upd_cell p (set_class (\<lambda>s. replace_str s (lit sorted_cls) (lit reverse_cls))) d
             in attempt d (remove_own_ind FwdInd p d) (\<lambda>d. (upd_cell p (add_ind RevInd) d, None)))
         else if re_test (word_re reverse_cls) (cclass c) then
           attempt d (upd_body i reverse d) (\<lambda>d.
             let d = upd_cell p (set_class (\<lambda>s. replace_str s (lit reverse_cls) (lit sorted_cls))) d
             in attempt d (remove_own_ind RevInd p d) (\<lambda>d. (upd_cell p (add_ind FwdInd) d, None)))
         else
           let d = mark_sorted p d
           in case (first_body (tables d ! i), csortfn c) of
                (Some body, Some f) \<Rightarrow>
                  (case sort_body nsort f (snd p) body of
                     Inl e \<Rightarrow> (d, Some e)
                   | Inr body' \<Rightarrow> (d\<lparr>tables := (tables d)[i := set_first_body body' (tables d ! i)]\<rparr>, None))
              | _ \<Rightarrow> (d, Some TypeError))"

text \<open>The handler is installed on the cells that got a comparison function.\<close>

definition click :: "native_sort \<Rightarrow> nat \<times> nat \<Rightarrow> doc \<Rightarrow> outcome" where
  "click nsort p d =
     (if csortfn (head_cells (tables d ! fst p) ! snd p) = None then (d, None)
      else innerSortFunction nsort p d)"

end
