(* ===== verification/SortTable_Click.thy ===== *)
theory SortTable_Click
  imports SortTable_Dom
begin

text \<open>
  What the user of a sortable table sees.  On a page with one sortable table the handler never
  throws, keeps the class attributes and the indicators of the header consistent, sorts the body
  by the clicked column and flips the order on the next click; the header row refines the
  abstract machine \<open>toggle\<close>.  The contract of the native sort is the locale
  \<open>sort_routine\<close>, interpreted by \<open>shaker_sort\<close>.  A table that already has a foot breaks the
  treatment of \<open>sortbottom\<close> rows; pages with several tables are the subject of \<open>SortTable_Pages\<close>.
\<close>


section \<open>Rows\<close>

lemma fold_append_row:
  "distinct (map rid ys) \<Longrightarrow>
     fold append_row ys rows = filter (\<lambda>r. rid r \<notin> rid ` set ys) rows @ ys"
proof (induction ys arbitrary: rows)
  case (Cons y ys)
  then have "rid y \<notin> rid ` set ys" by auto
  then have "[r\<leftarrow>filter (\<lambda>x. rid x \<noteq> rid y) rows @ [y]. rid r \<notin> rid ` set ys]
      = [r\<leftarrow>rows. rid r \<notin> rid ` set (y # ys)] @ [y]"
    by (auto intro: filter_cong)
  with Cons show ?case by (simp add: append_row_def)
qed simp

lemma fold_append_perm:
  assumes "distinct (map rid rows)" and "mset ys = mset rows"
  shows "fold append_row ys rows = ys"
proof -
  have "mset (map rid ys) = mset (map rid rows)" using assms(2) by simp
  then have "distinct (map rid ys)" using assms(1) mset_eq_imp_distinct_iff by blast
  moreover have "set ys = set rows" using assms(2) by (metis set_mset_mset)
  ultimately show ?thesis by (simp add: fold_append_row)
qed

lemma reverse_rev: "distinct (map rid rows) \<Longrightarrow> reverse rows = rev rows"
  by (simp add: reverse_def fold_append_perm)

definition column_ok :: "sortfn \<Rightarrow> nat \<Rightarrow> row list \<Rightarrow> bool" where
  "column_ok f col rows = list_all (\<lambda>r. case cell_text col r of Inl _ \<Rightarrow> False | Inr s \<Rightarrow> key_ok f (s, r)) rows"

definition col_text :: "nat \<Rightarrow> row \<Rightarrow> jsstr" where
  "col_text col r = (case cell_text col r of Inl _ \<Rightarrow> [] | Inr s \<Rightarrow> s)"

definition row_le :: "sortfn \<Rightarrow> nat \<Rightarrow> row \<Rightarrow> row \<Rightarrow> bool" where
  "row_le f col a b = key_le f (col_text col a, a) (col_text col b, b)"

lemma row_array_ok:
  "column_ok f col rows \<Longrightarrow> row_array col rows = Inr (map (\<lambda>r. (col_text col r, r)) rows)"
  unfolding row_array_def
  by (rule mapR_total) (auto simp: column_ok_def col_text_def list_all_iff split: sum.splits)

section \<open>Sorting the body\<close>

locale sort_routine =
  fixes nsort :: native_sort
  assumes nsort_sorts: "list_all (key_ok f) xs \<Longrightarrow>
    \<exists>ys. nsort xs (call_sortfn f) = Inr ys \<and> mset ys = mset xs \<and> sorted_wrt (key_le f) ys"
begin

lemma sort_body_sorts:
  assumes "column_ok f col rows" and "distinct (map rid rows)"
  shows "\<exists>rows'. sort_body nsort f col rows = Inr rows' \<and> mset rows' = mset rows
    \<and> sorted_wrt (row_le f col) rows'"
proof -
  let ?dec = "\<lambda>r. (col_text col r, r)"
  have "list_all (key_ok f) (map ?dec rows)"
    using assms(1) by (auto simp: column_ok_def col_text_def list_all_iff split: sum.splits)
  then obtain ys where ys: "nsort (map ?dec rows) (call_sortfn f) = Inr ys"
    "mset ys = mset (map ?dec rows)" "sorted_wrt (key_le f) ys"
    using nsort_sorts by blast
  have decorated: "\<forall>y \<in> set ys. y = ?dec (snd y)"
  proof -
    have "set ys = set (map ?dec rows)" using ys(2) by (metis set_mset_mset)
    then show ?thesis by auto
  qed
  have perm: "mset (map snd ys) = mset rows"
  proof -
    have "mset (map snd ys) = image_mset snd (mset (map ?dec rows))" using ys(2) by simp
    then show ?thesis by (simp add: image_mset.compositionality comp_def)
  qed
  have "sorted_wrt (row_le f col) (map snd ys)"
    unfolding sorted_wrt_map row_le_def
    using ys(3) by (rule sorted_wrt_mono_rel [rotated]) (use decorated in \<open>metis\<close>)
  with perm show ?thesis
    by (simp add: sort_body_def row_array_ok [OF assms(1)] ys(1) fold_append_perm [OF assms(2)])
qed

end

text \<open>The alternative named in the sources, \<open>sorttable.shaker_sort\<close>, is such a routine.\<close>

interpretation shaker: sort_routine shaker_sort
  using column.shaker_sort_spec by unfold_locales (fastforce simp: list_all_iff)

section \<open>Class attributes of header cells\<close>

lemma re_testI: "match_at r False s i \<noteq> None \<Longrightarrow> i \<le> length s \<Longrightarrow> re_test r s"
  unfolding re_test_def exec_def exec_from_def search_from_None by fastforce

lemma re_test_word: "w \<noteq> [] \<Longrightarrow> re_test (word_re w) s \<longleftrightarrow>
    (\<exists>i. at_boundary s i \<and> prefix_at s i (lit w) \<and> at_boundary s (i + length w))"
proof
  assume w: "w \<noteq> []" and "re_test (word_re w) s"
  then obtain i where "match_at (word_re w) False s i \<noteq> None"
    unfolding re_test_def exec_def exec_from_def search_from_None by blast
  then show "\<exists>i. at_boundary s i \<and> prefix_at s i (lit w) \<and> at_boundary s (i + length w)"
    using match_at_word_re [OF w] by (metis option.discI)
next
  assume w: "w \<noteq> []" and "\<exists>i. at_boundary s i \<and> prefix_at s i (lit w) \<and> at_boundary s (i + length w)"
  then obtain i where i: "at_boundary s i" "prefix_at s i (lit w)" "at_boundary s (i + length w)" by blast
  then show "re_test (word_re w) s"
    by (intro re_testI [of _ _ i]) (auto simp: match_at_word_re [OF w] prefix_at_def)
qed

lemma lit_sorted_sep: "32 \<notin> set (lit sorted_cls)" "32 \<notin> set (lit reverse_cls)"
  by (simp_all add: sorted_cls_def reverse_cls_def)

lemma prefix_at_appendD: "prefix_at s i (a @ b) \<Longrightarrow> prefix_at s i a"
proof -
  assume p: "prefix_at s i (a @ b)"
  then have "take (length a) (take (length (a @ b)) (drop i s)) = a" by (simp add: prefix_at_def)
  then show ?thesis using p by (simp add: prefix_at_def min_def)
qed

lemma lit_reverse: "lit reverse_cls = lit sorted_cls @ lit ''_reverse''"
  by (simp add: sorted_cls_def reverse_cls_def)

lemma reverse_contains_sorted: "contains s (lit reverse_cls) \<Longrightarrow> contains s (lit sorted_cls)"
  unfolding contains_iff lit_reverse by (blast dest: prefix_at_appendD)

lemma word_at_append: "word_at (s @ t) (length s + i) = word_at t i"
  by (simp add: word_at_def nth_append)

lemma word_at_last_sep: "\<not> word_at (s @ 32 # t) (length s)"
  by (simp add: word_at_def is_word_def in_ranges_def)

lemma is_word_evals:
  "word_at (lit sorted_cls) 0" "word_at (lit sorted_cls) 15" "\<not> word_at (lit sorted_cls) 16"
  "word_at (lit reverse_cls) 0" "word_at (lit reverse_cls) 15" "word_at (lit reverse_cls) 16"
  "word_at (lit reverse_cls) 23" "\<not> word_at (lit reverse_cls) 24"
  by code_simp+

lemma boundary_after_sep:
  assumes "word_at t 0"
  shows "at_boundary (s @ 32 # t) (Suc (length s))"
  using assms word_at_append [of "s @ [32]" t 0] word_at_last_sep [of s t] by (simp add: at_boundary_def)

lemma boundary_inside:
  "0 < n \<Longrightarrow> at_boundary (s @ 32 # t) (Suc (length s) + n) = (word_at t (n - 1) \<noteq> word_at t n)"
  using word_at_append [of "s @ [32]" t n] word_at_append [of "s @ [32]" t "n - 1"]
  by (simp add: at_boundary_def)

lemma cls_lengths: "length (lit sorted_cls) = 16" "length sorted_cls = 16"
  "length (lit reverse_cls) = 24" "length reverse_cls = 24" "sorted_cls \<noteq> []" "reverse_cls \<noteq> []"
  "lit sorted_cls \<noteq> []" "lit reverse_cls \<noteq> []"
  by (simp_all add: sorted_cls_def reverse_cls_def)

lemma prefix_self: "prefix_at (s @ 32 # t) (Suc (length s)) t"
  by (simp add: prefix_at_def)

lemma class_base:
  assumes "\<not> contains b (lit sorted_cls)"
  shows "\<not> re_test (word_re sorted_cls) b" and "\<not> re_test (word_re reverse_cls) b"
  using assms reverse_contains_sorted [of b]
  by (auto simp: re_test_word cls_lengths contains_iff)

lemma class_sorted: "re_test (word_re sorted_cls) (b @ 32 # lit sorted_cls)"
  unfolding re_test_word [OF cls_lengths(5)]
  by (rule exI [of _ "Suc (length b)"])
     (simp add: boundary_after_sep prefix_self is_word_evals cls_lengths boundary_inside [of 16, simplified])

lemma class_reverse: "re_test (word_re reverse_cls) (b @ 32 # lit reverse_cls)"
  unfolding re_test_word [OF cls_lengths(6)]
  by (rule exI [of _ "Suc (length b)"])
     (simp add: boundary_after_sep prefix_self is_word_evals cls_lengths boundary_inside [of 24, simplified])

lemma class_reverse_not_sorted:
  assumes "\<not> contains b (lit sorted_cls)"
  shows "\<not> re_test (word_re sorted_cls) (b @ 32 # lit reverse_cls)"
proof
  assume "re_test (word_re sorted_cls) (b @ 32 # lit reverse_cls)"
  then obtain i where i: "prefix_at (b @ 32 # lit reverse_cls) i (lit sorted_cls)"
    "at_boundary (b @ 32 # lit reverse_cls) (i + 16)"
    by (auto simp: re_test_word cls_lengths)
  from i(1) assms have "length b < i" and p: "prefix_at (lit reverse_cls) (i - Suc (length b)) (lit sorted_cls)"
    using prefix_at_append_sep [OF lit_sorted_sep(1) cls_lengths(7)] contains_iff by blast+
  have "list_all (\<lambda>j. \<not> prefix_at (lit reverse_cls) j (lit sorted_cls)) [1, 2, 3, 4, 5, 6, 7, 8]"
    by code_simp
  then have only0: "\<not> prefix_at (lit reverse_cls) j (lit sorted_cls)" if "0 < j" "j \<le> 8" for j
    using that by (simp add: le_Suc_eq numeral_eq_Suc) blast
  have "i - Suc (length b) \<le> 8" using p by (simp add: prefix_at_def cls_lengths)
  with only0 p have "i - Suc (length b) = 0" by blast
  with \<open>length b < i\<close> have "i = Suc (length b)" by simp
  with i(2) boundary_inside [of 16 b "lit reverse_cls"] show False by (simp add: is_word_evals)
qed

lemma replace_sorted_reverse:
  assumes "\<not> contains b (lit sorted_cls)"
  shows "replace_str (b @ 32 # lit sorted_cls) (lit sorted_cls) r = b @ 32 # r"
    and "replace_str (b @ 32 # lit reverse_cls) (lit reverse_cls) r = b @ 32 # r"
    and "replace_str (b @ 32 # lit sorted_cls) (lit reverse_cls) r = b @ 32 # lit sorted_cls"
    and "\<not> contains (b @ [32]) (lit sorted_cls)"
proof -
  have nr: "\<not> contains b (lit reverse_cls)" using assms reverse_contains_sorted by blast
  show "replace_str (b @ 32 # lit sorted_cls) (lit sorted_cls) r = b @ 32 # r"
    using replace_str_appended [OF assms lit_sorted_sep(1) cls_lengths(7), of "[]"] by simp
  show "replace_str (b @ 32 # lit reverse_cls) (lit reverse_cls) r = b @ 32 # r"
    using replace_str_appended [OF nr lit_sorted_sep(2) cls_lengths(8), of "[]"] by simp
  show "replace_str (b @ 32 # lit sorted_cls) (lit reverse_cls) r = b @ 32 # lit sorted_cls"
    using nr by (intro replace_str_absent)
      (auto simp: contains_iff prefix_at_append_sep [OF lit_sorted_sep(2) cls_lengths(8)], auto simp: prefix_at_def cls_lengths)
  show "\<not> contains (b @ [32]) (lit sorted_cls)"
    using assms prefix_at_append_sep [OF lit_sorted_sep(1) cls_lengths(7), of b "[]"]
    by (auto simp: contains_iff) (auto simp: prefix_at_def cls_lengths)
qed

section \<open>The state of a header\<close>

datatype hstate = Unsorted | Ascending | Descending

definition cell_state :: "cell \<Rightarrow> hstate" where
  "cell_state c = (if re_test (word_re sorted_cls) (cclass c) then Ascending
     else if re_test (word_re reverse_cls) (cclass c) then Descending else Unsorted)"

text \<open>A well-formed header cell carries at most one of the two class names, and the indicator that
  goes with it.\<close>

definition cell_wf :: "cell \<Rightarrow> bool" where
  "cell_wf c \<longleftrightarrow> (\<exists>b. \<not> contains b (lit sorted_cls) \<and>
     (cclass c = b \<and> cinds c = [] \<or> cclass c = b @ 32 # lit sorted_cls \<and> cinds c = [FwdInd]
      \<or> cclass c = b @ 32 # lit reverse_cls \<and> cinds c = [RevInd]))"

lemma cell_wfE:
  assumes "cell_wf c"
  obtains (unsorted) b where "\<not> contains b (lit sorted_cls)" "cclass c = b" "cinds c = []" "cell_state c = Unsorted"
  | (ascending) b where "\<not> contains b (lit sorted_cls)" "cclass c = b @ 32 # lit sorted_cls"
      "cinds c = [FwdInd]" "cell_state c = Ascending"
  | (descending) b where "\<not> contains b (lit sorted_cls)" "cclass c = b @ 32 # lit reverse_cls"
      "cinds c = [RevInd]" "cell_state c = Descending"
  using assms unfolding cell_wf_def cell_state_def
  by (metis class_base class_sorted class_reverse class_reverse_not_sorted)

lemma cell_wfI:
  assumes "\<not> contains b (lit sorted_cls)"
  shows "cclass c = b \<Longrightarrow> cinds c = [] \<Longrightarrow> cell_wf c \<and> cell_state c = Unsorted"
    and "cclass c = b @ 32 # lit sorted_cls \<Longrightarrow> cinds c = [FwdInd] \<Longrightarrow> cell_wf c \<and> cell_state c = Ascending"
    and "cclass c = b @ 32 # lit reverse_cls \<Longrightarrow> cinds c = [RevInd] \<Longrightarrow> cell_wf c \<and> cell_state c = Descending"
  using assms
  by (auto simp: cell_wf_def cell_state_def class_base class_sorted class_reverse class_reverse_not_sorted)

lemma cell_inds:
  "cell_wf c \<Longrightarrow> FwdInd \<in> set (cinds c) \<longleftrightarrow> cell_state c = Ascending"
  "cell_wf c \<Longrightarrow> RevInd \<in> set (cinds c) \<longleftrightarrow> cell_state c = Descending"
  by (erule cell_wfE; simp)+

text \<open>The cell updates of the three branches.\<close>

definition to_descending :: "cell \<Rightarrow> cell" where
  "to_descending c = add_ind RevInd (drop_ind FwdInd (set_class (\<lambda>s. replace_str s (lit sorted_cls) (lit reverse_cls)) c))"

definition to_ascending :: "cell \<Rightarrow> cell" where
  "to_ascending c = add_ind FwdInd (drop_ind RevInd (set_class (\<lambda>s. replace_str s (lit reverse_cls) (lit sorted_cls)) c))"

definition unmark :: "cell \<Rightarrow> cell" where
  "unmark c = drop_ind RevInd (drop_ind FwdInd (clear_classes c))"

definition mark :: "cell \<Rightarrow> cell" where
  "mark c = add_ind FwdInd (set_class (\<lambda>s. s @ lit (CHR '' '' # sorted_cls)) c)"

lemma csortfn_updates [simp]:
  "csortfn (to_descending c) = csortfn c" "csortfn (to_ascending c) = csortfn c"
  "csortfn (unmark c) = csortfn c" "csortfn (mark c) = csortfn c"
  by (simp_all add: to_descending_def to_ascending_def unmark_def mark_def clear_classes_def
      add_ind_def drop_ind_def set_class_def)

lemma to_descending_state:
  assumes "cell_wf c" "cell_state c = Ascending"
  shows "cell_wf (to_descending c) \<and> cell_state (to_descending c) = Descending"
  using assms(1)
proof (cases rule: cell_wfE)
  case (ascending b)
  then show ?thesis
    by (intro cell_wfI(3) [OF ascending(1)])
       (simp_all add: to_descending_def add_ind_def drop_ind_def set_class_def replace_sorted_reverse)
qed (use assms(2) in simp_all)

lemma to_ascending_state:
  assumes "cell_wf c" "cell_state c = Descending"
  shows "cell_wf (to_ascending c) \<and> cell_state (to_ascending c) = Ascending"
  using assms(1)
proof (cases rule: cell_wfE)
  case (descending b)
  then show ?thesis
    by (intro cell_wfI(2) [OF descending(1)])
       (simp_all add: to_ascending_def add_ind_def drop_ind_def set_class_def replace_sorted_reverse)
qed (use assms(2) in simp_all)

lemma unmark_state:
  assumes "cell_wf c"
  shows "cell_wf (unmark c) \<and> cell_state (unmark c) = Unsorted"
  using assms
proof (cases rule: cell_wfE)
  case (unsorted b)
  moreover from unsorted(1) have "\<not> contains b (lit reverse_cls)" using reverse_contains_sorted by blast
  ultimately show ?thesis
    by (intro cell_wfI(1) [OF unsorted(1)])
       (auto simp: unmark_def clear_classes_def drop_ind_def set_class_def replace_str_absent)
next
  case (ascending b)
  then show ?thesis
    by (intro cell_wfI(1) [OF replace_sorted_reverse(4) [OF ascending(1)]])
       (simp_all add: unmark_def clear_classes_def drop_ind_def set_class_def replace_sorted_reverse)
next
  case (descending b)
  then show ?thesis
    by (intro cell_wfI(1) [OF replace_sorted_reverse(4) [OF descending(1)]])
       (simp_all add: unmark_def clear_classes_def drop_ind_def set_class_def replace_sorted_reverse
         replace_str_absent [OF replace_sorted_reverse(4)])
qed

lemma mark_state:
  assumes "cell_wf c" "cell_state c = Unsorted"
  shows "cell_wf (mark c) \<and> cell_state (mark c) = Ascending"
  using assms(1)
proof (cases rule: cell_wfE)
  case (unsorted b)
  then show ?thesis
    by (intro cell_wfI(2) [OF unsorted(1)]) (simp_all add: mark_def add_ind_def set_class_def)
qed (use assms(2) in simp_all)

section \<open>Pages with one sortable table\<close>

definition has_page :: "doc \<Rightarrow> cell list \<Rightarrow> row list \<Rightarrow> bool" where
  "has_page d cs b \<longleftrightarrow> (\<exists>t r bs. tables d = [t] \<and> thead t = Some [r] \<and> rcells r = cs \<and> tbodies t = b # bs)"

lemma has_page_simps:
  assumes "has_page d cs b"
  shows "head_cells (tables d ! 0) = cs" and "first_body (tables d ! 0) = Some b"
    and "has_page (upd_cell (0, c) f d) (cs[c := f (cs ! c)]) b"
    and "has_page (d\<lparr>tables := (tables d)[0 := set_head_cells cs' (tables d ! 0)]\<rparr>) cs' b"
    and "has_page (d\<lparr>tables := (tables d)[0 := set_first_body b' (tables d ! 0)]\<rparr>) cs b'"
    and "\<exists>d'. upd_body 0 g d = Inr d' \<and> has_page d' cs (g b)"
    and "find_ind k d = map_option (Pair 0) (List.find (\<lambda>c. k \<in> set (cinds (cs ! c))) [0..<length cs])"
proof -
  from assms obtain t r bs where d: "tables d = [t]" "thead t = Some [r]" "rcells r = cs" "tbodies t = b # bs"
    by (auto simp: has_page_def)
  show "head_cells (tables d ! 0) = cs" and "first_body (tables d ! 0) = Some b"
    and "has_page (upd_cell (0, c) f d) (cs[c := f (cs ! c)]) b"
    and "has_page (d\<lparr>tables := (tables d)[0 := set_head_cells cs' (tables d ! 0)]\<rparr>) cs' b"
    and "has_page (d\<lparr>tables := (tables d)[0 := set_first_body b' (tables d ! 0)]\<rparr>) cs b'"
    and "\<exists>d'. upd_body 0 g d = Inr d' \<and> has_page d' cs (g b)"
    using d by (auto simp: head_cells_def opt_rows_def first_body_def upd_cell_def set_head_cells_def
        set_first_body_def upd_body_def has_page_def Let_def)
  have "List.find P (map (Pair 0) xs) = map_option (Pair 0) (List.find (\<lambda>x. P (0, x)) xs)"
    for P :: "nat \<times> nat \<Rightarrow> bool" and xs by (induction xs) auto
  then show "find_ind k d = map_option (Pair 0) (List.find (\<lambda>c. k \<in> set (cinds (cs ! c))) [0..<length cs])"
    using d by (simp add: find_ind_def head_cells_def opt_rows_def)
qed

definition one_marked :: "cell list \<Rightarrow> bool" where
  "one_marked cs \<longleftrightarrow> (\<forall>i < length cs. \<forall>j < length cs.
     cell_state (cs ! i) \<noteq> Unsorted \<longrightarrow> cell_state (cs ! j) \<noteq> Unsorted \<longrightarrow> i = j)"

lemma marked_state: "cell_wf c \<Longrightarrow> k \<in> set (cinds c) \<Longrightarrow> cell_state c \<noteq> Unsorted"
  by (erule cell_wfE) auto

lemma unique_inds:
  assumes "list_all cell_wf cs" "one_marked cs" "i < length cs" "j < length cs"
    "k \<in> set (cinds (cs ! i))" "k \<in> set (cinds (cs ! j))"
  shows "i = j"
proof -
  have "cell_wf (cs ! i)" "cell_wf (cs ! j)" using assms(1,3,4) by (simp_all add: list_all_length)
  with assms(5,6) have "cell_state (cs ! i) \<noteq> Unsorted" "cell_state (cs ! j) \<noteq> Unsorted"
    using marked_state by blast+
  with assms(2-4) show ?thesis unfolding one_marked_def by blast
qed

lemma find_marked:
  assumes "list_all cell_wf cs" "one_marked cs" "c < length cs" "k \<in> set (cinds (cs ! c))"
  shows "List.find (\<lambda>c. k \<in> set (cinds (cs ! c))) [0..<length cs] = Some c"
proof (rule find_upt_first)
  show "c < length cs" "k \<in> set (cinds (cs ! c))" by (rule assms)+
  show "k \<notin> set (cinds (cs ! j))" if "j < c" for j
    using unique_inds [OF assms(1,2), of j c k] that assms(3,4) by auto
qed

lemma remove_any_ind_page:
  assumes "has_page d cs b"
    and "\<And>i j. i < length cs \<Longrightarrow> j < length cs \<Longrightarrow> k \<in> set (cinds (cs ! i)) \<Longrightarrow> k \<in> set (cinds (cs ! j)) \<Longrightarrow> i = j"
  shows "has_page (remove_any_ind k d) (map (drop_ind k) cs) b"
proof -
  have same: "drop_ind k c = c" if "k \<notin> set (cinds c)" for c
    using that by (simp add: drop_ind_def remove1_idem)
  show ?thesis
  proof (cases "List.find (\<lambda>c. k \<in> set (cinds (cs ! c))) [0..<length cs]")
    case None
    then have "\<forall>c \<in> set cs. k \<notin> set (cinds c)" 
      unfolding all_set_conv_all_nth by (auto simp: find_None_iff)
    then have "map (drop_ind k) cs = cs" using same by (simp add: map_idI)
    then show ?thesis using None assms(1) has_page_simps(7) [OF assms(1), of k] by (simp add: remove_any_ind_def)
  next
    case (Some c)
    then have c: "c < length cs" "k \<in> set (cinds (cs ! c))" by (auto simp: find_Some_iff)
    have "cs[c := drop_ind k (cs ! c)] = map (drop_ind k) cs"
    proof (rule nth_equalityI)
      fix i assume "i < length (cs[c := drop_ind k (cs ! c)])"
      then show "cs[c := drop_ind k (cs ! c)] ! i = map (drop_ind k) cs ! i"
        using c assms(2) [of i c] same [of "cs ! i"] by (cases "i = c"; cases "k \<in> set (cinds (cs ! i))") auto
    qed simp
    then show ?thesis
      using Some has_page_simps(7) [OF assms(1), of k] has_page_simps(3) [OF assms(1), of c "drop_ind k"]
      by (simp add: remove_any_ind_def)
  qed
qed

lemma mark_sorted_page:
  assumes "has_page d cs b" "list_all cell_wf cs" "one_marked cs" "c < length cs"
  shows "has_page (mark_sorted (0, c) d) ((map unmark cs)[c := mark (unmark (cs ! c))]) b"
proof -
  let ?d1 = "d\<lparr>tables := (tables d)[0 := set_head_cells (map clear_classes (head_cells (tables d ! 0))) (tables d ! 0)]\<rparr>"
  have inds: "cinds (clear_classes x) = cinds x" for x by (simp add: clear_classes_def set_class_def)
  have p1: "has_page ?d1 (map clear_classes cs) b"
    using has_page_simps(1,4) [OF assms(1)] by simp
  have p2: "has_page (remove_any_ind FwdInd ?d1) (map (drop_ind FwdInd) (map clear_classes cs)) b"
    using unique_inds [OF assms(2,3)] by (intro remove_any_ind_page p1) (simp add: inds)
  have rem: "k \<in> set (cinds (drop_ind k' x)) \<Longrightarrow> k \<in> set (cinds x)" for k k' x
    by (simp add: drop_ind_def) (meson notin_set_remove1)
  have "has_page (remove_any_ind RevInd (remove_any_ind FwdInd ?d1))
      (map (drop_ind RevInd) (map (drop_ind FwdInd) (map clear_classes cs))) b"
  proof (rule remove_any_ind_page [OF p2], goal_cases)
    case (1 i j)
    then show ?case using unique_inds [OF assms(2,3), of i j RevInd]
        rem [of RevInd FwdInd "clear_classes (cs ! i)"] rem [of RevInd FwdInd "clear_classes (cs ! j)"]
      by (simp add: inds)
  qed
  then have p3: "has_page (remove_any_ind RevInd (remove_any_ind FwdInd ?d1)) (map unmark cs) b"
    by (simp add: unmark_def [abs_def] comp_def)
  have p4: "has_page (upd_cell (0, c) f (remove_any_ind RevInd (remove_any_ind FwdInd ?d1)))
      ((map unmark cs)[c := f (unmark (cs ! c))]) b" for f
    using has_page_simps(3) [OF p3, of c f] assms(4) by simp
  show ?thesis
    using has_page_simps(3) [OF p4, of c "add_ind FwdInd"] assms(4)
    by (simp add: mark_sorted_def Let_def mark_def)
qed

text \<open>The three branches of the handler, on a page with one sortable table.\<close>

definition heads_ok :: "cell list \<Rightarrow> bool" where
  "heads_ok cs \<longleftrightarrow> list_all cell_wf cs \<and> one_marked cs"

lemma heads_ok_update:
  assumes "heads_ok cs" "c < length cs" "cell_state (cs ! c) \<noteq> Unsorted" "cell_wf x"
  shows "heads_ok (cs[c := x])"
proof -
  have "list_all cell_wf (cs[c := x])" using assms by (auto simp: heads_ok_def list_all_length nth_list_update)
  moreover have "one_marked (cs[c := x])"
    using assms(1-3) unfolding heads_ok_def one_marked_def by (metis length_list_update nth_list_update_neq)
  ultimately show ?thesis by (simp add: heads_ok_def)
qed

lemma toggle_page:
  assumes "has_page d cs b" "heads_ok cs" "c < length cs" "k \<in> set (cinds (cs ! c))"
  shows "\<exists>d'. attempt d (upd_body 0 reverse d) (\<lambda>d.
      let d = upd_cell (0, c) (set_class g) d
      in attempt d (remove_own_ind k (0, c) d) (\<lambda>d. (upd_cell (0, c) (add_ind k') d, None))) = (d', None)
    \<and> has_page d' (cs[c := add_ind k' (drop_ind k (set_class g (cs ! c)))]) (reverse b)"
proof -
  obtain d1 where d1: "upd_body 0 reverse d = Inr d1" "has_page d1 cs (reverse b)"
    using has_page_simps(6) [OF assms(1)] by blast
  let ?cs = "cs[c := set_class g (cs ! c)]" and ?d2 = "upd_cell (0, c) (set_class g) d1"
  have p2: "has_page ?d2 ?cs (reverse b)" by (rule has_page_simps(3) [OF d1(2)])
  have "cinds (?cs ! i) = cinds (cs ! i)" for i
    using assms(3) by (cases "i = c") (simp_all add: set_class_def)
  then have "find_ind k ?d2 = Some (0, c)"
    using has_page_simps(7) [OF p2, of k] find_marked [of cs c k] assms(2-4) by (simp add: heads_ok_def)
  moreover have "has_page (upd_cell (0, c) (drop_ind k) ?d2) (cs[c := drop_ind k (set_class g (cs ! c))]) (reverse b)"
    using has_page_simps(3) [OF p2, of c "drop_ind k"] assms(3) by simp
  from has_page_simps(3) [OF this, of c "add_ind k'"] assms(3)
  have "has_page (upd_cell (0, c) (add_ind k') (upd_cell (0, c) (drop_ind k) ?d2))
      (cs[c := add_ind k' (drop_ind k (set_class g (cs ! c)))]) (reverse b)" by simp
  ultimately show ?thesis by (simp add: attempt_def d1 remove_own_ind_def Let_def)
qed

lemma cell_state_tests:
  "re_test (word_re sorted_cls) (cclass c) \<longleftrightarrow> cell_state c = Ascending"
  "cell_state c \<noteq> Ascending \<Longrightarrow> re_test (word_re reverse_cls) (cclass c) \<longleftrightarrow> cell_state c = Descending"
  by (auto simp: cell_state_def)

lemma click_ascending:
  assumes "has_page d cs b" "heads_ok cs" "c < length cs" "cell_state (cs ! c) = Ascending"
    "csortfn (cs ! c) \<noteq> None"
  shows "\<exists>d'. click nsort (0, c) d = (d', None) \<and> has_page d' (cs[c := to_descending (cs ! c)]) (reverse b)"
proof -
  have "FwdInd \<in> set (cinds (cs ! c))" using assms(2-4) by (simp add: heads_ok_def cell_inds list_all_length)
  from toggle_page [OF assms(1-3) this] show ?thesis
    unfolding click_def innerSortFunction_def to_descending_def
    using assms(4,5) has_page_simps(1) [OF assms(1)] by (auto simp: cell_state_tests)
qed

lemma click_descending:
  assumes "has_page d cs b" "heads_ok cs" "c < length cs" "cell_state (cs ! c) = Descending"
    "csortfn (cs ! c) \<noteq> None"
  shows "\<exists>d'. click nsort (0, c) d = (d', None) \<and> has_page d' (cs[c := to_ascending (cs ! c)]) (reverse b)"
proof -
  have "RevInd \<in> set (cinds (cs ! c))" using assms(2-4) by (simp add: heads_ok_def cell_inds list_all_length)
  from toggle_page [OF assms(1-3) this] show ?thesis
    unfolding click_def innerSortFunction_def to_ascending_def
    using assms(4,5) has_page_simps(1) [OF assms(1)] by (auto simp: cell_state_tests)
qed

lemma heads_ok_mark:
  assumes "heads_ok cs" "c < length cs"
  shows "heads_ok ((map unmark cs)[c := mark (unmark (cs ! c))])"
    and "map cell_state ((map unmark cs)[c := mark (unmark (cs ! c))])
      = (replicate (length cs) Unsorted)[c := Ascending]"
proof -
  let ?cs = "(map unmark cs)[c := mark (unmark (cs ! c))]"
  have u: "cell_wf (unmark (cs ! i)) \<and> cell_state (unmark (cs ! i)) = Unsorted" if "i < length cs" for i
    using assms(1) that unmark_state by (simp add: heads_ok_def list_all_length)
  have m: "cell_wf (mark (unmark (cs ! c))) \<and> cell_state (mark (unmark (cs ! c))) = Ascending"
    using u [OF assms(2)] mark_state by blast
  have "list_all cell_wf ?cs" using u m assms(2) by (auto simp: list_all_length nth_list_update)
  moreover have "one_marked ?cs" using u assms(2) by (auto simp: one_marked_def nth_list_update split: if_splits)
  ultimately show "heads_ok ?cs" by (simp add: heads_ok_def)
  show "map cell_state ?cs = (replicate (length cs) Unsorted)[c := Ascending]"
    by (rule nth_equalityI) (use u m assms(2) in \<open>auto simp: nth_list_update\<close>)
qed

section \<open>What a click does\<close>

text \<open>The abstract header row: a click on a sorted column flips its direction, a click on another
  column makes that column, and no other, ascending.\<close>

definition toggle :: "nat \<Rightarrow> hstate list \<Rightarrow> hstate list" where
  "toggle c hs = (case hs ! c of
     Ascending \<Rightarrow> hs[c := Descending]
   | Descending \<Rightarrow> hs[c := Ascending]
   | Unsorted \<Rightarrow> (replicate (length hs) Unsorted)[c := Ascending])"

definition page_ok :: "doc \<Rightarrow> bool" where
  "page_ok d \<longleftrightarrow> (\<exists>cs b. has_page d cs b \<and> heads_ok cs \<and> distinct (map rid b))"

definition heads :: "doc \<Rightarrow> hstate list" where
  "heads d = map cell_state (head_cells (tables d ! 0))"

definition sortfns :: "doc \<Rightarrow> sortfn option list" where
  "sortfns d = map csortfn (head_cells (tables d ! 0))"

definition body :: "doc \<Rightarrow> row list" where
  "body d = (case first_body (tables d ! 0) of None \<Rightarrow> [] | Some b \<Rightarrow> b)"

lemma has_page_views: "has_page d cs b \<Longrightarrow> heads d = map cell_state cs \<and> body d = b \<and> sortfns d = map csortfn cs"
  using has_page_simps(1,2) [of d cs b] by (simp add: heads_def body_def sortfns_def)

lemma click_marked:
  assumes "page_ok d" "c < length (heads d)" "sortfns d ! c \<noteq> None" "heads d ! c \<noteq> Unsorted"
  shows "\<exists>d'. click nsort (0, c) d = (d', None) \<and> page_ok d' \<and> heads d' = toggle c (heads d)
    \<and> body d' = rev (body d) \<and> sortfns d' = sortfns d"
proof -
  obtain cs b where p: "has_page d cs b" "heads_ok cs" "distinct (map rid b)"
    using assms(1) by (auto simp: page_ok_def)
  note v = has_page_views [OF p(1)]
  have c: "c < length cs" "csortfn (cs ! c) \<noteq> None" using assms(2,3) v by simp_all
  have wf: "cell_wf (cs ! c)" using p(2) c(1) by (simp add: heads_ok_def list_all_length)
  consider "cell_state (cs ! c) = Ascending" | "cell_state (cs ! c) = Descending"
    using assms(4) v c(1) by (cases "cell_state (cs ! c)") auto
  then obtain x d' where x: "click nsort (0, c) d = (d', None)" "has_page d' (cs[c := x]) (reverse b)"
    "cell_wf x" "csortfn x = csortfn (cs ! c)" "map cell_state (cs[c := x]) = toggle c (map cell_state cs)"
  proof cases
    case 1
    with click_ascending [OF p(1,2) c(1) 1 c(2), of nsort] to_descending_state [OF wf 1] c(1) that
    show ?thesis by (auto simp: toggle_def map_update)
  next
    case 2
    with click_descending [OF p(1,2) c(1) 2 c(2), of nsort] to_ascending_state [OF wf 2] c(1) that
    show ?thesis by (auto simp: toggle_def map_update)
  qed
  have "heads_ok (cs[c := x])" using heads_ok_update [OF p(2) c(1) _ x(3)] assms(4) v c(1) by simp
  moreover have "distinct (map rid (reverse b))" using p(3) by (simp add: reverse_rev flip: rev_map)
  ultimately have "page_ok d'" using x(2) page_ok_def by blast
  moreover have "map csortfn (cs[c := x]) = map csortfn cs"
    using x(4) c(1) by (metis list_update_id map_update)
  ultimately show ?thesis
    using x(1,5) has_page_views [OF x(2)] v p(3) by (auto simp: reverse_rev)
qed

lemma click_unsorted:
  assumes "sort_routine nsort" "page_ok d" "c < length (heads d)" "sortfns d ! c = Some f"
    "heads d ! c = Unsorted" "column_ok f c (body d)"
  shows "\<exists>d'. click nsort (0, c) d = (d', None) \<and> page_ok d' \<and> heads d' = toggle c (heads d)
    \<and> mset (body d') = mset (body d) \<and> sorted_wrt (row_le f c) (body d') \<and> sortfns d' = sortfns d"
proof -
  obtain cs b where p: "has_page d cs b" "heads_ok cs" "distinct (map rid b)"
    using assms(2) by (auto simp: page_ok_def)
  note v = has_page_views [OF p(1)]
  have c: "c < length cs" "csortfn (cs ! c) = Some f" "cell_state (cs ! c) = Unsorted"
    using assms(3-5) v by simp_all
  let ?cs = "(map unmark cs)[c := mark (unmark (cs ! c))]" and ?d = "mark_sorted (0, c) d"
  have m: "has_page ?d ?cs b" using mark_sorted_page p(1,2) c(1) by (simp add: heads_ok_def)
  obtain b' where b': "sort_body nsort f c b = Inr b'" "mset b' = mset b" "sorted_wrt (row_le f c) b'"
    using sort_routine.sort_body_sorts [OF assms(1) _ p(3)] assms(6) v by metis
  let ?d' = "?d\<lparr>tables := (tables ?d)[0 := set_first_body b' (tables ?d ! 0)]\<rparr>"
  have p': "has_page ?d' ?cs b'" by (rule has_page_simps(5) [OF m])
  have "click nsort (0, c) d = (?d', None)"
    using c has_page_simps(1) [OF p(1)] has_page_simps(2) [OF m] b'(1)
    by (simp add: click_def innerSortFunction_def cell_state_tests Let_def)
  moreover have "mset (map rid b') = mset (map rid b)" using b'(2) by simp
  then have "distinct (map rid b')" using p(3) mset_eq_imp_distinct_iff by blast
  then have "page_ok ?d'" using p' heads_ok_mark(1) [OF p(2) c(1)] page_ok_def by blast
  moreover have "map csortfn ?cs = map csortfn cs"
    by (rule nth_equalityI) (use c(1) in \<open>auto simp: nth_list_update\<close>)
  ultimately show ?thesis
    using has_page_views [OF p'] v b' heads_ok_mark(2) [OF p(2) c(1)] c assms(5)
    by (auto simp: toggle_def)
qed

text \<open>A session on the page: the columns the user clicks, one after the other.\<close>

fun clicks :: "native_sort \<Rightarrow> nat list \<Rightarrow> doc \<Rightarrow> outcome" where
  "clicks nsort [] d = (d, None)"
| "clicks nsort (c # cs) d =
     (case click nsort (0, c) d of
        (d', None) \<Rightarrow> clicks nsort cs d'
      | (d', Some e) \<Rightarrow> (d', Some e))"

definition head_step :: "sortfn option list \<Rightarrow> nat \<Rightarrow> hstate list \<Rightarrow> hstate list" where
  "head_step fs c hs = (if fs ! c = None then hs else toggle c hs)"

definition columns_ok :: "doc \<Rightarrow> bool" where
  "columns_ok d = list_all (\<lambda>(c, f). case f of None \<Rightarrow> True | Some f \<Rightarrow> column_ok f c (body d))
     (enumerate 0 (sortfns d))"

lemma columns_okD: "columns_ok d \<Longrightarrow> c < length (sortfns d) \<Longrightarrow> sortfns d ! c = Some f \<Longrightarrow> column_ok f c (body d)"
  by (force simp: columns_ok_def list_all_iff in_set_enumerate_eq)

lemma columns_ok_cong:
  assumes "columns_ok d" "mset (body d') = mset (body d)" "sortfns d' = sortfns d"
  shows "columns_ok d'"
proof -
  have "set (body d') = set (body d)" using assms(2) by (metis set_mset_mset)
  then show ?thesis using assms(1,3) by (simp add: columns_ok_def column_ok_def list_all_iff)
qed

lemma length_views: "length (sortfns d) = length (heads d)"
  by (simp add: sortfns_def heads_def)

lemma length_toggle [simp]: "length (toggle c hs) = length hs"
  by (simp add: toggle_def split: hstate.splits)

lemma click_step:
  assumes "sort_routine nsort" "page_ok d" "columns_ok d" "c < length (heads d)"
  shows "\<exists>d'. click nsort (0, c) d = (d', None) \<and> page_ok d' \<and> heads d' = head_step (sortfns d) c (heads d)
    \<and> mset (body d') = mset (body d) \<and> sortfns d' = sortfns d"
proof (cases "sortfns d ! c")
  case None
  then have "click nsort (0, c) d = (d, None)"
    using assms(4) by (simp add: click_def sortfns_def heads_def)
  then show ?thesis using None assms(2) by (simp add: head_step_def)
next
  case (Some f)
  then have ok: "column_ok f c (body d)" using columns_okD assms(3,4) length_views by metis
  show ?thesis
  proof (cases "heads d ! c = Unsorted")
    case True
    then show ?thesis using click_unsorted [OF assms(1,2,4) Some True ok] Some by (auto simp: head_step_def)
  next
    case False
    then show ?thesis using click_marked [OF assms(2,4) _ False, of nsort] Some by (auto simp: head_step_def)
  qed
qed

lemma clicks_run:
  assumes "sort_routine nsort" "page_ok d" "columns_ok d" "\<forall>c \<in> set cs. c < length (heads d)"
  shows "\<exists>d'. clicks nsort cs d = (d', None) \<and> page_ok d'
    \<and> heads d' = fold (head_step (sortfns d)) cs (heads d) \<and> mset (body d') = mset (body d)"
  using assms(2-4)
proof (induction cs arbitrary: d)
  case (Cons c cs)
  then obtain d1 where d1: "click nsort (0, c) d = (d1, None)" "page_ok d1"
    "heads d1 = head_step (sortfns d) c (heads d)" "mset (body d1) = mset (body d)" "sortfns d1 = sortfns d"
    using click_step [OF assms(1), of d c] by auto
  have "columns_ok d1" using columns_ok_cong Cons.prems(2) d1(4,5) by blast
  moreover have "\<forall>c \<in> set cs. c < length (heads d1)" using Cons.prems(3) d1(3) by (simp add: head_step_def)
  ultimately show ?case using Cons.IH [of d1] d1 by simp
qed simp

text \<open>A concrete page for evaluation.\<close>

definition demo_cell :: "string \<Rightarrow> sortfn option \<Rightarrow> cell" where
  "demo_cell s f = \<lparr>cclass = [], cnode = Elem (lit ''td'') None None [TextNode (lit s)], csortfn = f, cinds = []\<rparr>"

definition demo_row :: "nat \<Rightarrow> string list \<Rightarrow> row" where
  "demo_row i txts = \<lparr>rid = i, rclass = [], rcells = map (\<lambda>s. demo_cell s None) txts\<rparr>"

definition demo_table :: "nat \<Rightarrow> sortfn option \<Rightarrow> table" where
  "demo_table i f = \<lparr>thead = Some [\<lparr>rid = i, rclass = [], rcells = [demo_cell ''h'' f]\<rparr>],
     tbodies = [[demo_row (i + 1) [''b''], demo_row (i + 2) [''a'']]], tfoot = None\<rparr>"

definition demo_doc :: doc where
  "demo_doc = \<lparr>tables = [demo_table 0 (Some SortAlpha)], tfo = None\<rparr>"

lemma demo_page: "page_ok demo_doc"
proof -
  have "has_page demo_doc [demo_cell ''h'' (Some SortAlpha)] [demo_row 1 [''b''], demo_row 2 [''a'']]"
    by (simp add: has_page_def demo_doc_def demo_table_def numeral_2_eq_2)
  moreover have "\<not> contains [] (lit sorted_cls)" by code_simp
  then have "heads_ok [demo_cell ''h'' (Some SortAlpha)]"
    using cell_wfI(1) [of "[]" "demo_cell ''h'' (Some SortAlpha)"]
    by (simp add: heads_ok_def one_marked_def demo_cell_def)
  moreover have "distinct (map rid [demo_row 1 [''b''], demo_row 2 [''a'']])" by (simp add: demo_row_def)
  ultimately show ?thesis unfolding page_ok_def by blast
qed

lemma demo_columns: "columns_ok demo_doc"
  by code_simp

lemma demo_heads: "heads demo_doc = [Unsorted]" 
  by code_simp

lemma demo_sortfns: "sortfns demo_doc = [Some SortAlpha]"
  by code_simp

section \<open>Preparing a page\<close>











section \<open>Properties\<close>

text \<open>C9: for each of the four comparison functions and every array of entries on which it is
  defined, \<open>shaker_sort\<close> terminates without a throw and returns a permutation of the array that is
  sorted and keeps the order of entries with equal keys.\<close>

theorem shaker_sort_sorts:
  assumes "\<forall>x \<in> set xs. key_ok sf x"
  shows "\<exists>ys. shaker_sort xs (call_sortfn sf) = Inr ys \<and> mset ys = mset xs \<and> sorted_wrt (key_le sf) ys
     \<and> (\<forall>a. key_ok sf a \<longrightarrow> filter (\<lambda>x. key_le sf a x \<and> key_le sf x a) ys
                           = filter (\<lambda>x. key_le sf a x \<and> key_le sf x a) xs)"
  using column.shaker_sort_spec [OF assms] .

theorem shaker_sort_sorts_witness:
  "\<exists>ys. shaker_sort [(lit ''b'', 1 :: nat), (lit ''a'', 2), (lit ''b'', 3)] (call_sortfn SortAlpha) = Inr ys
     \<and> mset ys = mset [(lit ''b'', 1), (lit ''a'', 2), (lit ''b'', 3)]"
  using shaker_sort_sorts [of "[(lit ''b'', 1 :: nat), (lit ''a'', 2), (lit ''b'', 3)]" SortAlpha] by auto

text \<open>C13: two dates written day first, with years of the same number of digits, are ordered by
  \<open>sort_ddmm\<close> as the calendar orders them, whatever the separators and with or without leading
  zeros.\<close>

theorem sort_ddmm_chronological:
  assumes "date_text d s1 m s2 y" and "date_text d' s1' m' s2' y'" and "length y = length y'"
  shows "\<exists>n. sort_ddmm (d @ [s1] @ m @ [s2] @ y, r) (d' @ [s1'] @ m' @ [s2'] @ y', r') = Inr n
     \<and> (sgn_num n < 0 \<longleftrightarrow> earlier (undec d, undec m, undec y) (undec d', undec m', undec y'))
     \<and> (sgn_num n > 0 \<longleftrightarrow> earlier (undec d', undec m', undec y') (undec d, undec m, undec y))"
  using packed_compare [OF assms] date_fields_text [OF assms(1)] date_fields_text [OF assms(2)]
  by (simp add: sort_ddmm_def Let_def)

theorem sort_ddmm_chronological_witness:
  "\<exists>n. sort_ddmm (lit ''9/12/1999'', 0 :: nat) (lit ''01.01.2000'', 1) = Inr n \<and> sgn_num n < 0"
proof -
  have t: "date_text (lit ''9'') 47 (lit ''12'') 47 (lit ''1999'')" "date_text (lit ''01'') 46 (lit ''01'') 46 (lit ''2000'')"
    by (simp_all add: date_text_def is_digit_def is_sep_def)
  have e: "earlier (undec (lit ''9''), undec (lit ''12''), undec (lit ''1999''))
      (undec (lit ''01''), undec (lit ''01''), undec (lit ''2000''))" by (simp add: earlier_def undec_def)
  show ?thesis using sort_ddmm_chronological [OF t, of "0 :: nat" 1] e by auto
qed

text \<open>C5: on a page with one sortable table, whose header is well formed, a click on a header whose column is not
  sorted, with a text in every cell of the column that the column's comparison accepts, leaves
  the rows of the body as a permutation sorted by the texts of that column, marks that header and
  no other as ascending, and does not throw; for every native sort that meets \<open>sort_routine\<close>.\<close>

theorem click_sorts_body:
  assumes "sort_routine nsort" "page_ok d" "c < length (heads d)" "sortfns d ! c = Some f"
    "heads d ! c = Unsorted" "column_ok f c (body d)"
  shows "\<exists>d'. click nsort (0, c) d = (d', None) \<and> page_ok d'
    \<and> heads d' = (replicate (length (heads d)) Unsorted)[c := Ascending]
    \<and> mset (body d') = mset (body d) \<and> sorted_wrt (row_le f c) (body d')"
  using click_unsorted [OF assms] assms(5) by (auto simp: toggle_def)

theorem click_sorts_body_witness:
  "\<exists>d'. click shaker_sort (0, 0) demo_doc = (d', None) \<and> sorted_wrt (row_le SortAlpha 0) (body d')"
  using click_sorts_body [OF shaker.sort_routine_axioms demo_page, of 0 SortAlpha] demo_columns
  by (auto simp: demo_heads demo_sortfns columns_ok_def)

text \<open>C6: on a page with one sortable table, whose header is well formed and each of whose columns holds only
  texts that its comparison accepts, every sequence of clicks on the headers runs without a throw, the header
  row follows the abstract machine \<open>toggle\<close>, and no row is lost, duplicated or invented.\<close>

theorem clicks_refine:
  assumes "sort_routine nsort" "page_ok d" "columns_ok d" "\<forall>c \<in> set cs. c < length (heads d)"
  shows "\<exists>d'. clicks nsort cs d = (d', None) \<and> page_ok d'
    \<and> heads d' = fold (head_step (sortfns d)) cs (heads d) \<and> mset (body d') = mset (body d)"
  using clicks_run [OF assms] .

theorem clicks_refine_witness:
  "\<exists>d'. clicks shaker_sort [0, 0, 0] demo_doc = (d', None) \<and> heads d' = [Ascending]"
  using clicks_refine [OF shaker.sort_routine_axioms demo_page demo_columns, of "[0, 0, 0]"]
  by (auto simp: demo_heads demo_sortfns head_step_def toggle_def simp del: clicks.simps)

text \<open>C16: on a page with one sortable table, whose header is well formed, a click on a header that is already
  sorted reverses the rows exactly and does not throw, and a further click restores the order and the state of
  the header row.\<close>

theorem click_again_reverses:
  assumes "page_ok d" "c < length (heads d)" "sortfns d ! c \<noteq> None" "heads d ! c \<noteq> Unsorted"
  shows "\<exists>d' d''. click nsort (0, c) d = (d', None) \<and> body d' = rev (body d)
    \<and> click nsort (0, c) d' = (d'', None) \<and> body d'' = body d \<and> heads d'' = heads d"
proof -
  obtain d' where d': "click nsort (0, c) d = (d', None)" "page_ok d'" "heads d' = toggle c (heads d)"
    "body d' = rev (body d)" "sortfns d' = sortfns d"
    using click_marked [OF assms, of nsort] by blast
  have h: "heads d' ! c \<noteq> Unsorted" "toggle c (heads d') = heads d"
    using assms(2,4) d'(3) by (auto simp: toggle_def list_update_same_conv split: hstate.split)
  obtain d'' where "click nsort (0, c) d' = (d'', None)" "heads d'' = toggle c (heads d')" "body d'' = rev (body d')"
    using click_marked [OF d'(2) _ _ h(1), of nsort] assms(2,3) d'(3,5) by auto
  with d' h show ?thesis by auto
qed

lemma demo_sorted:
  obtains d1 where "click shaker_sort (0, 0) demo_doc = (d1, None)" "page_ok d1" "heads d1 = [Ascending]"
    "sortfns d1 = [Some SortAlpha]"
  using click_unsorted [OF shaker.sort_routine_axioms demo_page, of 0 SortAlpha] demo_columns
  by (auto simp: demo_heads demo_sortfns columns_ok_def toggle_def)

theorem click_again_reverses_witness:
  "\<exists>d1 d' d''. click shaker_sort (0, 0) demo_doc = (d1, None) \<and> click shaker_sort (0, 0) d1 = (d', None)
    \<and> click shaker_sort (0, 0) d' = (d'', None) \<and> body d' = rev (body d1) \<and> body d'' = body d1"
proof -
  obtain d1 where d1: "click shaker_sort (0, 0) demo_doc = (d1, None)" "page_ok d1" "heads d1 = [Ascending]"
    "sortfns d1 = [Some SortAlpha]" by (rule demo_sorted)
  show ?thesis using click_again_reverses [OF d1(2), of 0 shaker_sort] d1 by auto
qed





text \<open>C33: a table that already has a foot and has a row of class \<open>sortbottom\<close> cannot be prepared
  while no table without a foot was prepared before: the variable \<open>tfo\<close> is not set.  If one was, the
  row ends up in the foot of that other table.\<close>

theorem sortbottom_existing_foot:
  assumes "tfoot (tables d ! i) \<noteq> None" "sortbottom_rows (tables d ! i) = [r]" "i < length (tables d)"
  shows "(tfo d = None \<longrightarrow> sort_bottom i d = Inl ReferenceError)
    \<and> (\<forall>j. tfo d = Some j \<longrightarrow> j \<noteq> i \<longrightarrow> j < length (tables d) \<longrightarrow>
      (\<exists>d'. sort_bottom i d = Inr d' \<and> tfoot (tables d' ! j) = Some (opt_rows (tfoot (tables d ! j)) @ [r])
        \<and> tables d' ! i = remove_row (rid r) (tables d ! i)))"
  using assms by (auto simp: sort_bottom_def Let_def append_foot_def)

definition demo_foot :: table where
  "demo_foot = \<lparr>thead = Some [demo_row 20 [''h'']],
     tbodies = [[(demo_row 21 [''t''])\<lparr>rclass := lit ''sortbottom''\<rparr>]], tfoot = Some []\<rparr>"

lemma demo_foot_rows: "sortbottom_rows demo_foot = [(demo_row 21 [''t''])\<lparr>rclass := lit ''sortbottom''\<rparr>]"
  by code_simp

theorem sortbottom_existing_foot_witness:
  "sort_bottom 0 \<lparr>tables = [demo_foot], tfo = None\<rparr> = Inl ReferenceError
   \<and> (\<exists>d'. sort_bottom 1 \<lparr>tables = [demo_foot, demo_foot], tfo = Some 0\<rparr> = Inr d' \<and> length (opt_rows (tfoot (tables d' ! 0))) = 1)"
  using sortbottom_existing_foot [of "\<lparr>tables = [demo_foot], tfo = None\<rparr>" 0]
    sortbottom_existing_foot [of "\<lparr>tables = [demo_foot, demo_foot], tfo = Some 0\<rparr>" 1]
  by (auto simp: demo_foot_rows) (auto simp: demo_foot_def opt_rows_def)

text \<open>The text of a cell that holds a form field is never the field's value: without other text
  it is empty, and with a text node beside the field the lookup of the custom key throws.\<close>

theorem input_cell_text:
  "get_inner_text (Elem (lit ''td'') None None [Elem (lit ''input'') None (Some (lit ''42'')) []]) = Inr []
   \<and> get_inner_text (Elem (lit ''td'') None None [TextNode s, Elem (lit ''input'') None (Some (lit ''42'')) []]) = Inl TypeError"
proof
  show "get_inner_text (Elem (lit ''td'') None None [Elem (lit ''input'') None (Some (lit ''42'')) []]) = Inr []"
    by code_simp
  show "get_inner_text (Elem (lit ''td'') None None [TextNode s, Elem (lit ''input'') None (Some (lit ''42'')) []]) = Inl TypeError"
    by simp
qed

end
