(* ===== verification/SortTable_Pages.thy ===== *)
theory SortTable_Pages
  imports SortTable_Click
begin

text \<open>
  Pages with several sortable tables.  The indicator of a sorted column is found by an id that all tables share:
  sorting in another table takes it away, and the next click on the first header throws.  Further, on pages with
  any number of tables, a click on the header of a column of dates with a blank cell.
\<close>

section \<open>Header cells of a document\<close>

definition is_header :: "doc \<Rightarrow> nat \<times> nat \<Rightarrow> bool" where
  "is_header d p \<longleftrightarrow> fst p < length (tables d) \<and> snd p < length (head_cells (tables d ! fst p))"

definition header :: "doc \<Rightarrow> nat \<times> nat \<Rightarrow> cell" where
  "header d p = head_cells (tables d ! fst p) ! snd p"

definition body_of :: "doc \<Rightarrow> nat \<Rightarrow> row list option" where
  "body_of d i = first_body (tables d ! i)"

text \<open>Two documents with the same headers in the same places and the same bodies.\<close>

lemma head_cells_set: "head_cells t \<noteq> [] \<Longrightarrow> head_cells (set_head_cells cs t) = cs"
  by (cases "thead t") (auto simp: head_cells_def set_head_cells_def opt_rows_def split: list.splits)

lemma set_parts [simp]:
  "first_body (set_head_cells cs t) = first_body t" "head_cells (set_first_body b t) = head_cells t"
  "tbodies t \<noteq> [] \<Longrightarrow> first_body (set_first_body b t) = Some b"
  by (auto simp: first_body_def set_head_cells_def head_cells_def set_first_body_def split: list.split)

lemma headers_set:
  assumes "is_header d (i, c)" "length cs = length (head_cells (tables d ! i))"
  defines "d' \<equiv> d\<lparr>tables := (tables d)[i := set_head_cells cs (tables d ! i)]\<rparr>"
  shows "is_header d' q = is_header d q" "is_header d q \<Longrightarrow> header d' q = (if fst q = i then cs ! snd q else header d q)"
    "body_of d' j = body_of d j"
proof -
  have ne: "head_cells (tables d ! i) \<noteq> []" using assms(1) by (auto simp: is_header_def)
  have "first_body (tables d' ! j) = first_body (tables d ! j)" using assms(1) by (simp add: d'_def is_header_def nth_list_update)
  then show "body_of d' j = body_of d j" by (simp add: body_of_def)
  have h: "head_cells (tables d' ! k) = (if k = i then cs else head_cells (tables d ! k))" for k
    using assms(1) head_cells_set [OF ne] by (simp add: d'_def is_header_def nth_list_update)
  have l: "length (tables d') = length (tables d)" by (simp add: d'_def)
  show "is_header d' q = is_header d q" using assms(2) by (simp add: is_header_def h l)
  show "is_header d q \<Longrightarrow> header d' q = (if fst q = i then cs ! snd q else header d q)" by (simp add: header_def h)
qed

lemma upd_cell_headers:
  assumes "is_header d p"
  shows "is_header (upd_cell p f d) q = is_header d q"
    "is_header d q \<Longrightarrow> header (upd_cell p f d) q = (if q = p then f (header d p) else header d q)"
    "body_of (upd_cell p f d) j = body_of d j"
proof -
  obtain i c where p: "p = (i, c)" by (cases p)
  let ?cs = "(head_cells (tables d ! i))[c := f (head_cells (tables d ! i) ! c)]"
  note h = headers_set [OF assms [unfolded p], of ?cs]
  have u: "upd_cell p f d = d\<lparr>tables := (tables d)[i := set_head_cells ?cs (tables d ! i)]\<rparr>" by (simp add: p upd_cell_def Let_def)
  show "is_header (upd_cell p f d) q = is_header d q" "body_of (upd_cell p f d) j = body_of d j" unfolding u using h by simp_all
  show "header (upd_cell p f d) q = (if q = p then f (header d p) else header d q)" if "is_header d q"
    unfolding u using h(2) [OF _ that] assms that by (cases q) (auto simp: p header_def is_header_def nth_list_update)
qed

lemma set_body_headers:
  assumes "d' = d\<lparr>tables := (tables d)[i := set_first_body b (tables d ! i)]\<rparr>" "i < length (tables d)"
  shows "is_header d' q = is_header d q" "header d' q = header d q"
    "body_of d i \<noteq> None \<Longrightarrow> body_of d' j = (if j = i then Some b else body_of d j)"
proof -
  have h: "head_cells (tables d' ! k) = head_cells (tables d ! k)" for k using assms(2) by (simp add: assms(1) nth_list_update)
  have l: "length (tables d') = length (tables d)" by (simp add: assms(1))
  show "is_header d' q = is_header d q" "header d' q = header d q" by (simp_all add: is_header_def header_def h l)
  show "body_of d i \<noteq> None \<Longrightarrow> body_of d' j = (if j = i then Some b else body_of d j)"
    using assms(2) by (auto simp: body_of_def assms(1) nth_list_update first_body_def set_first_body_def split: list.splits)
qed

section \<open>The indicators\<close>

lemma find_ind_place:
  "find_ind k d = None \<longleftrightarrow> (\<forall>q. is_header d q \<longrightarrow> k \<notin> set (cinds (header d q)))"
  "find_ind k d = Some p \<Longrightarrow> is_header d p \<and> k \<in> set (cinds (header d p))"
proof -
  show "find_ind k d = None \<longleftrightarrow> (\<forall>q. is_header d q \<longrightarrow> k \<notin> set (cinds (header d q)))"
    by (auto simp: find_ind_def find_None_iff is_header_def header_def image_iff; force)
  show "find_ind k d = Some p \<Longrightarrow> is_header d p \<and> k \<in> set (cinds (header d p))"
    unfolding find_ind_def is_header_def header_def
    by (auto simp: find_Some_iff dest!: nth_mem)
qed

text \<open>The only indicator of the page is the one of an ascending column at \<open>r\<close>, if any.\<close>

definition only_ind :: "(nat \<times> nat) option \<Rightarrow> doc \<Rightarrow> bool" where
  "only_ind r d \<longleftrightarrow> (\<forall>q. is_header d q \<longrightarrow> cinds (header d q) = (if r = Some q then [FwdInd] else [])) \<and> (\<forall>p. r = Some p \<longrightarrow> is_header d p)"

lemma only_indD:
  "only_ind (Some p) d \<Longrightarrow> is_header d p" "only_ind (Some p) d \<Longrightarrow> cinds (header d p) = [FwdInd]"
  "only_ind None d \<Longrightarrow> is_header d q \<Longrightarrow> cinds (header d q) = []"
  unfolding only_ind_def by (simp_all del: split_paired_All split_paired_Ex)

lemma find_only_ind: "only_ind r d \<Longrightarrow> find_ind FwdInd d = r" "only_ind r d \<Longrightarrow> find_ind RevInd d = None"
proof -
  assume o: "only_ind r d"
  show "find_ind RevInd d = None" using o by (simp add: find_ind_place(1) only_ind_def)
  show "find_ind FwdInd d = r"
  proof (cases r)
    case None
    then show ?thesis using o by (simp add: find_ind_place(1) only_ind_def)
  next
    case (Some p)
    then have "is_header d p" "FwdInd \<in> set (cinds (header d p))" using o only_indD(1,2) by simp_all
    then have "find_ind FwdInd d \<noteq> None" by (metis find_ind_place(1))
    then obtain q where q: "find_ind FwdInd d = Some q" by blast
    have "is_header d q" "FwdInd \<in> set (cinds (header d q))" using find_ind_place(2) [OF q] by simp_all
    then have "r = Some q" using o unfolding only_ind_def by fastforce
    then show ?thesis using q by simp
  qed
qed


section \<open>Sorting in one table and in another\<close>

lemma cell_state_cong: "cclass a = cclass b \<Longrightarrow> cell_state a = cell_state b" by (simp add: cell_state_def)

definition now_ascending :: "cell \<Rightarrow> cell \<Rightarrow> bool" where
  "now_ascending old new \<longleftrightarrow> cell_state new = Ascending \<and> csortfn new = csortfn old"

lemma mark_sorted_page_of:
  assumes "only_ind r d" "is_header d (i, c)"
  defines "d' \<equiv> mark_sorted (i, c) d"
  shows "only_ind (Some (i, c)) d'" "is_header d' q = is_header d q" "body_of d' j = body_of d j"
    "now_ascending (header d (i, c)) (header d' (i, c))"
    "is_header d q \<Longrightarrow> fst q \<noteq> i \<Longrightarrow> cclass (header d' q) = cclass (header d q) \<and> csortfn (header d' q) = csortfn (header d q)"
proof -
  let ?cs = "map clear_classes (head_cells (tables d ! i))"
  define d1 where "d1 = d\<lparr>tables := (tables d)[i := set_head_cells ?cs (tables d ! i)]\<rparr>"
  have "length ?cs = length (head_cells (tables d ! i))" by simp
  note h1 = headers_set [OF assms(2) this, folded d1_def]
  have hd1: "header d1 q = (if fst q = i then clear_classes (header d q) else header d q)" if "is_header d q" for q
    using h1(2) [OF that] that by (auto simp: header_def is_header_def)
  have o1: "only_ind r d1" using assms(1) hd1 h1(1) by (auto simp: only_ind_def clear_classes_def set_class_def)
  define d2 where "d2 = remove_any_ind FwdInd d1"
  have d2: "(\<forall>q. is_header d2 q = is_header d q) \<and> (\<forall>j. body_of d2 j = body_of d j) \<and> only_ind None d2
      \<and> (\<forall>q. is_header d q \<longrightarrow> cclass (header d2 q) = cclass (header d1 q) \<and> csortfn (header d2 q) = csortfn (header d1 q))"
  proof (cases r)
    case None
    then have "d2 = d1" using find_only_ind(1) [OF o1] by (simp add: d2_def remove_any_ind_def)
    then show ?thesis using None o1 h1 by simp
  next
    case (Some p)
    then have e: "d2 = upd_cell p (drop_ind FwdInd) d1" using find_only_ind(1) [OF o1] by (simp add: d2_def remove_any_ind_def)
    have p: "is_header d1 p" using o1 Some by (simp add: only_ind_def)
    have c: "cinds (header d1 p) = [FwdInd]" using o1 Some only_indD(2) by simp
    show ?thesis using upd_cell_headers [OF p, where f = "drop_ind FwdInd", folded e] h1 o1 Some c
      by (auto simp: only_ind_def drop_ind_def)
  qed
  then have d3: "remove_any_ind RevInd d2 = d2" using find_only_ind(2) [of None d2] by (simp add: remove_any_ind_def)
  define d4 where "d4 = upd_cell (i, c) (set_class (\<lambda>s. s @ lit (CHR '' '' # sorted_cls))) d2"
  have e: "d' = upd_cell (i, c) (add_ind FwdInd) d4"
    by (simp add: d'_def mark_sorted_def Let_def d1_def [symmetric] d2_def [symmetric] d3 d4_def)
  have i2: "is_header d2 (i, c)" using d2 assms(2) by simp
  note u4 = upd_cell_headers [OF i2, where f = "set_class (\<lambda>s. s @ lit (CHR '' '' # sorted_cls))", folded d4_def]
  have i4: "is_header d4 (i, c)" using u4 i2 by simp
  note u5 = upd_cell_headers [OF i4, where f = "add_ind FwdInd", folded e]
  have head: "header d' q = (if q = (i, c) then add_ind FwdInd (set_class (\<lambda>s. s @ lit (CHR '' '' # sorted_cls)) (header d2 q)) else header d2 q)"
    if "is_header d q" for q using u4 u5 d2 that by auto
  show "is_header d' q = is_header d q" for q using u4 u5 d2 by simp
  then show "only_ind (Some (i, c)) d'" using head d2 assms(2) by (auto simp: only_ind_def add_ind_def set_class_def)
  show "body_of d' j = body_of d j" using u4 u5 d2 by simp
  show "cclass (header d' q) = cclass (header d q) \<and> csortfn (header d' q) = csortfn (header d q)" if "is_header d q" "fst q \<noteq> i"
  proof -
    have "cclass (header d2 q) = cclass (header d1 q) \<and> csortfn (header d2 q) = csortfn (header d1 q)" using d2 that(1) by blast
    then show ?thesis using head [OF that(1)] that hd1 [OF that(1)] by auto
  qed
  show "now_ascending (header d (i, c)) (header d' (i, c))"
    using head [OF assms(2)] hd1 [OF assms(2)] d2 assms(2) class_sorted
    by (auto simp: now_ascending_def cell_state_def add_ind_def set_class_def clear_classes_def)
qed

lemma sorting_click:
  assumes "sort_routine nsort" "only_ind r d" "is_header d (i, c)" "cell_state (header d (i, c)) = Unsorted"
    "csortfn (header d (i, c)) = Some f" "body_of d i = Some b" "column_ok f c b" "distinct (map rid b)"
  shows "\<exists>d'. click nsort (i, c) d = (d', None) \<and> only_ind (Some (i, c)) d' \<and> (\<forall>q. is_header d' q = is_header d q)
    \<and> (\<forall>j. j \<noteq> i \<longrightarrow> body_of d' j = body_of d j) \<and> body_of d' i \<noteq> None \<and> now_ascending (header d (i, c)) (header d' (i, c))
    \<and> (\<forall>q. is_header d q \<longrightarrow> fst q \<noteq> i \<longrightarrow> cclass (header d' q) = cclass (header d q) \<and> csortfn (header d' q) = csortfn (header d q))"
proof -
  obtain b' where b': "sort_body nsort f c b = Inr b'" using sort_routine.sort_body_sorts [OF assms(1,7,8)] by blast
  let ?m = "mark_sorted (i, c) d"
  note m = mark_sorted_page_of [OF assms(2,3)]
  define d' where "d' = ?m\<lparr>tables := (tables ?m)[i := set_first_body b' (tables ?m ! i)]\<rparr>"
  have li: "i < length (tables ?m)" using m(2) [of "(i, c)"] assms(3) by (simp add: is_header_def)
  note s = set_body_headers [OF d'_def li]
  have "click nsort (i, c) d = (d', None)"
    using assms(4,5,6) b' m(3) [of i]
    by (simp add: click_def innerSortFunction_def cell_state_tests Let_def header_def body_of_def d'_def)
  moreover have "body_of ?m i \<noteq> None" using m(3) [of i] assms(6) by simp
  ultimately show ?thesis using m s by (intro exI [of _ d']) (auto simp: only_ind_def)
qed

lemma stale_click:
  assumes "cell_state (header d (i, c)) = Ascending" "csortfn (header d (i, c)) \<noteq> None" "is_header d (i, c)" "body_of d i = Some b"
    "only_ind (Some p) d" "p \<noteq> (i, c)"
  shows "\<exists>d'. click nsort (i, c) d = (d', Some NotFoundError) \<and> body_of d' i = Some (reverse b) \<and> cinds (header d' (i, c)) = []"
proof -
  define d1 where "d1 = d\<lparr>tables := (tables d)[i := set_first_body (reverse b) (tables d ! i)]\<rparr>"
  have li: "i < length (tables d)" using assms(3) by (simp add: is_header_def)
  note s = set_body_headers [OF d1_def li]
  have i1: "is_header d1 (i, c)" using s assms(3) by simp
  define d2 where "d2 = upd_cell (i, c) (set_class (\<lambda>s. replace_str s (lit sorted_cls) (lit reverse_cls))) d1"
  note u = upd_cell_headers [OF i1, where f = "set_class (\<lambda>s. replace_str s (lit sorted_cls) (lit reverse_cls))", folded d2_def]
  have "only_ind (Some p) d2" using assms(5) s u by (auto simp: only_ind_def set_class_def)
  from find_only_ind(1) [OF this] have "remove_own_ind FwdInd (i, c) d2 = Inl NotFoundError" using assms(6) by (simp add: remove_own_ind_def)
  then have "click nsort (i, c) d = (d2, Some NotFoundError)"
    using assms(1,2,4) by (auto simp: click_def innerSortFunction_def cell_state_tests Let_def header_def body_of_def upd_body_def attempt_def d1_def d2_def)
  then show ?thesis using u s i1 assms(3-6) by (intro exI [of _ d2]) (auto simp: only_ind_def set_class_def)
qed

text \<open>C32: on every page without an indicator, sort a column of one table, then a column of another table, both
  unsorted and with distinct rows whose cells their comparison accepts: a further click on the first header throws,
  since the indicator found by its id belongs to the other table.  The rows are reversed by then, and the header has
  no indicator.\<close>

theorem two_tables_click_throws:
  assumes "sort_routine nsort" "only_ind None d" "i \<noteq> j"
    and "is_header d (i, c)" "cell_state (header d (i, c)) = Unsorted" "csortfn (header d (i, c)) = Some f"
    and "body_of d i = Some b" "column_ok f c b" "distinct (map rid b)"
    and "is_header d (j, c')" "cell_state (header d (j, c')) = Unsorted" "csortfn (header d (j, c')) = Some g"
    and "body_of d j = Some b'" "column_ok g c' b'" "distinct (map rid b')"
  shows "\<exists>d1 d2 d3. click nsort (i, c) d = (d1, None) \<and> click nsort (j, c') d1 = (d2, None) \<and> click nsort (i, c) d2 = (d3, Some NotFoundError)
    \<and> body_of d3 i = map_option reverse (body_of d2 i) \<and> cinds (header d3 (i, c)) = []"
proof -
  obtain d1 where d1: "click nsort (i, c) d = (d1, None)" "only_ind (Some (i, c)) d1" "\<forall>q. is_header d1 q = is_header d q"
      "\<forall>j. j \<noteq> i \<longrightarrow> body_of d1 j = body_of d j" "body_of d1 i \<noteq> None" "now_ascending (header d (i, c)) (header d1 (i, c))"
      "\<forall>q. is_header d q \<longrightarrow> fst q \<noteq> i \<longrightarrow> cclass (header d1 q) = cclass (header d q) \<and> csortfn (header d1 q) = csortfn (header d q)"
    using sorting_click [OF assms(1,2,4-9)] by blast
  have j1: "is_header d1 (j, c')" "cell_state (header d1 (j, c')) = Unsorted" "csortfn (header d1 (j, c')) = Some g" "body_of d1 j = Some b'"
    using d1(3,4) d1(7) [rule_format, OF assms(10)] assms(3,10-13) by (simp_all cong: cell_state_cong)
  obtain d2 where d2: "click nsort (j, c') d1 = (d2, None)" "only_ind (Some (j, c')) d2" "\<forall>q. is_header d2 q = is_header d1 q"
      "\<forall>i. i \<noteq> j \<longrightarrow> body_of d2 i = body_of d1 i"
      "\<forall>q. is_header d1 q \<longrightarrow> fst q \<noteq> j \<longrightarrow> cclass (header d2 q) = cclass (header d1 q) \<and> csortfn (header d2 q) = csortfn (header d1 q)"
    using sorting_click [OF assms(1) d1(2) j1 assms(14,15)] by blast
  obtain b2 where b2: "body_of d2 i = Some b2" using d1(5) d2(4) assms(3) by auto
  have i1: "is_header d1 (i, c)" using d1(3) assms(4) by simp
  have "cell_state (header d1 (i, c)) = Ascending" "csortfn (header d1 (i, c)) \<noteq> None" using d1(6) assms(6) by (simp_all add: now_ascending_def)
  then have "cell_state (header d2 (i, c)) = Ascending" "csortfn (header d2 (i, c)) \<noteq> None" "is_header d2 (i, c)"
    using d2(3) d2(5) [rule_format, OF i1] i1 assms(3) by (simp_all cong: cell_state_cong)
  from stale_click [OF this b2 d2(2)] assms(3) obtain d3 where "click nsort (i, c) d2 = (d3, Some NotFoundError)"
      "body_of d3 i = Some (reverse b2)" "cinds (header d3 (i, c)) = []" by blast
  with d1(1) d2(1) b2 show ?thesis by auto
qed

definition demo_doc2 :: doc where
  "demo_doc2 = \<lparr>tables = [demo_table 0 (Some SortAlpha), demo_table 10 (Some SortAlpha)], tfo = None\<rparr>"

lemma only_ind_None: "only_ind None d \<longleftrightarrow> (\<forall>t\<in>set (tables d). \<forall>c\<in>set (head_cells t). cinds c = [])"
  by (auto simp: only_ind_def is_header_def header_def all_set_conv_all_nth)

lemma demo_pages: "only_ind None demo_doc2" "is_header demo_doc2 (0, 0)" "is_header demo_doc2 (1, 0)"
  unfolding only_ind_None is_header_def by code_simp+

lemma demo_columns2:
  "cell_state (header demo_doc2 (0, 0)) = Unsorted" "csortfn (header demo_doc2 (0, 0)) = Some SortAlpha"
  "body_of demo_doc2 0 = Some [demo_row 1 [''b''], demo_row 2 [''a'']]" "column_ok SortAlpha 0 [demo_row 1 [''b''], demo_row 2 [''a'']]"
  "cell_state (header demo_doc2 (1, 0)) = Unsorted" "csortfn (header demo_doc2 (1, 0)) = Some SortAlpha"
  "body_of demo_doc2 1 = Some [demo_row 11 [''b''], demo_row 12 [''a'']]" "column_ok SortAlpha 0 [demo_row 11 [''b''], demo_row 12 [''a'']]"
  by code_simp+

lemma demo_ids: "distinct (map rid [demo_row 1 x, demo_row 2 y])" "distinct (map rid [demo_row 11 x, demo_row 12 y])" "(0::nat) \<noteq> 1"
  by (simp_all add: demo_row_def)

theorem two_tables_click_throws_witness:
  "\<exists>d1 d2 d3. click shaker_sort (0, 0) demo_doc2 = (d1, None) \<and> click shaker_sort (1, 0) d1 = (d2, None)
    \<and> click shaker_sort (0, 0) d2 = (d3, Some NotFoundError)"
  using two_tables_click_throws [OF shaker.sort_routine_axioms demo_pages(1) demo_ids(3) demo_pages(2) demo_columns2(1-4) demo_ids(1)
      demo_pages(3) demo_columns2(5-8) demo_ids(2)]
  by blast

section \<open>Blank cells in a column of dates\<close>

lemma date_fields_throws: "date_fields [] = Inl TypeError" "date_fields s = Inl e \<Longrightarrow> e = TypeError"
proof -
  show "date_fields [] = Inl TypeError" by code_simp
  show "date_fields s = Inl e \<Longrightarrow> e = TypeError" by (auto simp: date_fields_def split: option.splits)
qed

lemma date_comparison_throws:
  assumes "f = SortDdmm \<or> f = SortMmdd"
  shows "call_sortfn f ([], r) k = Inl TypeError" "call_sortfn f k ([], r) = Inl TypeError" "call_sortfn f k k' = Inl e \<Longrightarrow> e = TypeError"
  using assms date_fields_throws
  by (auto simp: sort_ddmm_def sort_mmdd_def bindR_def Let_def split: sum.splits prod.splits)

lemma guessType_skips_blank: "guessType (filter (\<lambda>t. t \<noteq> Inr []) ts) = guessType ts"
proof -
  have "guess_loop sf (filter (\<lambda>t. t \<noteq> Inr []) ts) = guess_loop sf ts" for sf
    by (induction sf ts rule: guess_loop.induct) (auto simp: bindR_def split: sum.splits prod.splits if_splits)
  then show ?thesis by (simp add: guessType_def)
qed

text \<open>A comparison that throws \<open>e\<close> for the key \<open>x\<close> on either side, and nothing else for other keys.\<close>

definition throws_on :: "('a \<Rightarrow> 'a \<Rightarrow> jsnum res) \<Rightarrow> 'a \<Rightarrow> exn \<Rightarrow> bool" where
  "throws_on f x e \<longleftrightarrow> (\<forall>y. f x y = Inl e \<and> f y x = Inl e) \<and> (\<forall>y z e'. f y z = Inl e' \<longrightarrow> e' = e)"

lemma date_throws_on: "f = SortDdmm \<or> f = SortMmdd \<Longrightarrow> throws_on (call_sortfn f) ([], r) TypeError"
  using date_comparison_throws unfolding throws_on_def by metis

lemma fwd_pass_throws:
  assumes "throws_on comp_func x e"
    and "list ! k = x" "i \<le> k" "int k \<le> t" "int i < t" "t < int (length list)"
  shows "fwd_pass comp_func i t list swap = Inl e"
  using assms
proof (induction comp_func i t list swap rule: fwd_pass.induct)
  case (1 comp_func i t list swap)
  show ?case
  proof (cases "comp_func (list ! i) (list ! (i + 1))")
    case (Inl e')
    then have "e' = e" using "1.prems"(1) by (auto simp: throws_on_def)
    then show ?thesis using Inl "1.prems"(5) by (simp add: fwd_pass.simps [of _ i])
  next
    case (Inr v)
    then have "k \<noteq> i" "k \<noteq> i + 1" using "1.prems"(1,2) by (auto simp: throws_on_def)
    then have "i + 1 \<le> k" "int (i + 1) < t" "list[i := list ! (i + 1), i + 1 := list ! i] ! k = x" using "1.prems" by auto
    then have "fwd_pass comp_func (i + 1) t (list[i := list ! (i + 1), i + 1 := list ! i]) True = Inl e \<or> \<not> 0 < sgn_num v"
        "fwd_pass comp_func (i + 1) t list swap = Inl e \<or> 0 < sgn_num v"
      using "1.IH" "1.prems" Inr by auto
    then show ?thesis using Inr "1.prems"(5) by (auto simp: fwd_pass.simps [of _ i])
  qed
qed

lemma shaker_sort_throws:
  assumes "throws_on comp_func x e" "x \<in> set xs" "2 \<le> length xs"
  shows "shaker_sort xs comp_func = Inl e"
proof -
  obtain k where "xs ! k = x" "k < length xs" using assms(2) by (metis in_set_conv_nth)
  then have "fwd_pass comp_func 0 (int (length xs) - 1) xs False = Inl e"
    using fwd_pass_throws [OF assms(1), of xs k 0] assms(3) by simp
  then show ?thesis by (simp add: shaker_sort_def shaker_loop.simps [of comp_func 0])
qed

text \<open>A sort that gives every key of an array with several keys to the comparison.\<close>

definition compares_every :: "native_sort \<Rightarrow> bool" where
  "compares_every nsort \<longleftrightarrow> (\<forall>f xs x e. x \<in> set xs \<longrightarrow> 2 \<le> length xs \<longrightarrow> throws_on f x e \<longrightarrow> nsort xs f = Inl e)"

lemma compares_everyD: "compares_every nsort \<Longrightarrow> x \<in> set xs \<Longrightarrow> 2 \<le> length xs \<Longrightarrow> throws_on f x e \<Longrightarrow> nsort xs f = Inl e"
  unfolding compares_every_def by blast

lemma shaker_compares_every: "compares_every shaker_sort"
  unfolding compares_every_def by (blast intro: shaker_sort_throws)

lemma mark_sorted_body: "body_of (mark_sorted p d) j = body_of d j"
proof -
  have u: "body_of (d\<lparr>tables := (tables d)[i := set_head_cells cs (tables d ! i)]\<rparr>) j = body_of d j" for i cs d
    by (cases "i < length (tables d)") (auto simp: body_of_def nth_list_update list_update_beyond)
  have "body_of (upd_cell q f d) j = body_of d j" for q f d using u by (cases q) (simp add: upd_cell_def Let_def)
  with u show ?thesis by (simp add: mark_sorted_def Let_def remove_any_ind_def split: option.split)
qed

text \<open>C34: the guess of a column's type skips blank cells, but both comparisons of dates throw for a blank cell,
  whatever it is compared with and on whichever side.  So for \<open>shaker_sort\<close>, and every native sort that gives each key
  to the comparison, a click on the unsorted header of a column of dates with a blank cell throws as soon as the body
  has a second row and all its cells have a text; the header is marked as sorted and the rows are where they
  were.\<close>

theorem blank_date_cell_throws:
  assumes "compares_every nsort" "f = SortDdmm \<or> f = SortMmdd" "is_header d (i, c)" "cell_state (header d (i, c)) = Unsorted"
    and "csortfn (header d (i, c)) = Some f" "body_of d i = Some b" "2 \<le> length b"
    and "list_all (\<lambda>r. \<not> isl (cell_text c r)) b" "r \<in> set b" "cell_text c r = Inr []"
  shows "guessType (filter (\<lambda>t. t \<noteq> Inr []) ts) = guessType ts
    \<and> call_sortfn f ([], r) k = Inl TypeError \<and> call_sortfn f k ([], r) = Inl TypeError
    \<and> (\<exists>d'. click nsort (i, c) d = (d', Some TypeError) \<and> body_of d' i = Some b \<and> d' = mark_sorted (i, c) d)"
proof -
  have "row_array c b = Inr (map (\<lambda>r. (col_text c r, r)) b)"
    unfolding row_array_def by (rule mapR_total) (use assms(8) in \<open>auto simp: col_text_def list_all_iff split: sum.splits\<close>)
  moreover have "([], r) \<in> set (map (\<lambda>r. (col_text c r, r)) b)" using assms(9,10) by (force simp: col_text_def)
  then have "nsort (map (\<lambda>r. (col_text c r, r)) b) (call_sortfn f) = Inl TypeError"
    using compares_everyD [OF assms(1) _ _ date_throws_on [OF assms(2)]] assms(7) by simp
  ultimately have "sort_body nsort f c b = Inl TypeError" by (simp add: sort_body_def)
  then have "click nsort (i, c) d = (mark_sorted (i, c) d, Some TypeError)"
    using assms(4-6) mark_sorted_body [of "(i, c)" d i]
    by (simp add: click_def innerSortFunction_def cell_state_tests Let_def header_def body_of_def)
  then show ?thesis
    using assms(6) by (simp add: mark_sorted_body guessType_skips_blank date_comparison_throws(1,2) [OF assms(2)])
qed

definition demo_dates :: doc where
  "demo_dates = \<lparr>tables = [\<lparr>thead = Some [\<lparr>rid = 0, rclass = [], rcells = [demo_cell ''h'' (Some SortDdmm)]\<rparr>],
     tbodies = [[demo_row 1 [''31/12/1999''], demo_row 2 ['''']]], tfoot = None\<rparr>], tfo = None\<rparr>"

lemma demo_dates_ok:
  "is_header demo_dates (0, 0)" "cell_state (header demo_dates (0, 0)) = Unsorted" "csortfn (header demo_dates (0, 0)) = Some SortDdmm"
  "body_of demo_dates 0 = Some [demo_row 1 [''31/12/1999''], demo_row 2 ['''']]"
  "list_all (\<lambda>r. \<not> isl (cell_text 0 r)) [demo_row 1 [''31/12/1999''], demo_row 2 ['''']]" "cell_text 0 (demo_row 2 ['''']) = Inr []"
  unfolding is_header_def by code_simp+

theorem blank_date_cell_throws_witness:
  "snd (click shaker_sort (0, 0) demo_dates) = Some TypeError"
  using blank_date_cell_throws [OF shaker_compares_every disjI1 [OF refl] demo_dates_ok(1-4) _ demo_dates_ok(5) _ demo_dates_ok(6)] by auto

end
