(* ===== verification/JS_Effect.thy ===== *)
theory JS_Effect
  imports JS_Prelude
begin

text \<open>
  Code that calls back into code it does not know.  An effect takes the state and returns the
  outcome, a value or the exception thrown, together with the state left behind; what was done
  before a throw stays done.  Callbacks of the modelled code are effects, so a callback may change
  the very object that is being traversed.
\<close>

type_synonym ('s, 'a) eff = "'s \<Rightarrow> 'a res \<times> 's"

definition ret :: "'a \<Rightarrow> ('s, 'a) eff" where
  "ret x = (\<lambda>s. (Inr x, s))"

definition raise :: "exn \<Rightarrow> ('s, 'a) eff" where
  "raise e = (\<lambda>s. (Inl e, s))"

definition bindE :: "('s, 'a) eff \<Rightarrow> ('a \<Rightarrow> ('s, 'b) eff) \<Rightarrow> ('s, 'b) eff" where
  "bindE m f = (\<lambda>s. case m s of (Inl e, s') \<Rightarrow> (Inl e, s') | (Inr x, s') \<Rightarrow> f x s')"

definition gets :: "('s \<Rightarrow> 'a) \<Rightarrow> ('s, 'a) eff" where
  "gets f = (\<lambda>s. (Inr (f s), s))"

definition modify :: "('s \<Rightarrow> 's) \<Rightarrow> ('s, unit) eff" where
  "modify f = (\<lambda>s. (Inr (), f s))"

named_theorems eff_simps

lemma eff_apply [simp, eff_simps]:
  "ret x s = (Inr x, s)" "raise e s = (Inl e, s)" "gets f s = (Inr (f s), s)" "modify g s = (Inr (), g s)"
  by (simp_all add: ret_def raise_def gets_def modify_def)

lemma bindE_value [simp, eff_simps]: "m s = (Inr x, s') \<Longrightarrow> bindE m f s = f x s'"
  and bindE_throw [simp, eff_simps]: "m s = (Inl e, s') \<Longrightarrow> bindE m f s = (Inl e, s')"
  by (simp_all add: bindE_def)

lemma bindE_cong [fundef_cong]:
  assumes "s = s'" "m s' = m' s'" "\<And>x t. m' s' = (Inr x, t) \<Longrightarrow> f x t = g x t"
  shows "bindE m f s = bindE m' g s'"
  using assms by (auto simp: bindE_def split: prod.split sum.split)

lemma bindE_ret [simp]: "bindE (ret x) f = f x"
  by (rule ext) simp

lemma bindE_assoc: "bindE (bindE m f) g = bindE m (\<lambda>x. bindE (f x) g)"
  by (auto simp: bindE_def fun_eq_iff split: prod.split sum.split)

lemma bindE_Inr: "bindE m f s = (Inr y, t) \<longleftrightarrow> (\<exists>x s'. m s = (Inr x, s') \<and> f x s' = (Inr y, t))"
  by (auto simp: bindE_def split: prod.splits sum.splits)

text \<open>Running a body for each element of a list of items.\<close>

fun forE :: "('a \<Rightarrow> ('s, unit) eff) \<Rightarrow> 'a list \<Rightarrow> ('s, unit) eff" where
  "forE f [] = ret ()"
| "forE f (x # xs) = bindE (f x) (\<lambda>_. forE f xs)"

lemma forE_append: "forE f (xs @ ys) = bindE (forE f xs) (\<lambda>_. forE f ys)"
  by (induction xs) (simp_all add: bindE_assoc)

lemma forE_run: "(\<And>x s. x \<in> set xs \<Longrightarrow> P s \<Longrightarrow> f x s = (Inr (), g x s) \<and> P (g x s)) \<Longrightarrow> P s \<Longrightarrow>
    forE f xs s = (Inr (), fold g xs s) \<and> P (fold g xs s)"
  by (induction xs arbitrary: s) auto

end
