(* ===== verification/SortTable_Events.thy ===== *)
theory SortTable_Events
  imports JS_Effect
begin

text \<open>
  The supporting functions of sorttable.js: the registration of event handlers with its emulation
  for browsers that lack \<open>addEventListener\<close>, the dispatcher the emulation installs, and the
  generic \<open>forEach\<close>.  The emulation is shown to register and run the same handlers as the native
  interface.
\<close>

section \<open>State\<close>

text \<open>A handler is a function value, known by its identity; the only other function stored in a
  table or in an \<open>on...\<close> property is the dispatcher \<open>handleEvent\<close> itself.\<close>

datatype fnval = HandleEvent | Fn nat

text \<open>\<open>element.events[type]\<close> is a table from integer keys to functions.  It is kept in ascending
  order of the keys, the order in which \<open>for (i in handlers)\<close> enumerates integer keys.\<close>

type_synonym handlers = "(nat \<times> fnval) list"

record elem =
  has_listener_api :: bool
  listeners :: "(jsstr \<times> nat) list"
  events :: "(jsstr \<rightharpoonup> handlers) option"
  on_prop :: "jsstr \<rightharpoonup> fnval"

record evstate =
  next_guid :: nat
  guid_of :: "nat \<rightharpoonup> nat"
  elems :: "nat \<Rightarrow> elem"

record event =
  etype :: jsstr
  patched :: bool
  returnValue :: bool
  cancelBubble :: bool

fun put :: "nat \<Rightarrow> fnval \<Rightarrow> handlers \<Rightarrow> handlers" where
  "put k f [] = [(k, f)]"
| "put k f ((k', f') # hs) =
     (if k < k' then (k, f) # (k', f') # hs
      else if k = k' then (k, f) # hs
      else (k', f') # put k f hs)"

definition upd_elem :: "nat \<Rightarrow> (elem \<Rightarrow> elem) \<Rightarrow> evstate \<Rightarrow> evstate" where
  "upd_elem e f s = s\<lparr>elems := (elems s)(e := f (elems s e))\<rparr>"

section \<open>Registration\<close>

text \<open>\<open>element.addEventListener(type, handler, false)\<close> ignores a pair that is already registered.\<close>

definition add_listener :: "jsstr \<Rightarrow> nat \<Rightarrow> elem \<Rightarrow> elem" where
  "add_listener t h el =
     (if (t, h) \<in> set (listeners el) then el else el\<lparr>listeners := listeners el @ [(t, h)]\<rparr>)"

definition take_guid :: "nat \<Rightarrow> evstate \<Rightarrow> nat \<times> evstate" where
  "take_guid h s =
     (case guid_of s h of
        Some g \<Rightarrow> (g, s)
      | None \<Rightarrow> (next_guid s, s\<lparr>next_guid := Suc (next_guid s), guid_of := (guid_of s)(h \<mapsto> next_guid s)\<rparr>))"

definition store_handler :: "jsstr \<Rightarrow> nat \<Rightarrow> nat \<Rightarrow> elem \<Rightarrow> elem" where
  "store_handler t g h el =
     (let tab = (case events el of None \<Rightarrow> Map.empty | Some m \<Rightarrow> m);
          hs = (case tab t of
                  Some hs \<Rightarrow> hs
                | None \<Rightarrow> (case on_prop el t of Some f \<Rightarrow> put 0 f [] | None \<Rightarrow> []))
      in el\<lparr>events := Some (tab(t \<mapsto> put g (Fn h) hs)), on_prop := (on_prop el)(t \<mapsto> HandleEvent)\<rparr>)"

definition dean_addEvent :: "nat \<Rightarrow> jsstr \<Rightarrow> nat \<Rightarrow> evstate \<Rightarrow> evstate" where
  "dean_addEvent e t h s =
     (if has_listener_api (elems s e) then upd_elem e (add_listener t h) s
      else case take_guid h s of (g, s) \<Rightarrow> upd_elem e (store_handler t g h) s)"

definition delete_handler :: "jsstr \<Rightarrow> nat option \<Rightarrow> elem \<Rightarrow> elem" where
  "delete_handler t g el =
     (case events el of
        None \<Rightarrow> el
      | Some m \<Rightarrow> (case m t of
          None \<Rightarrow> el
        | Some hs \<Rightarrow> el\<lparr>events := Some (m(t \<mapsto> filter (\<lambda>(k, _). Some k \<noteq> g) hs))\<rparr>))"

definition removeEvent :: "nat \<Rightarrow> jsstr \<Rightarrow> nat \<Rightarrow> evstate \<Rightarrow> evstate" where
  "removeEvent e t h s =
     (if has_listener_api (elems s e)
      then upd_elem e (\<lambda>el. el\<lparr>listeners := filter (\<lambda>p. p \<noteq> (t, h)) (listeners el)\<rparr>) s
      else upd_elem e (delete_handler t (guid_of s h)) s)"

section \<open>Dispatch\<close>

definition fixEvent :: "event \<Rightarrow> event" where
  "fixEvent ev = ev\<lparr>patched := True\<rparr>"

definition preventDefault :: "event \<Rightarrow> event" where
  "preventDefault ev = ev\<lparr>returnValue := False\<rparr>"

definition stopPropagation :: "event \<Rightarrow> event" where
  "stopPropagation ev = ev\<lparr>cancelBubble := True\<rparr>"

definition handlers_of :: "evstate \<Rightarrow> nat \<Rightarrow> jsstr \<Rightarrow> handlers" where
  "handlers_of s e t =
     (case events (elems s e) of
        None \<Rightarrow> []
      | Some m \<Rightarrow> (case m t of None \<Rightarrow> [] | Some hs \<Rightarrow> hs))"

text \<open>The loop looks each key up when it gets there: a handler that an earlier one deleted is not
  run.  A dispatcher found in its own table would call itself without end, which is a range error
  (the call stack overflows).  A handler reports whether it returned \<open>false\<close>.\<close>

type_synonym 'x handler_sem = "nat \<Rightarrow> event \<Rightarrow> (evstate \<times> 'x, bool) eff"

fun handle_loop :: "'x handler_sem \<Rightarrow> nat \<Rightarrow> event \<Rightarrow> nat list \<Rightarrow> bool \<Rightarrow> (evstate \<times> 'x, bool) eff" where
  "handle_loop run this ev [] rv = ret rv"
| "handle_loop run this ev (k # ks) rv =
     bindE (gets (\<lambda>(s, _). map_of (handlers_of s this (etype ev)) k)) (\<lambda>f.
       case f of
         None \<Rightarrow> handle_loop run this ev ks rv
       | Some HandleEvent \<Rightarrow> raise RangeError
       | Some (Fn h) \<Rightarrow> bindE (run h ev) (\<lambda>isfalse. handle_loop run this ev ks (if isfalse then False else rv)))"

text \<open>The event is the argument or, failing that, the global \<open>event\<close> of the window.\<close>

definition handleEvent :: "'x handler_sem \<Rightarrow> event option \<Rightarrow> nat \<Rightarrow> event option \<Rightarrow> (evstate \<times> 'x, bool) eff" where
  "handleEvent run window_event this event =
     bindE (case event of
              Some ev \<Rightarrow> ret ev
            | None \<Rightarrow> (case window_event of Some ev \<Rightarrow> ret (fixEvent ev) | None \<Rightarrow> raise TypeError)) (\<lambda>ev.
       bindE (gets (\<lambda>(s, _). (events (elems s this), map fst (handlers_of s this (etype ev))))) (\<lambda>(evs, ks).
         if evs = None then raise TypeError else handle_loop run this ev ks True))"

section \<open>Enumeration\<close>

text \<open>\<open>Array.forEach\<close> reads the length and the element anew in every round, so a block that
  changes the array it enumerates is seen, and a block that keeps extending it never ends: then
  the result is \<open>None\<close>.  The object enumerated is part of the state, read by \<open>len\<close> and \<open>item\<close>.\<close>

partial_function (option) array_loop ::
    "('s \<Rightarrow> nat) \<Rightarrow> ('s \<Rightarrow> nat \<Rightarrow> 'v) \<Rightarrow> ('v \<Rightarrow> nat \<Rightarrow> ('s, unit) eff) \<Rightarrow> nat \<Rightarrow> 's \<Rightarrow> (unit res \<times> 's) option" where
  [code]: "array_loop len item block i s =
     (if i < len s then
        (case block (item s i) i s of
           (Inl e, s') \<Rightarrow> Some (Inl e, s')
         | (Inr _, s') \<Rightarrow> array_loop len item block (Suc i) s')
      else Some (Inr (), s))"

definition array_forEach ::
    "('s \<Rightarrow> nat) \<Rightarrow> ('s \<Rightarrow> nat \<Rightarrow> 'v) \<Rightarrow> ('v \<Rightarrow> nat \<Rightarrow> ('s, unit) eff) \<Rightarrow> 's \<Rightarrow> (unit res \<times> 's) option" where
  "array_forEach len item block = array_loop len item block 0"

text \<open>The members of \<open>Object.prototype\<close> and \<open>Function.prototype\<close>; \<open>forEach\<close> is the one this script
  adds to the latter, and being enumerable it shows up in the enumeration of every function.  The members
  \<open>name\<close>, \<open>arguments\<close> and \<open>caller\<close>, in which engines differ, are left out.\<close>

definition object_members :: "jsstr set" where
  "object_members = lit ` {''constructor'', ''toString'', ''toLocaleString'', ''valueOf'', ''hasOwnProperty'',
     ''isPrototypeOf'', ''propertyIsEnumerable''}"

definition function_members :: "jsstr set" where
  "function_members = object_members \<union> lit ` {''length'', ''apply'', ''call'', ''bind'', ''forEach''}"

text \<open>\<open>for (var key in object)\<close> enumerates the properties given; the value is read when the key's
  turn comes.\<close>

definition function_forEach ::
    "jsstr set \<Rightarrow> jsstr list \<Rightarrow> ('s \<Rightarrow> jsstr \<Rightarrow> 'v) \<Rightarrow> ('v \<Rightarrow> jsstr \<Rightarrow> ('s, unit) eff) \<Rightarrow> ('s, unit) eff" where
  "function_forEach members keys prop block =
     forE (\<lambda>key. if key \<in> members then ret () else (\<lambda>s. block (prop s key) key s)) keys"

definition string_forEach :: "jsstr \<Rightarrow> (jsstr \<Rightarrow> nat \<Rightarrow> ('s, unit) eff) \<Rightarrow> ('s, unit) eff" where
  "string_forEach str block = forE (\<lambda>(i, c). block [c] i) (enumerate 0 str)"

text \<open>What \<open>forEach\<close> can be given: nothing, a function, an object with a method \<open>forEach\<close> of its
  own, a string, an object with a length, any other object.\<close>

datatype 'v item = Value 'v | Chars jsstr
datatype key = Index nat | Name jsstr

datatype ('s, 'v) enumerable =
    Falsy
  | FunctionObj "jsstr list" "'s \<Rightarrow> jsstr \<Rightarrow> 'v"
  | CustomForEach "('v item \<Rightarrow> key \<Rightarrow> ('s, unit) eff) \<Rightarrow> 's \<Rightarrow> (unit res \<times> 's) option"
  | StringVal jsstr
  | ArrayLike "'s \<Rightarrow> nat" "'s \<Rightarrow> nat \<Rightarrow> 'v"
  | PlainObj "jsstr list" "'s \<Rightarrow> jsstr \<Rightarrow> 'v"

fun forEach :: "('s, 'v) enumerable \<Rightarrow> ('v item \<Rightarrow> key \<Rightarrow> ('s, unit) eff) \<Rightarrow> 's \<Rightarrow> (unit res \<times> 's) option" where
  "forEach Falsy block s = Some (Inr (), s)"
| "forEach (FunctionObj keys prop) block s =
     Some (function_forEach function_members keys prop (\<lambda>v k. block (Value v) (Name k)) s)"
| "forEach (CustomForEach m) block s = m block s"
| "forEach (StringVal str) block s =
     Some (if str = [] then (Inr (), s) else string_forEach str (\<lambda>c i. block (Chars c) (Index i)) s)"
| "forEach (ArrayLike len item) block s = array_forEach len item (\<lambda>v i. block (Value v) (Index i)) s"
| "forEach (PlainObj keys prop) block s =
     Some (function_forEach object_members keys prop (\<lambda>v k. block (Value v) (Name k)) s)"

lemma array_loop_measure:
  assumes "\<And>v j s. len s < n \<Longrightarrow> len (snd (block v j s)) < n" "len s < n"
  shows "\<exists>r. array_loop len item block i s = Some r"
  using assms(2)
proof (induction "n - i" arbitrary: i s rule: less_induct)
  case less
  show ?case
  proof (cases "i < len s")
    case True
    obtain r s' where b: "block (item s i) i s = (r, s')" by force
    then have "len s' < n" using assms(1) less.prems by (metis snd_conv)
    then have "\<exists>r. array_loop len item block (Suc i) s' = Some r"
      using less.hyps [of "Suc i" s'] True less.prems by simp
    then show ?thesis using True b by (subst array_loop.simps) (auto split: sum.split)
  qed (subst array_loop.simps, simp)
qed

lemma array_loop_forE:
  assumes "\<And>v j s. len s = n \<and> item s = f \<Longrightarrow> len (snd (block v j s)) = n \<and> item (snd (block v j s)) = f"
    and "len s = n" "item s = f"
  shows "array_loop len item block i s = Some (forE (\<lambda>j. block (f j) j) [i..<n] s)"
  using assms(2,3)
proof (induction "n - i" arbitrary: i s)
  case (Suc m)
  obtain r s' where b: "block (f i) i s = (r, s')" by force
  have i: "i < n" "[i..<n] = i # [Suc i..<n]" using Suc.hyps(2) by (auto simp: upt_conv_Cons)
  have "len s' = n \<and> item s' = f" using assms(1) [of s "f i" i] Suc.prems b by simp
  with Suc.hyps i have "array_loop len item block (Suc i) s' = Some (forE (\<lambda>j. block (f j) j) [Suc i..<n] s')" by simp
  then show ?case using i b Suc.prems
    by (cases r) (subst array_loop.simps; simp add: bindE_def)+
qed (subst array_loop.simps, simp)

section \<open>Invariant\<close>

definition table_ok :: "(nat \<rightharpoonup> nat) \<Rightarrow> handlers \<Rightarrow> bool" where
  "table_ok gs hs \<longleftrightarrow> sorted_wrt (<) (map fst hs) \<and>
     (\<forall>(k, f) \<in> set hs. \<exists>h. f = Fn h \<and> (k = 0 \<or> gs h = Some k))"

definition elem_ok :: "(nat \<rightharpoonup> nat) \<Rightarrow> elem \<Rightarrow> bool" where
  "elem_ok gs el \<longleftrightarrow>
     (\<forall>t. on_prop el t = Some HandleEvent \<longrightarrow> (\<exists>m. events el = Some m \<and> m t \<noteq> None)) \<and>
     (\<forall>m t hs. events el = Some m \<longrightarrow> m t = Some hs \<longrightarrow> table_ok gs hs)"

definition events_ok :: "evstate \<Rightarrow> bool" where
  "events_ok s \<longleftrightarrow> 0 < next_guid s \<and> inj_on (guid_of s) (dom (guid_of s)) \<and>
     ran (guid_of s) \<subseteq> {0<..<next_guid s} \<and> (\<forall>e. elem_ok (guid_of s) (elems s e))"

text \<open>The handlers a script registered for a type of events on an element.\<close>

definition registered :: "evstate \<Rightarrow> nat \<Rightarrow> jsstr \<Rightarrow> nat set" where
  "registered s e t =
     (if has_listener_api (elems s e) then {h. (t, h) \<in> set (listeners (elems s e))}
      else {h. \<exists>k. guid_of s h = Some k \<and> (k, Fn h) \<in> set (handlers_of s e t)})"

lemma set_put: "sorted_wrt (<) (map fst hs) \<Longrightarrow> set (put k f hs) = {(k, f)} \<union> {p \<in> set hs. fst p \<noteq> k}"
proof (induction k f hs rule: put.induct)
  case (2 k f k' f' hs)
  have "k < k' \<Longrightarrow> \<forall>p \<in> set ((k', f') # hs). fst p \<noteq> k" using 2(2) by force
  moreover have "k = k' \<Longrightarrow> \<forall>p \<in> set hs. fst p \<noteq> k" using 2(2) by force
  ultimately show ?case using 2 by auto
qed simp

lemma sorted_put: "sorted_wrt (<) (map fst hs) \<Longrightarrow> sorted_wrt (<) (map fst (put k f hs))"
proof (induction k f hs rule: put.induct)
  case (2 k f k' f' hs)
  then show ?case using set_put [of hs k f] by fastforce
qed simp

lemma table_ok_put:
  assumes "table_ok gs hs" "gs h = Some g"
  shows "table_ok gs (put g (Fn h) hs)"
  using assms set_put [of hs g "Fn h"] sorted_put [of hs g "Fn h"] by (auto simp: table_ok_def)

lemma table_ok_mono: "table_ok gs hs \<Longrightarrow> gs \<subseteq>\<^sub>m gs' \<Longrightarrow> table_ok gs' hs"
  unfolding table_ok_def map_le_def dom_def by fastforce

lemma elem_ok_mono: "elem_ok gs el \<Longrightarrow> gs \<subseteq>\<^sub>m gs' \<Longrightarrow> elem_ok gs' el"
  unfolding elem_ok_def by (meson table_ok_mono)

lemma table_ok_filter: "table_ok gs hs \<Longrightarrow> table_ok gs (filter P hs)"
proof -
  have "sorted_wrt (<) (map fst hs) \<Longrightarrow> sorted_wrt (<) (map fst (filter P hs))" for hs :: handlers
    by (induction hs) auto
  then show "table_ok gs hs \<Longrightarrow> table_ok gs (filter P hs)" by (auto simp: table_ok_def)
qed

section \<open>Preservation\<close>

lemma events_okD:
  assumes "events_ok s"
  shows "0 < next_guid s" "guid_of s h = Some k \<Longrightarrow> 0 < k \<and> k < next_guid s"
    "guid_of s h = Some k \<Longrightarrow> guid_of s h' = Some k \<Longrightarrow> h = h'" "elem_ok (guid_of s) (elems s e)"
proof -
  show "guid_of s h = Some k \<Longrightarrow> 0 < k \<and> k < next_guid s"
    using assms unfolding events_ok_def by (auto dest: ranI)
  show "guid_of s h = Some k \<Longrightarrow> guid_of s h' = Some k \<Longrightarrow> h = h'"
    using assms unfolding events_ok_def by (metis domI inj_onD)
qed (use assms in \<open>auto simp: events_ok_def\<close>)

lemma take_guid_ok:
  assumes "events_ok s" "take_guid h s = (g, s')"
  shows "events_ok s'" "guid_of s' h = Some g" "elems s' = elems s" "guid_of s \<subseteq>\<^sub>m guid_of s'"
    "h' \<noteq> h \<Longrightarrow> guid_of s' h' = guid_of s h'" "0 < g"
proof -
  have "events_ok s' \<and> guid_of s' h = Some g \<and> elems s' = elems s \<and> guid_of s \<subseteq>\<^sub>m guid_of s' \<and>
      (h' \<noteq> h \<longrightarrow> guid_of s' h' = guid_of s h') \<and> 0 < g"
  proof (cases "guid_of s h")
    case None
    let ?gs = "(guid_of s)(h \<mapsto> next_guid s)"
    have s': "g = next_guid s" "s' = s\<lparr>next_guid := Suc (next_guid s), guid_of := ?gs\<rparr>"
      using assms(2) None by (auto simp: take_guid_def)
    have le: "guid_of s \<subseteq>\<^sub>m ?gs" using None by (auto simp: map_le_def)
    have "guid_of s x \<noteq> Some (next_guid s)" for x using events_okD(2) [OF assms(1)] by blast
    moreover have inj: "inj_on (guid_of s) (dom (guid_of s))" using assms(1) by (simp add: events_ok_def)
    ultimately have "inj_on ?gs (dom ?gs)"
    proof (intro inj_onI)
      fix x y assume "x \<in> dom ?gs" "y \<in> dom ?gs" "?gs x = ?gs y"
      then show "x = y" using inj \<open>\<And>x. guid_of s x \<noteq> Some (next_guid s)\<close> [of x]
          \<open>\<And>x. guid_of s x \<noteq> Some (next_guid s)\<close> [of y]
        by (cases "x = h"; cases "y = h") (auto dest: inj_onD)
    qed
    moreover have "ran ?gs \<subseteq> {0<..<Suc (next_guid s)}"
    proof
      fix k assume "k \<in> ran ?gs"
      then have "k = next_guid s \<or> (\<exists>x. guid_of s x = Some k)" by (auto simp: ran_def split: if_splits)
      then show "k \<in> {0<..<Suc (next_guid s)}"
        using events_okD(1,2) [OF assms(1)] by (metis greaterThanLessThan_iff lessI less_Suc_eq)
    qed
    moreover have "elem_ok ?gs (elems s e)" for e
      using elem_ok_mono [OF events_okD(4) [OF assms(1)] le] .
    ultimately show ?thesis using s' le assms(1) by (simp add: events_ok_def)
  qed (use assms events_okD(2) [OF assms(1)] in \<open>auto simp: take_guid_def\<close>)
  then show "events_ok s'" "guid_of s' h = Some g" "elems s' = elems s" "guid_of s \<subseteq>\<^sub>m guid_of s'"
    "h' \<noteq> h \<Longrightarrow> guid_of s' h' = guid_of s h'" "0 < g" by auto
qed

lemma elem_ok_store:
  assumes "elem_ok gs el" "gs h = Some g"
  shows "elem_ok gs (store_handler t g h el)"
proof -
  have first: "table_ok gs (put g (Fn h) hs)" if "events el = Some m" "m t = Some hs" for m hs
    using assms that table_ok_put by (auto simp: elem_ok_def)
  have fresh: "table_ok gs (put g (Fn h) (case on_prop el t of Some f \<Rightarrow> put 0 f [] | None \<Rightarrow> []))"
    if "\<forall>m. events el = Some m \<longrightarrow> m t = None"
  proof (rule table_ok_put)
    have "on_prop el t \<noteq> Some HandleEvent" using assms(1) that by (force simp: elem_ok_def)
    then show "table_ok gs (case on_prop el t of Some f \<Rightarrow> put 0 f [] | None \<Rightarrow> [])"
      by (cases "on_prop el t") (auto simp: table_ok_def intro: fnval.exhaust)
  qed (rule assms(2))
  show ?thesis
    using assms(1) first fresh unfolding elem_ok_def store_handler_def Let_def
    by (auto split: option.splits)
qed

lemma elem_ok_delete: "elem_ok gs el \<Longrightarrow> elem_ok gs (delete_handler t g el)"
  unfolding elem_ok_def delete_handler_def by (auto split: option.splits simp: table_ok_filter)

lemma events_ok_upd:
  "events_ok s \<Longrightarrow> elem_ok (guid_of s) (f (elems s e)) \<Longrightarrow> events_ok (upd_elem e f s)"
  by (auto simp: events_ok_def upd_elem_def)

lemma dean_addEvent_ok:
  assumes "events_ok s"
  shows "events_ok (dean_addEvent e t h s)"
proof (cases "has_listener_api (elems s e)")
  case True
  then show ?thesis using assms events_okD(4) [OF assms, of e] unfolding dean_addEvent_def
    by (auto intro!: events_ok_upd simp: add_listener_def elem_ok_def)
next
  case False
  obtain g s' where g: "take_guid h s = (g, s')" by force
  note ok = take_guid_ok [OF assms g]
  have "elem_ok (guid_of s') (store_handler t g h (elems s' e))"
    by (rule elem_ok_store [OF events_okD(4) [OF ok(1)] ok(2)])
  with False g events_ok_upd [OF ok(1)] show ?thesis by (simp add: dean_addEvent_def)
qed

lemma removeEvent_ok:
  assumes "events_ok s"
  shows "events_ok (removeEvent e t h s)"
  using assms events_okD(4) [OF assms, of e] unfolding removeEvent_def
  by (auto intro!: events_ok_upd elem_ok_delete simp: elem_ok_def)

section \<open>Refinement of the native interface\<close>

lemma registered_upd_other: "e' \<noteq> e \<Longrightarrow> registered (upd_elem e f s) e' t = registered s e' t"
  by (simp add: registered_def handlers_of_def upd_elem_def)

lemma handlers_store:
  "handlers_of (upd_elem e (store_handler t g h) s) e t' =
     (if t' = t then put g (Fn h) (case events (elems s e) of
          Some m \<Rightarrow> (case m t of Some hs \<Rightarrow> hs | None \<Rightarrow> (case on_prop (elems s e) t of Some f \<Rightarrow> put 0 f [] | None \<Rightarrow> []))
        | None \<Rightarrow> (case on_prop (elems s e) t of Some f \<Rightarrow> put 0 f [] | None \<Rightarrow> []))
      else handlers_of s e t')"
  by (auto simp: handlers_of_def upd_elem_def store_handler_def Let_def split: option.splits)

lemma handlers_delete:
  "handlers_of (upd_elem e (delete_handler t g) s) e t' =
     (if t' = t then filter (\<lambda>(k, _). Some k \<noteq> g) (handlers_of s e t) else handlers_of s e t')"
  by (auto simp: handlers_of_def upd_elem_def delete_handler_def split: option.splits)

lemma handlers_of_ok: "events_ok s \<Longrightarrow> table_ok (guid_of s) (handlers_of s e t)"
  using events_okD(4) [of s e] by (simp add: handlers_of_def elem_ok_def table_ok_def [of _ "[]"] split: option.split)

lemma registered_store:
  assumes "events_ok s" "guid_of s h = Some g" "\<not> has_listener_api (elems s e)"
  shows "registered (upd_elem e (store_handler t g h) s) e t' =
    (if t' = t then insert h (registered s e t) else registered s e t')"
proof -
  have api: "\<not> has_listener_api (elems (upd_elem e (store_handler t g h) s) e)"
    and gs: "guid_of (upd_elem e (store_handler t g h) s) = guid_of s"
    using assms(3) by (simp_all add: upd_elem_def store_handler_def Let_def)
  let ?old = "case events (elems s e) of
          Some m \<Rightarrow> (case m t of Some hs \<Rightarrow> hs | None \<Rightarrow> (case on_prop (elems s e) t of Some f \<Rightarrow> put 0 f [] | None \<Rightarrow> []))
        | None \<Rightarrow> (case on_prop (elems s e) t of Some f \<Rightarrow> put 0 f [] | None \<Rightarrow> [])"
  have sorted: "sorted_wrt (<) (map fst ?old)"
    using events_okD(4) [OF assms(1), of e] by (auto simp: elem_ok_def table_ok_def split: option.split)
  have same: "(k, f) \<in> set ?old \<longleftrightarrow> (k, f) \<in> set (handlers_of s e t)" if "0 < k" for k f
    using that by (auto simp: handlers_of_def split: option.splits)
  have "h' = h \<or> (k, Fn h') \<in> set (handlers_of s e t)"
    if "(k, Fn h') \<in> set (put g (Fn h) ?old)" "guid_of s h' = Some k" for k h'
    using that same [of k] events_okD(2) [OF assms(1)] by (auto simp: set_put [OF sorted])
  moreover have "(k, Fn h') \<in> set (put g (Fn h) ?old)"
    if "h' = h \<or> (k, Fn h') \<in> set (handlers_of s e t)" "guid_of s h' = Some k" for k h'
    using that same [of k] events_okD(2,3) [OF assms(1)] assms(2) by (auto simp: set_put [OF sorted])
  ultimately show ?thesis
    using assms(2,3) api gs unfolding registered_def handlers_store by auto
qed

lemma dean_addEvent_registers:
  assumes "events_ok s"
  shows "registered (dean_addEvent e t h s) e' t' =
    (if e' = e \<and> t' = t then insert h (registered s e t) else registered s e' t')"
proof (cases "has_listener_api (elems s e)")
  case True
  then show ?thesis by (auto simp: dean_addEvent_def registered_def add_listener_def upd_elem_def handlers_of_def)
next
  case False
  obtain g s' where g: "take_guid h s = (g, s')" by force
  note ok = take_guid_ok [OF assms g]
  have same: "registered s' e t = registered s e t" for e t
  proof -
    have "guid_of s x = Some k" if "guid_of s' x = Some k" "(k, Fn x) \<in> set (handlers_of s e t)" for k x
    proof -
      have "0 < k" using events_okD(2) [OF ok(1)] that(1) by blast
      then show ?thesis using handlers_of_ok [OF assms, of e t] that(2) by (auto simp: table_ok_def)
    qed
    moreover have "guid_of s' x = Some k" if "guid_of s x = Some k" for x k
      using ok(4) that by (metis domI map_le_def)
    ultimately have "guid_of s' x = Some k \<and> (k, Fn x) \<in> set (handlers_of s e t) \<longleftrightarrow>
        guid_of s x = Some k \<and> (k, Fn x) \<in> set (handlers_of s e t)" for x k by blast
    moreover have "handlers_of s' e t = handlers_of s e t" using ok(3) by (simp add: handlers_of_def)
    ultimately show ?thesis unfolding registered_def using ok(3) by simp
  qed
  have "dean_addEvent e t h s = upd_elem e (store_handler t g h) s'"
    using False g by (simp add: dean_addEvent_def)
  moreover have "\<not> has_listener_api (elems s' e)" using False ok(3) by simp
  note registered_store [OF ok(1,2) this, of t t']
  ultimately show ?thesis using registered_upd_other [of e' e "store_handler t g h" s' t'] same
    by (cases "e' = e") simp_all
qed

lemma removeEvent_unregisters:
  assumes "events_ok s"
  shows "registered (removeEvent e t h s) e' t' =
    (if e' = e \<and> t' = t then registered s e t - {h} else registered s e' t')"
proof (cases "has_listener_api (elems s e)")
  case True
  then show ?thesis by (auto simp: removeEvent_def registered_def upd_elem_def handlers_of_def)
next
  case False
  let ?s = "upd_elem e (delete_handler t (guid_of s h)) s"
  have "\<not> has_listener_api (elems ?s e)" "guid_of ?s = guid_of s"
    using False by (auto simp: upd_elem_def delete_handler_def split: option.split)
  moreover have "guid_of s x = Some k \<Longrightarrow> x \<noteq> h \<Longrightarrow> Some k \<noteq> guid_of s h" for x k
    using events_okD(3) [OF assms] by metis
  ultimately have "registered ?s e t' = (if t' = t then registered s e t - {h} else registered s e t')"
    using False unfolding registered_def handlers_delete by (simp split del: if_split) auto
  then show ?thesis using False registered_upd_other [of e' e "delete_handler t (guid_of s h)" s t']
    by (cases "e' = e") (simp_all add: removeEvent_def)
qed

section \<open>Scripts\<close>

text \<open>A script registers and removes handlers in some order.\<close>

datatype reg_op = Add nat jsstr nat | Remove nat jsstr nat

fun run_op :: "reg_op \<Rightarrow> evstate \<Rightarrow> evstate" where
  "run_op (Add e t h) = dean_addEvent e t h"
| "run_op (Remove e t h) = removeEvent e t h"

text \<open>What the script means: a set of registrations.\<close>

fun spec_op :: "reg_op \<Rightarrow> (nat \<times> jsstr \<times> nat) set \<Rightarrow> (nat \<times> jsstr \<times> nat) set" where
  "spec_op (Add e t h) R = insert (e, t, h) R"
| "spec_op (Remove e t h) R = R - {(e, t, h)}"

definition regs :: "evstate \<Rightarrow> (nat \<times> jsstr \<times> nat) set" where
  "regs s = {(e, t, h). h \<in> registered s e t}"

lemma registered_regs: "registered s e t = {h. (e, t, h) \<in> regs s}"
  by (simp add: regs_def)

lemma run_op_refines: "events_ok s \<Longrightarrow> events_ok (run_op p s) \<and> regs (run_op p s) = spec_op p (regs s)"
  by (cases p) (auto simp: regs_def dean_addEvent_ok removeEvent_ok dean_addEvent_registers
      removeEvent_unregisters split: if_splits)

lemma run_ops_refine: "events_ok s \<Longrightarrow> events_ok (fold run_op ps s) \<and> regs (fold run_op ps s) = fold spec_op ps (regs s)"
  by (induction ps arbitrary: s) (auto simp: run_op_refines)

section \<open>Running the handlers\<close>

definition fn_id :: "fnval \<Rightarrow> nat" where
  "fn_id f = (case f of HandleEvent \<Rightarrow> 0 | Fn h \<Rightarrow> h)"

lemma handle_loop_run:
  assumes "table_ok gs (handlers_of s this (etype ev))" "set ks \<subseteq> fst ` set (handlers_of s this (etype ev))"
    and pure: "\<And>h x. run h ev (s, x) = (Inr (fl h), s, act h x)"
  shows "handle_loop run this ev ks rv (s, x) =
    (let fs = map (\<lambda>k. fn_id (the (map_of (handlers_of s this (etype ev)) k))) ks
     in (Inr (rv \<and> (\<forall>h \<in> set fs. \<not> fl h)), s, fold act fs x))"
  using assms(2)
proof (induction ks arbitrary: rv x)
  case (Cons k ks)
  then have "k \<in> fst ` set (handlers_of s this (etype ev))" by simp
  then obtain f where f: "map_of (handlers_of s this (etype ev)) k = Some f"
    by (metis map_of_eq_None_iff not_None_eq)
  then obtain h where "f = Fn h" using assms(1) map_of_SomeD [OF f] by (auto simp: table_ok_def)
  then have "handle_loop run this ev (k # ks) rv (s, x) = handle_loop run this ev ks (if fl h then False else rv) (s, act h x)"
    using f pure [of h x] by simp
  moreover have "set ks \<subseteq> fst ` set (handlers_of s this (etype ev))" using Cons.prems by simp
  note Cons.IH [OF this, of "if fl h then False else rv" "act h x"]
  ultimately show ?case using f \<open>f = Fn h\<close> by (simp add: Let_def fn_id_def)
qed simp

lemma sorted_keys_distinct: "sorted_wrt (<) (map fst hs) \<Longrightarrow> distinct (map fst (hs :: handlers))"
  using strict_sorted_iff by blast

lemma table_split:
  assumes "table_ok gs hs"
  obtains old new where "hs = old @ new" "length old \<le> 1" "\<forall>(k, f) \<in> set old. k = 0"
    "\<forall>(k, f) \<in> set new. 0 < k \<and> (\<exists>h. f = Fn h \<and> gs h = Some k)"
proof (cases "hs \<noteq> [] \<and> fst (hd hs) = 0")
  case True
  then obtain f hs' where hs: "hs = (0, f) # hs'" by (metis hd_Cons_tl prod.collapse)
  show thesis
    by (rule that [of "[(0, f)]" hs']) (use assms hs in \<open>fastforce simp: table_ok_def\<close>)+
next
  case False
  have "0 < k" if "(k, f) \<in> set hs" for k f
  proof (cases hs)
    case (Cons p ps)
    then have "0 < fst p" using False by simp
    moreover have "k = fst p \<or> fst p < k" using assms that Cons by (force simp: table_ok_def)
    ultimately show ?thesis by auto
  qed (use that in simp)
  then have "\<forall>(k, f) \<in> set hs. 0 < k \<and> (\<exists>h. f = Fn h \<and> gs h = Some k)"
    using assms by (fastforce simp: table_ok_def)
  then show thesis by (intro that [of "[]" hs]) simp_all
qed

lemma table_functions:
  assumes "table_ok gs hs"
  shows "\<exists>new. map (fn_id \<circ> snd) hs = map (fn_id \<circ> snd) (filter (\<lambda>p. fst p = 0) hs) @ new \<and> distinct new \<and>
    (\<forall>h. h \<in> set new \<longleftrightarrow> (\<exists>k > 0. gs h = Some k \<and> (k, Fn h) \<in> set hs))"
proof -
  obtain old new where split: "hs = old @ new" "length old \<le> 1" "\<forall>(k, f) \<in> set old. k = 0"
    "\<forall>(k, f) \<in> set new. 0 < k \<and> (\<exists>h. f = Fn h \<and> gs h = Some k)"
    by (rule table_split [OF assms])
  have "distinct (map fst hs)" using assms sorted_keys_distinct by (simp add: table_ok_def)
  then have dist: "distinct (map fst new)" using split(1) by simp
  have "inj_on (fn_id \<circ> snd) (set new)"
  proof (rule inj_onI)
    fix p q assume "p \<in> set new" "q \<in> set new" "(fn_id \<circ> snd) p = (fn_id \<circ> snd) q"
    then show "p = q" using split(4) [rule_format, of p] split(4) [rule_format, of q]
      by (cases p; cases q) (auto simp: fn_id_def)
  qed
  then have "distinct (map (fn_id \<circ> snd) new)" using dist by (auto simp: distinct_map)
  moreover have "h \<in> set (map (fn_id \<circ> snd) new) \<longleftrightarrow> (\<exists>k > 0. gs h = Some k \<and> (k, Fn h) \<in> set hs)" for h
  proof
    assume "h \<in> set (map (fn_id \<circ> snd) new)"
    then obtain k f where "(k, f) \<in> set new" "h = fn_id f" by auto
    then show "\<exists>k > 0. gs h = Some k \<and> (k, Fn h) \<in> set hs" using split(1,4) by (fastforce simp: fn_id_def)
  next
    assume "\<exists>k > 0. gs h = Some k \<and> (k, Fn h) \<in> set hs"
    then obtain k where "(k, Fn h) \<in> set new" using split(1,3) by fastforce
    then show "h \<in> set (map (fn_id \<circ> snd) new)" by (force simp: fn_id_def)
  qed
  moreover have "filter (\<lambda>p. fst p = 0) old = old" "filter (\<lambda>p. fst p = 0) new = []"
    using split(3,4) by (fastforce simp: filter_id_conv filter_empty_conv)+
  then have "filter (\<lambda>p. fst p = 0) hs = old" by (simp add: split(1))
  ultimately show ?thesis using split(1) by (intro exI [of _ "map (fn_id \<circ> snd) new"]) simp
qed

lemma handle_keys:
  assumes "table_ok gs hs"
  shows "map (\<lambda>k. fn_id (the (map_of hs k))) (map fst hs) = map (fn_id \<circ> snd) hs"
  using sorted_keys_distinct assms by (auto simp: table_ok_def map_of_is_SomeI)

section \<open>Properties\<close>

text \<open>C29: \<open>forEach\<close> on an array-like object returns whenever the block keeps the length below some
  bound; and when the block leaves the object alone, it is called on the elements in order, once
  each, and stops at the first throw.\<close>

theorem forEach_array_like:
  "((\<forall>v k t. len t < n \<longrightarrow> len (snd (block v k t)) < n) \<longrightarrow> len s < n \<longrightarrow>
      (\<exists>r. forEach (ArrayLike len item) block s = Some r)) \<and>
   ((\<forall>v k t. len t = n \<and> item t = f \<longrightarrow> len (snd (block v k t)) = n \<and> item (snd (block v k t)) = f) \<longrightarrow>
      len s = n \<longrightarrow> item s = f \<longrightarrow>
      forEach (ArrayLike len item) block s = Some (forE (\<lambda>j. block (Value (f j)) (Index j)) [0..<n] s))"
  using array_loop_measure [of len n "\<lambda>v i. block (Value v) (Index i)" s item 0]
    array_loop_forE [of len n item f "\<lambda>v i. block (Value v) (Index i)" s 0]
  by (auto simp: array_forEach_def)

theorem forEach_array_like_witness:
  "forEach (ArrayLike (length \<circ> fst) (\<lambda>s i. fst s ! i)) (\<lambda>v k s. (Inr (), fst s, snd s @ [(v, k)])) ([5, 6 :: nat], [])
     = Some (Inr (), [5, 6], [(Value 5, Index 0), (Value 6, Index 1)])
   \<and> (\<exists>r. forEach (ArrayLike (length \<circ> fst) (\<lambda>s i. fst s ! i)) (\<lambda>v k s. (Inr (), tl (fst s), snd s)) ([5, 6 :: nat], ()) = Some r)"
proof
  let ?len = "length \<circ> fst :: nat list \<times> (nat item \<times> key) list \<Rightarrow> nat"
  let ?block = "\<lambda>v k s. (Inr (), fst s, snd s @ [(v, k)]) :: unit res \<times> nat list \<times> (nat item \<times> key) list"
  have "(\<lambda>s i. fst s ! i) ([5, 6], []) = (!) [5, 6 :: nat]" by auto
  then show "forEach (ArrayLike ?len (\<lambda>s i. fst s ! i)) ?block ([5, 6 :: nat], [])
     = Some (Inr (), [5, 6], [(Value 5, Index 0), (Value 6, Index 1)])"
    using conjunct2 [OF forEach_array_like [of ?len 2 ?block "([5, 6], [])" "\<lambda>s i. fst s ! i" "(!) [5, 6]"]]
    by (simp add: upt_rec bindE_def)
  show "\<exists>r. forEach (ArrayLike (length \<circ> fst) (\<lambda>s i. fst s ! i)) (\<lambda>v k s. (Inr (), tl (fst s), snd s)) ([5, 6 :: nat], ()) = Some r"
    by (rule conjunct1 [OF forEach_array_like [of "length \<circ> fst" 3 "\<lambda>v k s. (Inr (), tl (fst s), snd s)"
          "([5, 6 :: nat], ())" "\<lambda>s i. fst s ! i"], rule_format]) auto
qed

text \<open>C14: after any script of registrations and removals, on any mix of elements with and without
  the native interface, exactly the handlers are registered that the script says, and the tables
  are well formed.\<close>

theorem registration_refines:
  assumes "events_ok s"
  shows "regs (fold run_op ps s) = fold spec_op ps (regs s) \<and> events_ok (fold run_op ps s)"
  using run_ops_refine [OF assms] by blast

definition blank_elem :: "bool \<Rightarrow> elem" where
  "blank_elem b = \<lparr>has_listener_api = b, listeners = [], events = None, on_prop = Map.empty\<rparr>"

definition blank_page :: evstate where
  "blank_page = \<lparr>next_guid = 1, guid_of = Map.empty, elems = (\<lambda>e. blank_elem (e = 0))\<rparr>"

lemma blank_page_ok: "events_ok blank_page" "regs blank_page = {}"
  by (auto simp: events_ok_def blank_page_def blank_elem_def elem_ok_def regs_def registered_def handlers_of_def)

theorem registration_refines_witness:
  "regs (fold run_op [Add 0 (lit ''click'') 7, Add 1 (lit ''click'') 7, Add 1 (lit ''click'') 8, Remove 1 (lit ''click'') 7] blank_page)
     = {(0, lit ''click'', 7), (1, lit ''click'', 8)}"
proof -
  have "fold spec_op [Add 0 (lit ''click'') 7, Add 1 (lit ''click'') 7, Add 1 (lit ''click'') 8, Remove 1 (lit ''click'') 7] {}
      = {(0, lit ''click'', 7), (1, lit ''click'', 8)}" by auto
  then show ?thesis using registration_refines [OF blank_page_ok(1)] blank_page_ok(2) by metis
qed

text \<open>C20: on an element without the native interface, if no handler throws or changes the registrations, the
  dispatcher runs every registered handler exactly once, after the handler the page had installed before, if any,
  and returns false if and only if one of them did.\<close>

theorem handleEvent_runs_registered:
  assumes "events_ok s" "\<not> has_listener_api (elems s e)" "events (elems s e) \<noteq> None"
    and "\<And>h x. run h ev (s, x) = (Inr (fl h), s, act h x)"
  shows "\<exists>old new. handleEvent run w e (Some ev) (s, x)
      = (Inr (\<forall>h \<in> set (old @ new). \<not> fl h), s, fold act (old @ new) x)
    \<and> old = map (fn_id \<circ> snd) (filter (\<lambda>p. fst p = 0) (handlers_of s e (etype ev)))
    \<and> distinct new \<and> set new = registered s e (etype ev)"
proof -
  let ?hs = "handlers_of s e (etype ev)"
  let ?old = "map (fn_id \<circ> snd) (filter (\<lambda>p. fst p = 0) ?hs)"
  note ok = handlers_of_ok [OF assms(1), of e "etype ev"]
  obtain new where fs: "map (fn_id \<circ> snd) ?hs = ?old @ new" "distinct new"
    "\<forall>h. h \<in> set new \<longleftrightarrow> (\<exists>k > 0. guid_of s h = Some k \<and> (k, Fn h) \<in> set ?hs)"
    using table_functions [OF ok] by blast
  have "handleEvent run w e (Some ev) (s, x) = handle_loop run e ev (map fst ?hs) True (s, x)"
    using assms(3) by (auto simp: handleEvent_def)
  also have "\<dots> = (let fs = ?old @ new in (Inr (True \<and> (\<forall>h \<in> set fs. \<not> fl h)), s, fold act fs x))"
    unfolding fs(1) [symmetric] handle_keys [OF ok, symmetric]
    by (rule handle_loop_run [OF ok]) (simp_all add: assms(4))
  finally have "handleEvent run w e (Some ev) (s, x) = (Inr (\<forall>h \<in> set (?old @ new). \<not> fl h), s, fold act (?old @ new) x)"
    by (simp add: Let_def)
  moreover have "set new = registered s e (etype ev)"
    using fs(3) assms(2) events_okD(2) [OF assms(1)] by (auto simp: registered_def)
  ultimately show ?thesis using fs(2) by blast
qed

definition click_type :: jsstr where
  "click_type = lit ''click''"

definition click_event :: event where
  "click_event = \<lparr>etype = click_type, patched = False, returnValue = True, cancelBubble = False\<rparr>"

definition clicked_page :: evstate where
  "clicked_page = fold run_op [Add 2 click_type 8, Add 2 click_type 7] blank_page"

lemma clicked_page_ok:
  "events_ok clicked_page" "registered clicked_page 2 click_type = {7, 8}"
  "\<not> has_listener_api (elems clicked_page 2)" "events (elems clicked_page 2) \<noteq> None"
  "filter (\<lambda>p. fst p = 0) (handlers_of clicked_page 2 click_type) = []"
proof -
  note r = run_ops_refine [OF blank_page_ok(1), of "[Add 2 click_type 8, Add 2 click_type 7]", folded clicked_page_def]
  show "events_ok clicked_page" using r by blast
  have "regs clicked_page = {(2, click_type, 7), (2, click_type, 8)}"
    using r blank_page_ok(2) by auto
  then show "registered clicked_page 2 click_type = {7, 8}" by (auto simp: registered_regs)
qed (simp_all add: clicked_page_def blank_page_def blank_elem_def dean_addEvent_def take_guid_def upd_elem_def
    store_handler_def Let_def handlers_of_def)

theorem handleEvent_runs_registered_witness:
  "\<exists>new. handleEvent (\<lambda>h ev (s, x). (Inr (h = 7), s, h # x)) None 2 (Some click_event) (clicked_page, [])
      = (Inr False, clicked_page, rev new) \<and> set new = {7, 8}"
proof -
  obtain old new where r: "handleEvent (\<lambda>h ev (s, x). (Inr (h = 7), s, h # x)) None 2 (Some click_event) (clicked_page, [])
      = (Inr (\<forall>h \<in> set (old @ new). h \<noteq> 7), clicked_page, fold (#) (old @ new) [])"
      "old = map (fn_id \<circ> snd) (filter (\<lambda>p. fst p = 0) (handlers_of clicked_page 2 (etype click_event)))"
      "set new = registered clicked_page 2 (etype click_event)"
    using handleEvent_runs_registered [OF clicked_page_ok(1,3,4), of "\<lambda>h ev (s, x). (Inr (h = 7), s, h # x)"
        click_event "\<lambda>h. h = 7" "(#)" None "[]"] by auto
  then show ?thesis by (intro exI [of _ new]) (simp add: clicked_page_ok fold_Cons_rev click_event_def)
qed

end
