(* ===== verification/ES5_Arrays.thy ===== *)
theory ES5_Arrays
  imports JS_Effect JS_Num
begin

text \<open>
  The array methods of es5-shim.js.  They are generic: they work on any object with a length and
  properties named by integers.  Such an object is a record of its own indexed properties, of the
  ones it inherits, and of its length; holes are absent properties.  Callbacks are effects on a
  state that holds the object, so they may add, change and delete the very properties that are
  being enumerated.
\<close>

section \<open>Conversions\<close>

text \<open>\<open>ES.ToInteger\<close>: not-a-number becomes 0, the infinities stay, other numbers are truncated.\<close>

datatype xint = NegInf | PosInf | Whole int

definition ToInteger :: "jsnum \<Rightarrow> xint" where
  "ToInteger n =
     (case n of
        NaN \<Rightarrow> Whole 0
      | Infinite neg \<Rightarrow> if neg then NegInf else PosInf
      | Fin q \<Rightarrow> Whole (if q > 0 then \<lfloor>\<bar>q\<bar>\<rfloor> else - \<lfloor>\<bar>q\<bar>\<rfloor>))"

text \<open>\<open>x >>> 0\<close>: the truncated number modulo \<open>2 ^ 32\<close>, and 0 for a number that is not finite.\<close>

definition ToUint32 :: "jsnum \<Rightarrow> nat" where
  "ToUint32 n = (case ToInteger n of Whole i \<Rightarrow> nat (i mod 2 ^ 32) | _ \<Rightarrow> 0)"

lemma ToUint32_bound: "ToUint32 n < 2 ^ 32"
proof -
  have "nat (i mod 2 ^ 32) < 2 ^ 32" for i :: int
    using pos_mod_bound [of "2 ^ 32" i] by (simp add: nat_less_iff)
  then show ?thesis by (simp add: ToUint32_def split: xint.split)
qed

lemma ToUint32_nat [simp]: "n < 2 ^ 32 \<Longrightarrow> ToUint32 (Fin (of_nat n)) = n"
  by (cases n) (auto simp: ToUint32_def ToInteger_def)

section \<open>Objects\<close>

record 'v obj =
  is_array :: bool
  own :: "nat \<rightharpoonup> 'v"
  inherited :: "nat \<rightharpoonup> 'v"
  olen :: jsnum

definition length_of :: "'v obj \<Rightarrow> nat" where
  "length_of o' = ToUint32 (olen o')"

text \<open>\<open>i in self\<close> and \<open>self[i]\<close> look at the prototype chain too.\<close>

definition get_prop :: "'v obj \<Rightarrow> nat \<Rightarrow> 'v option" where
  "get_prop o' i = (case own o' i of Some v \<Rightarrow> Some v | None \<Rightarrow> inherited o' i)"

text \<open>Writing an indexed property of an array beyond its end moves the end; on other objects the
  length is a property like any other.\<close>

definition set_prop :: "nat \<Rightarrow> 'v \<Rightarrow> 'v obj \<Rightarrow> 'v obj" where
  "set_prop i v o' =
     o'\<lparr>own := (own o')(i \<mapsto> v),
       olen := (if is_array o' \<and> length_of o' \<le> i \<and> i < 2 ^ 32 - 1 then Fin (of_nat (Suc i)) else olen o')\<rparr>"

definition del_prop :: "nat \<Rightarrow> 'v obj \<Rightarrow> 'v obj" where
  "del_prop i o' = o'\<lparr>own := (own o')(i := None)\<rparr>"

text \<open>Assigning the length of an array cuts off what lies beyond it and is a range error from
  \<open>2 ^ 32\<close> on.\<close>

definition set_length :: "nat \<Rightarrow> 'v obj \<Rightarrow> unit res \<times> 'v obj" where
  "set_length n o' =
     (if is_array o' then
        if n < 2 ^ 32 then (Inr (), o'\<lparr>own := (\<lambda>i. if i < n then own o' i else None), olen := Fin (of_nat n)\<rparr>)
        else (Inl RangeError, o')
      else (Inr (), o'\<lparr>olen := Fin (of_nat n)\<rparr>))"

definition empty_array :: "'v obj" where
  "empty_array = \<lparr>is_array = True, own = Map.empty, inherited = Map.empty, olen = Fin 0\<rparr>"

definition array_of :: "'v list \<Rightarrow> 'v obj" where
  "array_of vs = \<lparr>is_array = True, own = (\<lambda>i. if i < length vs then Some (vs ! i) else None),
     inherited = Map.empty, olen = Fin (of_nat (length vs))\<rparr>"

section \<open>Enumeration with a callback\<close>

type_synonym ('v, 'x, 'a) aeff = "('v obj \<times> 'x, 'a) eff"

text \<open>A callback gets the value of \<open>this\<close>, the element and its index; \<open>None\<close> is an argument that
  cannot be called.\<close>

type_synonym ('v, 'x, 't, 'a) callback = "('t \<Rightarrow> 'v \<Rightarrow> nat \<Rightarrow> ('v, 'x, 'a) aeff) option"

definition read_prop :: "nat \<Rightarrow> ('v, 'x, 'v option) aeff" where
  "read_prop i = gets (\<lambda>(o', _). get_prop o' i)"

text \<open>What the methods share: \<open>ToObject(this)\<close> rejects \<open>null\<close> and \<open>undefined\<close>, then the length is
  read, then the callback is checked.\<close>

definition prologue :: "bool \<Rightarrow> 'c option \<Rightarrow> ('c \<Rightarrow> nat \<Rightarrow> ('v, 'x, 'a) aeff) \<Rightarrow> ('v, 'x, 'a) aeff" where
  "prologue nullish cb body =
     (if nullish then raise TypeError
      else bindE (gets (\<lambda>(o', _). length_of o')) (\<lambda>len.
        case cb of None \<Rightarrow> raise TypeError | Some f \<Rightarrow> body f len))"

definition forEach_es5 :: "bool \<Rightarrow> ('v, 'x, 't, unit) callback \<Rightarrow> 't \<Rightarrow> ('v, 'x, unit) aeff" where
  "forEach_es5 nullish cb T =
     prologue nullish cb (\<lambda>f len.
       forE (\<lambda>i. bindE (read_prop i) (\<lambda>p. case p of None \<Rightarrow> ret () | Some v \<Rightarrow> f T v i)) [0..<len])"

fun map_loop :: "('v \<Rightarrow> nat \<Rightarrow> ('v, 'x, 'b) aeff) \<Rightarrow> nat list \<Rightarrow> 'b obj \<Rightarrow> ('v, 'x, 'b obj) aeff" where
  "map_loop f [] result = ret result"
| "map_loop f (i # is) result =
     bindE (read_prop i) (\<lambda>p. case p of
         None \<Rightarrow> map_loop f is result
       | Some v \<Rightarrow> bindE (f v i) (\<lambda>b. map_loop f is (set_prop i b result)))"

definition map_es5 :: "bool \<Rightarrow> ('v, 'x, 't, 'b) callback \<Rightarrow> 't \<Rightarrow> ('v, 'x, 'b obj) aeff" where
  "map_es5 nullish cb T =
     prologue nullish cb (\<lambda>f len. map_loop (f T) [0..<len] (empty_array\<lparr>olen := Fin (of_nat len)\<rparr>))"

fun filter_loop :: "('v \<Rightarrow> nat \<Rightarrow> ('v, 'x, bool) aeff) \<Rightarrow> nat list \<Rightarrow> 'v list \<Rightarrow> ('v, 'x, 'v list) aeff" where
  "filter_loop f [] result = ret result"
| "filter_loop f (i # is) result =
     bindE (read_prop i) (\<lambda>p. case p of
         None \<Rightarrow> filter_loop f is result
       | Some v \<Rightarrow> bindE (f v i) (\<lambda>b. filter_loop f is (if b then result @ [v] else result)))"

definition filter_es5 :: "bool \<Rightarrow> ('v, 'x, 't, bool) callback \<Rightarrow> 't \<Rightarrow> ('v, 'x, 'v list) aeff" where
  "filter_es5 nullish cb T = prologue nullish cb (\<lambda>f len. filter_loop (f T) [0..<len] [])"

text \<open>\<open>every\<close> stops with \<open>false\<close> at the first element that fails, \<open>some\<close> with \<open>true\<close> at the first
  that passes.\<close>

fun every_loop :: "('v \<Rightarrow> nat \<Rightarrow> ('v, 'x, bool) aeff) \<Rightarrow> nat list \<Rightarrow> ('v, 'x, bool) aeff" where
  "every_loop f [] = ret True"
| "every_loop f (i # is) =
     bindE (read_prop i) (\<lambda>p. case p of
         None \<Rightarrow> every_loop f is
       | Some v \<Rightarrow> bindE (f v i) (\<lambda>b. if \<not> b then ret False else every_loop f is))"

definition every_es5 :: "bool \<Rightarrow> ('v, 'x, 't, bool) callback \<Rightarrow> 't \<Rightarrow> ('v, 'x, bool) aeff" where
  "every_es5 nullish cb T = prologue nullish cb (\<lambda>f len. every_loop (f T) [0..<len])"

fun some_loop :: "('v \<Rightarrow> nat \<Rightarrow> ('v, 'x, bool) aeff) \<Rightarrow> nat list \<Rightarrow> ('v, 'x, bool) aeff" where
  "some_loop f [] = ret False"
| "some_loop f (i # is) =
     bindE (read_prop i) (\<lambda>p. case p of
         None \<Rightarrow> some_loop f is
       | Some v \<Rightarrow> bindE (f v i) (\<lambda>b. if b then ret True else some_loop f is))"

definition some_es5 :: "bool \<Rightarrow> ('v, 'x, 't, bool) callback \<Rightarrow> 't \<Rightarrow> ('v, 'x, bool) aeff" where
  "some_es5 nullish cb T = prologue nullish cb (\<lambda>f len. some_loop (f T) [0..<len])"

section \<open>Reduction\<close>

fun reduce_loop :: "('v \<Rightarrow> 'v \<Rightarrow> nat \<Rightarrow> ('v, 'x, 'v) aeff) \<Rightarrow> nat list \<Rightarrow> 'v \<Rightarrow> ('v, 'x, 'v) aeff" where
  "reduce_loop f [] result = ret result"
| "reduce_loop f (i # is) result =
     bindE (read_prop i) (\<lambda>p. case p of
         None \<Rightarrow> reduce_loop f is result
       | Some v \<Rightarrow> bindE (f result v i) (\<lambda>r. reduce_loop f is r))"

text \<open>Without an initial value the first element present is taken, and the loop goes on with the
  indices after it; an object without elements is a type error.\<close>

fun reduce_first :: "nat list \<Rightarrow> ('v, 'x, 'v \<times> nat list) aeff" where
  "reduce_first [] = raise TypeError"
| "reduce_first (i # is) =
     bindE (read_prop i) (\<lambda>p. case p of Some v \<Rightarrow> ret (v, is) | None \<Rightarrow> reduce_first is)"

definition reduce_over :: "bool \<Rightarrow> ('v \<Rightarrow> 'v \<Rightarrow> nat \<Rightarrow> ('v, 'x, 'v) aeff) option \<Rightarrow> 'v option \<Rightarrow>
    (nat \<Rightarrow> nat list) \<Rightarrow> ('v, 'x, 'v) aeff" where
  "reduce_over nullish cb init order =
     prologue nullish cb (\<lambda>f len.
       case init of
         Some v \<Rightarrow> reduce_loop f (order len) v
       | None \<Rightarrow> bindE (reduce_first (order len)) (\<lambda>(v, is). reduce_loop f is v))"

definition reduce_es5 :: "bool \<Rightarrow> ('v \<Rightarrow> 'v \<Rightarrow> nat \<Rightarrow> ('v, 'x, 'v) aeff) option \<Rightarrow> 'v option \<Rightarrow> ('v, 'x, 'v) aeff" where
  "reduce_es5 nullish cb init = reduce_over nullish cb init (\<lambda>len. [0..<len])"

definition reduceRight_es5 :: "bool \<Rightarrow> ('v \<Rightarrow> 'v \<Rightarrow> nat \<Rightarrow> ('v, 'x, 'v) aeff) option \<Rightarrow> 'v option \<Rightarrow> ('v, 'x, 'v) aeff" where
  "reduceRight_es5 nullish cb init = reduce_over nullish cb init (\<lambda>len. rev [0..<len])"

section \<open>Search\<close>

text \<open>\<open>===\<close> on the elements is a parameter: it is not reflexive on not-a-number.  The answer is the
  index or -1.\<close>

definition found :: "nat option \<Rightarrow> int" where
  "found r = (case r of None \<Rightarrow> -1 | Some i \<Rightarrow> int i)"

definition holds_at :: "('v \<Rightarrow> 'v \<Rightarrow> bool) \<Rightarrow> 'v obj \<Rightarrow> 'v \<Rightarrow> nat \<Rightarrow> bool" where
  "holds_at eq o' x i = (case get_prop o' i of None \<Rightarrow> False | Some v \<Rightarrow> eq v x)"

definition indexOf_start :: "nat \<Rightarrow> xint \<Rightarrow> nat" where
  "indexOf_start len i =
     (case i of
        PosInf \<Rightarrow> len
      | NegInf \<Rightarrow> 0
      | Whole i \<Rightarrow> if i \<ge> 0 then nat i else nat (max 0 (int len + i)))"

definition indexOf_es5 :: "('v \<Rightarrow> 'v \<Rightarrow> bool) \<Rightarrow> 'v obj \<Rightarrow> 'v \<Rightarrow> jsnum option \<Rightarrow> int" where
  "indexOf_es5 eq o' x from =
     (let len = length_of o'
      in if len = 0 then -1
         else let i = (case from of None \<Rightarrow> 0 | Some n \<Rightarrow> indexOf_start len (ToInteger n))
              in found (List.find (holds_at eq o' x) [i..<len]))"

text \<open>The last index to look at plus one: \<open>min(length - 1, i)\<close>, or counted from the end.\<close>

definition lastIndexOf_stop :: "nat \<Rightarrow> xint \<Rightarrow> nat" where
  "lastIndexOf_stop len i =
     (case i of
        PosInf \<Rightarrow> len
      | NegInf \<Rightarrow> 0
      | Whole i \<Rightarrow> let i = min (int len - 1) i; i = (if i \<ge> 0 then i else int len - \<bar>i\<bar>) in nat (i + 1))"

definition lastIndexOf_es5 :: "('v \<Rightarrow> 'v \<Rightarrow> bool) \<Rightarrow> 'v obj \<Rightarrow> 'v \<Rightarrow> jsnum option \<Rightarrow> int" where
  "lastIndexOf_es5 eq o' x from =
     (let len = length_of o'
      in if len = 0 then -1
         else let n = (case from of None \<Rightarrow> len | Some n \<Rightarrow> lastIndexOf_stop len (ToInteger n))
              in found (List.find (holds_at (\<lambda>v x. eq x v) o' x) (rev [0..<n])))"

section \<open>Splicing\<close>

definition splice_start :: "nat \<Rightarrow> xint \<Rightarrow> nat" where
  "splice_start len r =
     (case r of
        NegInf \<Rightarrow> 0
      | PosInf \<Rightarrow> len
      | Whole i \<Rightarrow> if i < 0 then nat (max (int len + i) 0) else nat (min i (int len)))"

definition splice_count :: "nat \<Rightarrow> xint \<Rightarrow> nat" where
  "splice_count avail c =
     (case c of
        NegInf \<Rightarrow> 0
      | PosInf \<Rightarrow> avail
      | Whole i \<Rightarrow> nat (min (max i 0) (int avail)))"

text \<open>\<open>if (owns(O, from)) O[to] = O[from]; else delete O[to];\<close>\<close>

definition move_prop :: "nat \<Rightarrow> nat \<Rightarrow> 'v obj \<Rightarrow> 'v obj" where
  "move_prop src to o' = (case own o' src of Some v \<Rightarrow> set_prop to v o' | None \<Rightarrow> del_prop to o')"

definition splice_removed :: "nat \<Rightarrow> nat \<Rightarrow> 'v obj \<Rightarrow> 'v obj" where
  "splice_removed start dc o' =
     fold (\<lambda>k A. case own o' (start + k) of Some v \<Rightarrow> set_prop k v A | None \<Rightarrow> A) [0..<dc] empty_array"

definition splice_shrink :: "nat \<Rightarrow> nat \<Rightarrow> nat \<Rightarrow> nat \<Rightarrow> 'v obj \<Rightarrow> 'v obj" where
  "splice_shrink len start dc n o' =
     fold (\<lambda>k. del_prop (k - 1)) (rev [Suc (len - dc + n)..<Suc len])
       (fold (\<lambda>k. move_prop (k + dc) (k + n)) [start..<len - dc] o')"

definition splice_grow :: "nat \<Rightarrow> nat \<Rightarrow> nat \<Rightarrow> nat \<Rightarrow> 'v obj \<Rightarrow> 'v obj" where
  "splice_grow len start dc n o' =
     fold (\<lambda>k. move_prop (k + dc - 1) (k + n - 1)) (rev [Suc start..<Suc (len - dc)]) o'"

definition splice_insert :: "nat \<Rightarrow> 'v list \<Rightarrow> 'v obj \<Rightarrow> 'v obj" where
  "splice_insert start items o' = fold (\<lambda>(i, v). set_prop (start + i) v) (enumerate 0 items) o'"

text \<open>The method installed when the native one mishandles sparse arrays.  An argument that is not
  given is \<open>undefined\<close>, which converts to not-a-number.\<close>

definition splice_es5 :: "jsnum \<Rightarrow> jsnum \<Rightarrow> 'v list \<Rightarrow> 'v obj \<Rightarrow> 'v obj res \<times> 'v obj" where
  "splice_es5 start deleteCount items o' =
     (let len = length_of o';
          actualStart = splice_start len (ToInteger start);
          actualDeleteCount = splice_count (len - actualStart) (ToInteger deleteCount);
          A = splice_removed actualStart actualDeleteCount o';
          n = length items;
          o1 = (if n < actualDeleteCount then splice_shrink len actualStart actualDeleteCount n o'
                else if n > actualDeleteCount then splice_grow len actualStart actualDeleteCount n o'
                else o');
          o2 = splice_insert actualStart items o1
      in case set_length (len - actualDeleteCount + n) o2 of
           (Inl e, o3) \<Rightarrow> (Inl e, o3)
         | (Inr _, o3) \<Rightarrow> (Inr A, o3))"

text \<open>The two wrappers around the native \<open>splice\<close>, which is a parameter.  The first argument may be
  missing; the second is missing, a number, or something else, whose numeric value is given.\<close>

type_synonym 'v nsplice = "jsnum \<Rightarrow> jsnum \<Rightarrow> 'v list \<Rightarrow> 'v obj \<Rightarrow> 'v obj res \<times> 'v obj"

datatype dc_arg = DcMissing | DcNumber jsnum | DcOther jsnum

definition xint_num :: "xint \<Rightarrow> jsnum" where
  "xint_num x = (case x of NegInf \<Rightarrow> Infinite True | PosInf \<Rightarrow> Infinite False | Whole i \<Rightarrow> Fin (of_int i))"

definition splice_noop :: "('a \<Rightarrow> 'v obj \<Rightarrow> 'v obj res \<times> 'v obj) \<Rightarrow> 'a option \<Rightarrow> 'v obj \<Rightarrow> 'v obj res \<times> 'v obj" where
  "splice_noop array_splice args o' =
     (case args of None \<Rightarrow> (Inr empty_array, o') | Some a \<Rightarrow> array_splice a o')"

definition splice_emptyobj :: "'v nsplice \<Rightarrow> (jsnum \<times> dc_arg \<times> 'v list) option \<Rightarrow> 'v obj \<Rightarrow> 'v obj res \<times> 'v obj" where
  "splice_emptyobj array_splice args o' =
     (case args of
        None \<Rightarrow> (Inr empty_array, o')
      | Some (start, deleteCount, items) \<Rightarrow>
          let o1 = o'\<lparr>olen := (case ToInteger (olen o') of NegInf \<Rightarrow> Fin 0 | PosInf \<Rightarrow> Infinite False | Whole i \<Rightarrow> Fin (of_int (max i 0)))\<rparr>
          in array_splice start
               (case deleteCount of
                  DcNumber n \<Rightarrow> n
                | DcMissing \<Rightarrow> num_sub (olen o1) start
                | DcOther n \<Rightarrow> xint_num (ToInteger n)) items o1)"

section \<open>Appending\<close>

definition pushShim :: "'v list \<Rightarrow> 'v obj \<Rightarrow> nat res \<times> 'v obj" where
  "pushShim args o' =
     (let n = length_of o';
          o1 = fold (\<lambda>(i, v). set_prop (n + i) v) (enumerate 0 args) o'
      in case set_length (n + length args) o1 of
           (Inl e, o2) \<Rightarrow> (Inl e, o2)
         | (Inr _, o2) \<Rightarrow> (Inr (n + length args), o2))"

definition push_es5 :: "('v list \<Rightarrow> 'v obj \<Rightarrow> nat res \<times> 'v obj) \<Rightarrow> 'v list \<Rightarrow> 'v obj \<Rightarrow> nat res \<times> 'v obj" where
  "push_es5 array_push args o' = (if is_array o' then array_push args o' else pushShim args o')"

text \<open>Wrappers that repair the return value or the arguments of a native method.\<close>

definition unshift_es5 :: "('v list \<Rightarrow> 'v obj \<Rightarrow> 'u res \<times> 'v obj) \<Rightarrow> 'v list \<Rightarrow> 'v obj \<Rightarrow> jsnum res \<times> 'v obj" where
  "unshift_es5 array_unshift args o' =
     (case array_unshift args o' of
        (Inl e, o1) \<Rightarrow> (Inl e, o1)
      | (Inr _, o1) \<Rightarrow> (Inr (olen o1), o1))"

definition join_es5 :: "('v obj \<Rightarrow> jsstr \<Rightarrow> jsstr) \<Rightarrow> 'v obj \<Rightarrow> jsstr option \<Rightarrow> jsstr" where
  "join_es5 originalJoin o' separator =
     originalJoin o' (case separator of None \<Rightarrow> lit '','' | Some sep \<Rightarrow> sep)"

text \<open>\<open>sort(compareFn)\<close>: the argument is missing, a value that is not callable, or a comparison function.\<close>

datatype not_callable = Null | Plain | Expression | Other

datatype 'c compare_arg = Undefined | NotCallable not_callable | Callable 'c

definition sort_es5 :: "('v obj \<Rightarrow> 'c option \<Rightarrow> 'v obj res) \<Rightarrow> 'v obj \<Rightarrow> 'c compare_arg \<Rightarrow> 'v obj res" where
  "sort_es5 arraySort o' arg =
     (case arg of
        Undefined \<Rightarrow> arraySort o' None
      | NotCallable _ \<Rightarrow> Inl TypeError
      | Callable f \<Rightarrow> arraySort o' (Some f))"

end
