(* ===== verification/ES5_Array_Laws.thy ===== *)
theory ES5_Array_Laws
  imports ES5_Arrays
begin

text \<open>
  What the array methods of es5-shim.js guarantee.  Splicing an array, holes included, is cutting
  and joining the list of its slots; the contract is the locale \<open>splice_contract\<close>, which the
  shim's own loops satisfy and on which the wrappers around a native \<open>splice\<close> rely.  The methods
  that take a callback are the corresponding list functions on the elements present when the
  callback leaves the array alone.
\<close>

section \<open>The effect of the loops on the own properties\<close>

lemma own_simps [simp]:
  "own (set_prop i v o') = (own o')(i \<mapsto> v)" "own (del_prop i o') = (own o')(i := None)"
  "own (move_prop a b o') = (own o')(b := own o' a)"
  by (auto simp: set_prop_def del_prop_def move_prop_def split: option.split)

lemma frame_simps [simp]:
  "is_array (set_prop i v o') = is_array o'" "is_array (del_prop i o') = is_array o'"
  "is_array (move_prop a b o') = is_array o'"
  "inherited (set_prop i v o') = inherited o'" "inherited (del_prop i o') = inherited o'"
  "inherited (move_prop a b o') = inherited o'"
  by (auto simp: set_prop_def del_prop_def move_prop_def split: option.split)

lemma fold_frame:
  "(\<And>x o'. is_array (f x o') = is_array o') \<Longrightarrow> is_array (fold f xs o') = is_array o'"
  "(\<And>x o'. inherited (f x o') = inherited o') \<Longrightarrow> inherited (fold f xs o') = inherited o'"
  by (induction xs arbitrary: o') auto

lemma own_fold: "(\<And>x o'. own (f x o') = g x (own o')) \<Longrightarrow> own (fold f xs o') = fold g xs (own o')"
  by (induction xs arbitrary: o') auto

lemma move_down:
  fixes m :: "nat \<Rightarrow> 'a"
  assumes "n < c"
  shows "fold (\<lambda>k m. m(k + n := m (k + c))) [a..<b] m = (\<lambda>i. if a + n \<le> i \<and> i < b + n then m (i - n + c) else m i)"
proof (induction b)
  case (Suc b)
  then show ?case using assms by (cases "a \<le> b") (auto simp: fun_eq_iff)
qed (auto simp: fun_eq_iff)

lemma move_up:
  fixes m :: "nat \<Rightarrow> 'a"
  assumes "c < n" "a \<le> b"
  shows "fold (\<lambda>k m. m(k + n - 1 := m (k + c - 1))) (rev [Suc a..<Suc b]) m
    = (\<lambda>i. if a + n \<le> i \<and> i < b + n then m (i - n + c) else m i)"
  using assms(2)
proof (induction a rule: inc_induct)
  case (step a)
  have "rev [Suc a..<Suc b] = rev [Suc (Suc a)..<Suc b] @ [Suc a]" using step.hyps by (simp add: upt_rec)
  then show ?case using step assms(1) by (auto simp: fun_eq_iff)
qed (auto simp: fun_eq_iff)

lemma delete_down:
  assumes "x \<le> y"
  shows "fold (\<lambda>k m. m(k - 1 := None)) (rev [Suc x..<Suc y]) m = (\<lambda>i. if x \<le> i \<and> i < y then None else m i)"
  using assms
proof (induction x rule: inc_induct)
  case (step x)
  have "rev [Suc x..<Suc y] = rev [Suc (Suc x)..<Suc y] @ [Suc x]" using step.hyps by (simp add: upt_rec)
  then show ?case using step by (auto simp: fun_eq_iff)
qed (auto simp: fun_eq_iff)

lemma own_insert:
  "own (fold (\<lambda>(i, v). set_prop (st + i) v) (enumerate k items) o') =
     (\<lambda>i. if st + k \<le> i \<and> i < st + k + length items then Some (items ! (i - st - k)) else own o' i)"
proof (induction items arbitrary: k o')
  case (Cons v items)
  have "(v # items) ! (i - st - k) = items ! (i - st - Suc k)" if "Suc (st + k) \<le> i" for i
    using that by (simp add: nth_Cons')
  then show ?case by (auto simp: fun_eq_iff Cons)
qed (auto simp: fun_eq_iff)

lemma own_shrink:
  assumes "n < c" "st + c \<le> len"
  shows "own (splice_shrink len st c n o') =
    (\<lambda>i. if i < st + n then own o' i else if i < len - c + n then own o' (i - n + c)
         else if i < len then None else own o' i)"
proof -
  have "own (splice_shrink len st c n o') =
      fold (\<lambda>k m. m(k - 1 := None)) (rev [Suc (len - c + n)..<Suc len])
        (fold (\<lambda>k m. m(k + n := m (k + c))) [st..<len - c] (own o'))"
    unfolding splice_shrink_def
    by (subst own_fold [where g = "\<lambda>k m. m(k - 1 := None)"], simp)
      (subst own_fold [where g = "\<lambda>k m. m(k + n := m (k + c))"], simp_all)
  also have "\<dots> = (\<lambda>i. if len - c + n \<le> i \<and> i < len then None
      else if st + n \<le> i \<and> i < len - c + n then own o' (i - n + c) else own o' i)"
    using assms by (subst delete_down) (auto simp: move_down)
  also have "\<dots> = (\<lambda>i. if i < st + n then own o' i else if i < len - c + n then own o' (i - n + c)
         else if i < len then None else own o' i)"
    using assms by (intro ext) auto
  finally show ?thesis .
qed

lemma own_grow:
  assumes "c < n" "st + c \<le> len"
  shows "own (splice_grow len st c n o') =
    (\<lambda>i. if st + n \<le> i \<and> i < len - c + n then own o' (i - n + c) else own o' i)"
proof -
  have "own (splice_grow len st c n o') =
      fold (\<lambda>k m. m(k + n - 1 := m (k + c - 1))) (rev [Suc st..<Suc (len - c)]) (own o')"
    unfolding splice_grow_def by (rule own_fold) simp
  also have "\<dots> = (\<lambda>i. if st + n \<le> i \<and> i < len - c + n then own o' (i - n + c) else own o' i)"
    by (rule move_up) (use assms in auto)
  finally show ?thesis .
qed

lemma own_removed: "own (splice_removed st c o') = (\<lambda>i. if i < c then own o' (st + i) else None)"
proof (induction c)
  case (Suc c)
  have "own (splice_removed st (Suc c) o') = (own (splice_removed st c o'))(c := own o' (st + c))"
    using Suc by (auto simp: splice_removed_def fun_eq_iff split: option.split)
  then show ?case using Suc by (auto simp: fun_eq_iff less_Suc_eq)
qed (simp add: splice_removed_def empty_array_def fun_eq_iff)


section \<open>Arrays as lists of slots\<close>

definition array_ok :: "'v obj \<Rightarrow> bool" where
  "array_ok o' \<longleftrightarrow> is_array o' \<and> olen o' = Fin (of_nat (length_of o')) \<and> dom (own o') \<subseteq> {..<length_of o'}"

definition slots :: "'v obj \<Rightarrow> 'v option list" where
  "slots o' = map (own o') [0..<length_of o']"

lemma slots_simps [simp]: "length (slots o') = length_of o'" "i < length_of o' \<Longrightarrow> slots o' ! i = own o' i"
  by (simp_all add: slots_def)

text \<open>What splicing a list means.\<close>

definition spliced :: "nat \<Rightarrow> nat \<Rightarrow> 'a list \<Rightarrow> 'a list \<Rightarrow> 'a list" where
  "spliced st c items xs = take st xs @ items @ drop (st + c) xs"

lemma spliced_nth:
  assumes "st + c \<le> length xs" "i < length xs - c + length items"
  shows "spliced st c items xs ! i = (if i < st then xs ! i
    else if i < st + length items then items ! (i - st) else xs ! (i - length items + c))"
proof -
  have "st + c + (i - st - length items) = i - length items + c" if "st + length items \<le> i" using that by simp
  moreover have "min (length xs) st = st" using assms(1) by simp
  ultimately show ?thesis using assms by (auto simp: spliced_def nth_append)
qed

lemma length_spliced: "st + c \<le> length xs \<Longrightarrow> length (spliced st c items xs) = length xs - c + length items"
  by (auto simp: spliced_def)

lemma splice_start_le: "splice_start len r \<le> len"
  by (auto simp: splice_start_def split: xint.split)

lemma splice_count_le: "splice_count avail r \<le> avail"
  by (auto simp: splice_count_def split: xint.split)

lemma splice_frame [simp]:
  "is_array (splice_shrink l st c n o') = is_array o'" "inherited (splice_shrink l st c n o') = inherited o'"
  "is_array (splice_grow l st c n o') = is_array o'" "inherited (splice_grow l st c n o') = inherited o'"
  "is_array (splice_insert st items o') = is_array o'" "inherited (splice_insert st items o') = inherited o'"
  by (simp_all add: splice_shrink_def splice_grow_def splice_insert_def fold_frame split_beta)

text \<open>The own properties after the removal and the insertion.\<close>

lemma own_spliced:
  assumes "st + c \<le> len"
  shows "own (splice_insert st items (if length items < c then splice_shrink len st c (length items) o'
        else if length items > c then splice_grow len st c (length items) o' else o')) i =
    (if i < st then own o' i else if i < st + length items then Some (items ! (i - st))
     else if i < len - c + length items then own o' (i - length items + c)
     else if i < len then None else own o' i)"
proof (cases "length items = c")
  case True
  then show ?thesis using assms own_insert [of st 0 items o']
    by (auto simp: splice_insert_def)
next
  case False
  then consider "length items < c" | "c < length items" by linarith
  then show ?thesis
    using assms own_insert [of st 0 items] own_shrink [of "length items" c st len o'] own_grow [of c "length items" st len o']
    by cases (auto simp: splice_insert_def)
qed


lemma length_of_Fin: "n < 2 ^ 32 \<Longrightarrow> olen o' = Fin (of_nat n) \<Longrightarrow> length_of o' = n"
  by (simp add: length_of_def)

lemma splice_es5_spec:
  fixes o' :: "'v obj"
  assumes "array_ok o'" and st_def: "st = splice_start (length_of o') (ToInteger start)"
    and c_def: "c = splice_count (length_of o' - st) (ToInteger dc)"
    and "length_of o' - c + length items < 2 ^ 32"
  shows "\<exists>A r. splice_es5 start dc items o' = (Inr A, r) \<and> array_ok r \<and> inherited r = inherited o'
    \<and> slots r = spliced st c (map Some items) (slots o')
    \<and> (\<forall>i. own A i = (if i < c then slots o' ! (st + i) else None))"
proof -
  let ?len = "length_of o'" and ?n = "length items"
  define o2 where "o2 = splice_insert st items (if ?n < c then splice_shrink ?len st c ?n o'
        else if ?n > c then splice_grow ?len st c ?n o' else o')"
  define r where "r = o2\<lparr>own := (\<lambda>i. if i < ?len - c + ?n then own o2 i else None), olen := Fin (of_nat (?len - c + ?n))\<rparr>"
  have le: "st + c \<le> ?len"
    using splice_start_le [of ?len] splice_count_le [of "?len - st"] unfolding st_def c_def
    by (metis add.commute le_diff_conv2)
  have frame: "is_array o2" "inherited o2 = inherited o'" using assms(1) by (simp_all add: array_ok_def o2_def)
  have "set_length (?len - c + ?n) o2 = (Inr (), r)"
    using frame(1) assms(4) by (simp only: set_length_def r_def if_True)
  then have r: "splice_es5 start dc items o' = (Inr (splice_removed st c o'), r)"
    unfolding splice_es5_def Let_def st_def [symmetric] unfolding c_def [symmetric] unfolding o2_def [symmetric] by simp
  have len: "length_of r = ?len - c + ?n" by (rule length_of_Fin [OF assms(4)]) (simp add: r_def del: of_nat_add)
  have "own r i = spliced st c (map Some items) (slots o') ! i" if "i < ?len - c + ?n" for i
  proof -
    have "own r i = own o2 i" using that by (simp add: r_def)
    then show ?thesis using that le unfolding o2_def own_spliced [OF le]
      by (auto simp: spliced_nth)
  qed
  then have "slots r = spliced st c (map Some items) (slots o')"
    using len le by (intro nth_equalityI) (auto simp: length_spliced)
  moreover have "array_ok r" using frame(1) len by (auto simp: array_ok_def r_def split: if_splits)
  moreover have "own (splice_removed st c o') i = (if i < c then slots o' ! (st + i) else None)" for i
    using le by (simp add: own_removed)
  moreover have "inherited r = inherited o'" using frame(2) by (simp add: r_def)
  ultimately show ?thesis using r by blast
qed

section \<open>Callbacks that leave the object alone\<close>

definition entries :: "'v obj \<Rightarrow> nat list \<Rightarrow> (nat \<times> 'v) list" where
  "entries o' is = concat (map (\<lambda>i. case get_prop o' i of None \<Rightarrow> [] | Some v \<Rightarrow> [(i, v)]) is)"

lemma entries_simps [simp]:
  "entries o' [] = []"
  "entries o' (i # is) = (case get_prop o' i of None \<Rightarrow> [] | Some v \<Rightarrow> [(i, v)]) @ entries o' is"
  by (simp_all add: entries_def)

lemma read_prop_run [simp]: "read_prop i (o', x) = (Inr (get_prop o' i), o', x)"
  by (simp add: read_prop_def)

definition keeps_object :: "('v \<Rightarrow> nat \<Rightarrow> ('v, 'x, 'a) aeff) \<Rightarrow> bool" where
  "keeps_object f \<longleftrightarrow> (\<forall>v i o' x. fst (snd (f v i (o', x))) = o')"

lemma keeps_objectE:
  assumes "keeps_object f"
  obtains r x' where "f v i (o', x) = (r, o', x')"
  using assms unfolding keeps_object_def by (metis prod.collapse)

lemma forEach_entries:
  assumes "keeps_object f"
  shows "forE (\<lambda>i. bindE (read_prop i) (\<lambda>p. case p of None \<Rightarrow> ret () | Some v \<Rightarrow> f v i)) is (o', x)
    = forE (\<lambda>(i, v). f v i) (entries o' is) (o', x)"
proof (induction "is" arbitrary: x)
  case (Cons i "is")
  show ?case
  proof (cases "get_prop o' i")
    case (Some v)
    obtain r x' where "f v i (o', x) = (r, o', x')" by (rule keeps_objectE [OF assms])
    then show ?thesis using Some Cons by (cases r) (simp_all add: bindE_def)
  qed (use Cons in simp)
qed simp

lemma reduce_loop_entries:
  assumes "\<And>r. keeps_object (f r)"
  shows "reduce_loop f is a (o', x) = reduce_loop f (map fst (entries o' is)) a (o', x)"
proof (induction "is" arbitrary: a x)
  case (Cons i "is")
  show ?case
  proof (cases "get_prop o' i")
    case (Some v)
    obtain r x' where "f a v i (o', x) = (r, o', x')" by (rule keeps_objectE [OF assms])
    then show ?thesis using Some Cons by (cases r) (simp_all add: bindE_def)
  qed (use Cons in simp)
qed simp

text \<open>Callbacks that compute a value and touch nothing.\<close>

lemma map_loop_pure:
  assumes "\<And>v i x. f v i (o', x) = (Inr (g v i), o', x)"
  shows "map_loop f is res (o', x) = (Inr (fold (\<lambda>(i, v). set_prop i (g v i)) (entries o' is) res), o', x)"
  by (induction "is" arbitrary: res) (auto simp: assms split: option.split)

lemma filter_loop_pure:
  assumes "\<And>v i x. f v i (o', x) = (Inr (g v i), o', x)"
  shows "filter_loop f is res (o', x) = (Inr (res @ map snd (filter (\<lambda>(i, v). g v i) (entries o' is))), o', x)"
  by (induction "is" arbitrary: res) (auto simp: assms split: option.split)

lemma every_loop_pure:
  assumes "\<And>v i x. f v i (o', x) = (Inr (g v i), o', x)"
  shows "every_loop f is (o', x) = (Inr (\<forall>(i, v) \<in> set (entries o' is). g v i), o', x)"
  by (induction "is") (auto simp: assms split: option.split)

lemma reduce_loop_pure:
  assumes "\<And>a v i x. f a v i (o', x) = (Inr (g a v i), o', x)"
  shows "reduce_loop f is a (o', x) = (Inr (fold (\<lambda>(i, v) a. g a v i) (entries o' is) a), o', x)"
  by (induction "is" arbitrary: a) (auto simp: assms split: option.split)

lemma reduce_first_run:
  "reduce_first is (o', x) =
     (case entries o' is of
        [] \<Rightarrow> (Inl TypeError, o', x)
      | (i, v) # _ \<Rightarrow> (Inr (v, tl (dropWhile (\<lambda>j. get_prop o' j = None) is)), o', x))"
  by (induction "is") (auto split: option.split list.split)

lemma entries_dropWhile: "entries o' (tl (dropWhile (\<lambda>j. get_prop o' j = None) is)) = tl (entries o' is)"
  by (induction "is") (auto split: option.split)

text \<open>\<open>every\<close> is \<open>some\<close> of the negated test, whatever the callback does.\<close>

lemma every_loop_some:
  "every_loop f is = bindE (some_loop (\<lambda>v i. bindE (f v i) (\<lambda>b. ret (\<not> b))) is) (\<lambda>b. ret (\<not> b))"
proof (induction "is")
  case (Cons i "is")
  show ?case
  proof
    fix s :: "'a obj \<times> 'b"
    obtain o' x where s: "s = (o', x)" by force
    show "every_loop f (i # is) s = bindE (some_loop (\<lambda>v i. bindE (f v i) (\<lambda>b. ret (\<not> b))) (i # is)) (\<lambda>b. ret (\<not> b)) s"
    proof (cases "get_prop o' i")
      case None
      then show ?thesis by (simp add: s bindE_assoc Cons del: eff_apply)
    next
      case (Some v)
      obtain r s' where r: "f v i (o', x) = (r, s')" by (rule prod.exhaust)
      show ?thesis
        using Some r by (cases r) (simp_all add: s bindE_assoc Cons ret_def)
    qed
  qed
qed (simp add: bindE_def fun_eq_iff)

section \<open>The array methods on quiet callbacks\<close>

lemma map_es5_pure:
  assumes "\<And>v i x. f T v i (o', x) = (Inr (g v i), o', x)"
  shows "\<exists>r. map_es5 False (Some f) T (o', x) = (Inr r, o', x) \<and> is_array r \<and> length_of r = length_of o'
    \<and> (\<forall>i. own r i = (if i < length_of o' then map_option (\<lambda>v. g v i) (get_prop o' i) else None))"
proof -
  let ?len = "length_of o'" and ?r0 = "empty_array\<lparr>olen := Fin (of_nat (length_of o'))\<rparr>"
  let ?step = "\<lambda>(i, v). set_prop i (g v i)"
  have "is_array (fold ?step (entries o' [0..<n]) ?r0) \<and> length_of (fold ?step (entries o' [0..<n]) ?r0) = ?len
      \<and> own (fold ?step (entries o' [0..<n]) ?r0) = (\<lambda>i. if i < n then map_option (\<lambda>v. g v i) (get_prop o' i) else None)"
    if "n \<le> ?len" for n using that
  proof (induction n)
    case 0
    then show ?case using ToUint32_bound [of "olen o'"] by (auto simp: empty_array_def length_of_def fun_eq_iff)
  next
    case (Suc n)
    then show ?case
      by (cases "get_prop o' n") (auto simp: entries_def set_prop_def length_of_def fun_eq_iff less_Suc_eq)
  qed
  from this [of ?len] show ?thesis
    by (simp add: map_es5_def prologue_def map_loop_pure [of "f T", OF assms])
qed

section \<open>Appending\<close>

lemma pushShim_run:
  assumes "array_ok o'" "length_of o' + length args < 2 ^ 32"
  shows "\<exists>r. pushShim args o' = (Inr (length_of o' + length args), r) \<and> array_ok r \<and> slots r = slots o' @ map Some args"
proof -
  let ?n = "length_of o'" and ?k = "length args"
  define o1 where "o1 = fold (\<lambda>(i, v). set_prop (?n + i) v) (enumerate 0 args) o'"
  define r where "r = o1\<lparr>own := (\<lambda>i. if i < ?n + ?k then own o1 i else None), olen := Fin (of_nat (?n + ?k))\<rparr>"
  have arr: "is_array o1" using assms(1) by (simp add: array_ok_def o1_def fold_frame split_beta)
  have "set_length (?n + ?k) o1 = (Inr (), r)" using arr assms(2) by (simp only: set_length_def r_def if_True)
  then have r: "pushShim args o' = (Inr (?n + ?k), r)"
    unfolding pushShim_def Let_def o1_def [symmetric] by simp
  have len: "length_of r = ?n + ?k" by (rule length_of_Fin [OF assms(2)]) (simp add: r_def del: of_nat_add)
  have "own r i = (if i < ?n then own o' i else if i < ?n + ?k then Some (args ! (i - ?n)) else None)" for i
    by (simp add: r_def o1_def own_insert)
  then have "slots r = slots o' @ map Some args"
    by (intro nth_equalityI) (simp_all add: len nth_append)
  moreover have "array_ok r" using arr len by (auto simp: array_ok_def r_def split: if_splits)
  ultimately show ?thesis using r by blast
qed

section \<open>Search\<close>

lemma find_None_iff': "List.find P xs = None \<longleftrightarrow> (\<forall>x \<in> set xs. \<not> P x)"
  by (auto simp: find_None_iff)

lemma find_upt_least: "List.find P [a..<b] = Some i \<Longrightarrow> a \<le> i \<and> i < b \<and> P i \<and> (\<forall>j. a \<le> j \<longrightarrow> j < i \<longrightarrow> \<not> P j)"
proof (induction "b - a" arbitrary: a)
  case (Suc n)
  then have a: "[a..<b] = a # [Suc a..<b]" by (simp add: upt_conv_Cons)
  show ?case
  proof (cases "P a")
    case False
    then have "List.find P [Suc a..<b] = Some i" using Suc.prems a by simp
    then have "Suc a \<le> i \<and> i < b \<and> P i \<and> (\<forall>j. Suc a \<le> j \<longrightarrow> j < i \<longrightarrow> \<not> P j)"
      using Suc.hyps(1) [of "Suc a"] Suc.hyps(2) by simp
    with False show ?thesis by (metis Suc_leD Suc_leI le_neq_implies_less)
  qed (use Suc a in auto)
qed simp

lemma find_rev_upt_greatest: "List.find P (rev [0..<b]) = Some i \<Longrightarrow> i < b \<and> P i \<and> (\<forall>j. i < j \<longrightarrow> j < b \<longrightarrow> \<not> P j)"
proof (induction b)
  case (Suc b)
  then show ?case by (cases "P b") (auto simp: less_Suc_eq)
qed simp

lemma found_first:
  "found (List.find P [a..<b]) = -1 \<and> (\<forall>k \<in> {a..<b}. \<not> P k)
   \<or> 0 \<le> found (List.find P [a..<b]) \<and> nat (found (List.find P [a..<b])) \<in> {a..<b}
     \<and> P (nat (found (List.find P [a..<b]))) \<and> (\<forall>k \<in> {a..<nat (found (List.find P [a..<b]))}. \<not> P k)"
proof (cases "List.find P [a..<b]")
  case None
  then have "\<forall>k \<in> {a..<b}. \<not> P k" using find_None_iff' [of P "[a..<b]"] by simp
  then show ?thesis by (simp add: None found_def)
next
  case (Some i)
  then show ?thesis using find_upt_least [OF Some] by (auto simp: found_def)
qed

lemma found_last:
  "found (List.find P (rev [0..<b])) = -1 \<and> (\<forall>k \<in> {0..<b}. \<not> P k)
   \<or> 0 \<le> found (List.find P (rev [0..<b])) \<and> nat (found (List.find P (rev [0..<b]))) \<in> {0..<b}
     \<and> P (nat (found (List.find P (rev [0..<b])))) \<and> (\<forall>k \<in> {nat (found (List.find P (rev [0..<b])))<..<b}. \<not> P k)"
proof (cases "List.find P (rev [0..<b])")
  case None
  then have "\<forall>k \<in> {0..<b}. \<not> P k" using find_None_iff' [of P "rev [0..<b]"] by simp
  then show ?thesis by (simp add: None found_def)
next
  case (Some i)
  then show ?thesis using find_rev_upt_greatest [OF Some] by (auto simp: found_def)
qed

section \<open>The contract of splicing\<close>

locale splice_contract =
  fixes nsplice :: "'v nsplice"
  assumes nsplice_splices: "array_ok o' \<Longrightarrow> st = splice_start (length_of o') (ToInteger start) \<Longrightarrow>
      c = splice_count (length_of o' - st) (ToInteger dc) \<Longrightarrow> length_of o' - c + length items < 2 ^ 32 \<Longrightarrow>
    \<exists>A r. nsplice start dc items o' = (Inr A, r) \<and> array_ok r \<and> slots r = spliced st c (map Some items) (slots o')"
begin

text \<open>Called with a start only, the wrapper removes everything from there on.\<close>

lemma emptyobj_cuts_tail:
  assumes "array_ok o'" "\<bar>i\<bar> < 2 ^ 52"
  shows "\<exists>A r. splice_emptyobj nsplice (Some (Fin (of_int i), DcMissing, [])) o' = (Inr A, r) \<and> array_ok r
    \<and> slots r = take (splice_start (length_of o') (Whole i)) (slots o')"
proof -
  let ?len = "length_of o'" and ?st = "splice_start (length_of o') (Whole i)"
  have len: "?len < 2 ^ 32" using ToUint32_bound by (simp add: length_of_def)
  have olen: "olen o' = Fin (of_nat ?len)" using assms(1) by (simp add: array_ok_def)
  have w: "ToInteger (Fin (of_int j)) = Whole j" for j by (auto simp: ToInteger_def)
  have "ToInteger (olen o') = Whole (int ?len)" using w [of "int ?len"] olen by simp
  then have o1: "o'\<lparr>olen := (case ToInteger (olen o') of NegInf \<Rightarrow> Fin 0 | PosInf \<Rightarrow> Infinite False
      | Whole i \<Rightarrow> Fin (of_int (max i 0)))\<rparr> = o'" using olen by simp
  have "fl (of_int (int ?len - i)) = Fin (of_int (int ?len - i))"
  proof (rule fl_int)
    have "int ?len < 4294967296" "\<bar>i\<bar> < 4503599627370496" using len assms(2) by simp_all
    then show "\<bar>int ?len - i\<bar> < 2 ^ 53" by simp
  qed
  then have sub: "num_sub (olen o') (Fin (of_int i)) = Fin (of_int (int ?len - i))"
    using olen by (simp add: num_sub_def)
  have c: "?len - ?st = splice_count (?len - ?st) (ToInteger (Fin (of_int (int ?len - i))))"
    unfolding w by (auto simp: splice_count_def splice_start_def)
  have "\<exists>A r. nsplice (Fin (of_int i)) (Fin (of_int (int ?len - i))) [] o' = (Inr A, r) \<and> array_ok r
      \<and> slots r = spliced ?st (?len - ?st) (map Some []) (slots o')"
  proof (rule nsplice_splices [OF assms(1) _ c])
    show "?len - (?len - ?st) + length [] < 2 ^ 32" using len by simp
  qed (simp only: w)
  moreover have "spliced ?st (?len - ?st) (map Some []) (slots o') = take ?st (slots o')"
    using splice_start_le [of ?len "Whole i"] by (simp add: spliced_def)
  moreover have "splice_emptyobj nsplice (Some (Fin (of_int i), DcMissing, [])) o'
      = nsplice (Fin (of_int i)) (Fin (of_int (int ?len - i))) [] o'"
    unfolding splice_emptyobj_def option.case prod.case Let_def o1 dc_arg.case sub ..
  ultimately show ?thesis by metis
qed

end

interpretation es5: splice_contract splice_es5
  using splice_es5_spec by unfold_locales blast

section \<open>Properties\<close>

lemma array_of_ok: "length vs < 2 ^ 32 \<Longrightarrow> array_ok (array_of vs) \<and> slots (array_of vs) = map Some vs"
proof -
  assume "length vs < 2 ^ 32"
  then have "length_of (array_of vs) = length vs" by (rule length_of_Fin) (simp add: array_of_def)
  then show ?thesis by (auto simp: array_ok_def array_of_def slots_def split: if_splits intro: nth_equalityI)
qed

text \<open>C12: the loops of \<open>splice\<close> move the elements of an array, holes included, so that the result is
  the list of slots with the deleted stretch replaced by the new items; the array returned holds
  the deleted elements, and no throw occurs while the new length is a valid one.\<close>

theorem splice_es5_splices:
  assumes "array_ok o'" "st = splice_start (length_of o') (ToInteger start)"
    and "c = splice_count (length_of o' - st) (ToInteger dc)" "length_of o' - c + length items < 2 ^ 32"
  shows "\<exists>A r. splice_es5 start dc items o' = (Inr A, r) \<and> array_ok r \<and> inherited r = inherited o'
    \<and> slots r = take st (slots o') @ map Some items @ drop (st + c) (slots o')
    \<and> (\<forall>i. own A i = (if i < c then slots o' ! (st + i) else None))"
  using splice_es5_spec [OF assms] by (simp add: spliced_def)

theorem splice_es5_splices_witness:
  "\<exists>A r. splice_es5 (Fin (-2)) (Fin 1) [7, 8, 9] (array_of [10, 20, 30 :: int]) = (Inr A, r)
    \<and> slots r = map Some [10, 7, 8, 9, 30] \<and> own A 0 = Some 20"
proof -
  have "length [10, 20, 30 :: int] < 2 ^ 32" by simp
  note a = array_of_ok [OF this]
  then have l: "length_of (array_of [10, 20, 30 :: int]) = 3" by (metis length_map slots_simps(1) length_Cons list.size(3) numeral_3_eq_3)
  show ?thesis
    using splice_es5_splices [of "array_of [10, 20, 30 :: int]" 1 "Fin (-2)" 1 "Fin 1" "[7, 8, 9]"] a
    by (auto simp: l splice_start_def splice_count_def ToInteger_def)
qed

text \<open>the wrapper for engines whose \<open>splice\<close> mishandles objects without a length, called with a
  start only, removes everything from there to the end, whatever native or shimmed \<open>splice\<close> that
  meets the contract it passes the call on to.\<close>

theorem splice_emptyobj_cuts_tail:
  assumes "splice_contract nsplice" "array_ok o'" "\<bar>i\<bar> < 2 ^ 52"
  shows "\<exists>A r. splice_emptyobj nsplice (Some (Fin (of_int i), DcMissing, [])) o' = (Inr A, r) \<and> array_ok r
    \<and> slots r = take (splice_start (length_of o') (Whole i)) (slots o')"
  using splice_contract.emptyobj_cuts_tail [OF assms] .

theorem splice_emptyobj_cuts_tail_witness:
  "\<exists>A r. splice_emptyobj splice_es5 (Some (Fin (of_int (-1)), DcMissing, [])) (array_of [10, 20, 30 :: int]) = (Inr A, r)
    \<and> slots r = [Some 10, Some 20]"
proof -
  have "length [10, 20, 30 :: int] < 2 ^ 32" by simp
  note a = array_of_ok [OF this]
  then have l: "length_of (array_of [10, 20, 30 :: int]) = 3" by (metis length_map slots_simps(1) length_Cons list.size(3) numeral_3_eq_3)
  show ?thesis
    using splice_emptyobj_cuts_tail [OF es5.splice_contract_axioms conjunct1 [OF a], of "-1"] a
    by (auto simp: l splice_start_def)
qed

text \<open>The method that replaces a \<open>splice\<close> with bugs on sparse arrays treats a missing second
  argument as 0: called with a start only it removes nothing, where the other wrapper removes the
  whole tail.\<close>

theorem splice_es5_start_only:
  assumes "array_ok o'"
  shows "\<exists>A r. splice_es5 start NaN [] o' = (Inr A, r) \<and> slots r = slots o' \<and> own A = Map.empty"
proof -
  have c: "0 = splice_count (length_of o' - st) (ToInteger NaN)" for st
    by (simp add: splice_count_def ToInteger_def)
  have "length_of o' - 0 + length [] < 2 ^ 32" using ToUint32_bound by (simp add: length_of_def)
  from splice_es5_spec [OF assms refl c this, of start] show ?thesis
    by (auto simp: spliced_def fun_eq_iff)
qed

theorem splice_es5_start_only_witness:
  "\<exists>A r. splice_es5 (Fin 1) NaN [] (array_of [10, 20, 30 :: int]) = (Inr A, r) \<and> slots r = map Some [10, 20, 30]"
  using splice_es5_start_only [of "array_of [10, 20, 30 :: int]" "Fin 1"] array_of_ok [of "[10, 20, 30 :: int]"] by auto

text \<open>C23: \<open>every\<close> is the negation of \<open>some\<close> on the negated test, for every callback, also one that
  throws or changes the object it is called on.\<close>

theorem every_is_not_some:
  "every_es5 nullish cb T =
     bindE (some_es5 nullish (map_option (\<lambda>f t v i. bindE (f t v i) (\<lambda>b. ret (\<not> b))) cb) T) (\<lambda>b. ret (\<not> b))"
proof
  fix s :: "'a obj \<times> 'b"
  obtain o' x where "s = (o', x)" by (rule prod.exhaust)
  then show "every_es5 nullish cb T s =
     bindE (some_es5 nullish (map_option (\<lambda>f t v i. bindE (f t v i) (\<lambda>b. ret (\<not> b))) cb) T) (\<lambda>b. ret (\<not> b)) s"
    by (cases cb) (simp_all add: every_es5_def some_es5_def prologue_def every_loop_some bindE_def)
qed

text \<open>C28: with a callback that only computes, \<open>map\<close> returns an array of the same length whose elements
  are the images of the elements present and whose holes are the holes; \<open>filter\<close> returns the elements
  present that pass, in order.\<close>

theorem map_filter_es5:
  assumes "\<And>v i x. f T v i (o', x) = (Inr (g v i), o', x)" and "\<And>v i x. p T v i (o', x) = (Inr (q v i), o', x)"
  shows "(\<exists>r. map_es5 False (Some f) T (o', x) = (Inr r, o', x) \<and> is_array r \<and> length_of r = length_of o'
      \<and> (\<forall>i. own r i = (if i < length_of o' then map_option (\<lambda>v. g v i) (get_prop o' i) else None)))
    \<and> filter_es5 False (Some p) T (o', x)
      = (Inr (map snd (filter (\<lambda>(i, v). q v i) (entries o' [0..<length_of o']))), o', x)"
  using map_es5_pure [of f T o' g x, OF assms(1)] filter_loop_pure [of "p T" o' q "[0..<length_of o']" "[]" x, OF assms(2)]
  by (simp add: filter_es5_def prologue_def)

theorem map_filter_es5_witness:
  "\<exists>r. map_es5 False (Some (\<lambda>_ v i s. (Inr (v + int i), s))) () (array_of [10, 20, 30 :: int], ()) = (Inr r, array_of [10, 20, 30], ())
    \<and> own r 2 = Some 32"
proof -
  have "length [10, 20, 30 :: int] < 2 ^ 32" by simp
  note a = array_of_ok [OF this]
  then have l: "length_of (array_of [10, 20, 30 :: int]) = 3" by (metis length_map slots_simps(1) length_Cons list.size(3) numeral_3_eq_3)
  have "get_prop (array_of [10, 20, 30 :: int]) 2 = Some 30" by (simp add: get_prop_def array_of_def)
  with l show ?thesis
    using map_filter_es5 [of "\<lambda>_ v i s. (Inr (v + int i), s)" "()" "array_of [10, 20, 30 :: int]" "\<lambda>v i. v + int i"
        "\<lambda>_ v i s. (Inr True, s)" "\<lambda>v i. True" "()"] by auto
qed

lemma reduce_over_folds:
  assumes "\<And>a v i x. f a v i (o', x) = (Inr (g a v i), o', x)"
  shows "\<forall>order init. (let es = entries o' (order (length_of o')); step = (\<lambda>(i, v) a. g a v i) in
      reduce_over False (Some f) init order (o', x) =
        (case init of
           Some a \<Rightarrow> (Inr (fold step es a), o', x)
         | None \<Rightarrow> (case es of [] \<Rightarrow> (Inl TypeError, o', x) | (_, v) # es' \<Rightarrow> (Inr (fold step es' v), o', x))))"
proof (intro allI)
  fix order init
  let ?es = "entries o' (order (length_of o'))"
  show "let es = ?es; step = (\<lambda>(i, v) a. g a v i) in
      reduce_over False (Some f) init order (o', x) =
        (case init of
           Some a \<Rightarrow> (Inr (fold step es a), o', x)
         | None \<Rightarrow> (case es of [] \<Rightarrow> (Inl TypeError, o', x) | (_, v) # es' \<Rightarrow> (Inr (fold step es' v), o', x)))"
  proof (cases init)
    case None
    show ?thesis
    proof (cases ?es)
      case Nil
      then have "reduce_first (order (length_of o')) (o', x) = (Inl TypeError, o', x)" by (simp add: reduce_first_run)
      then show ?thesis using None Nil by (simp add: reduce_over_def prologue_def)
    next
      case (Cons e es)
      let ?is = "tl (dropWhile (\<lambda>j. get_prop o' j = None) (order (length_of o')))"
      have "reduce_first (order (length_of o')) (o', x) = (Inr (snd e, ?is), o', x)"
        using Cons by (cases e) (simp add: reduce_first_run)
      moreover have "entries o' ?is = es" using Cons by (simp add: entries_dropWhile)
      ultimately show ?thesis using None Cons
        by (cases e) (simp add: reduce_over_def prologue_def reduce_loop_pure [of f, OF assms])
    qed
  qed (simp add: reduce_over_def prologue_def reduce_loop_pure [of f, OF assms])
qed

lemma entries_rev: "entries o' (rev is) = rev (entries o' is)"
  by (induction "is") (auto simp: entries_def split: option.split)

text \<open>C21: with a callback that only computes and does not throw, \<open>reduce\<close> folds the elements present from the first
  to the last and \<open>reduceRight\<close> from the last to the first, starting from the initial value or else from the
  first element present in that order; without either they throw a type error.\<close>

theorem reduce_es5_folds:
  assumes "\<And>a v i x. f a v i (o', x) = (Inr (g a v i), o', x)"
  shows "let es = entries o' [0..<length_of o']; step = (\<lambda>(i, v) a. g a v i);
      folded = (\<lambda>es. case init of
         Some a \<Rightarrow> Inr (fold step es a)
       | None \<Rightarrow> (case es of [] \<Rightarrow> Inl TypeError | (_, v) # es' \<Rightarrow> Inr (fold step es' v)))
    in reduce_es5 False (Some f) init (o', x) = (folded es, o', x)
      \<and> reduceRight_es5 False (Some f) init (o', x) = (folded (rev es), o', x)"
  using reduce_over_folds [of f, OF assms, THEN spec, of "\<lambda>len. [0..<len]", THEN spec, of init]
    reduce_over_folds [of f, OF assms, THEN spec, of "\<lambda>len. rev [0..<len]", THEN spec, of init]
  unfolding reduce_es5_def reduceRight_es5_def Let_def entries_rev
  by (simp split: option.splits list.splits prod.splits)

theorem reduce_es5_folds_witness:
  "reduceRight_es5 False (Some (\<lambda>a v i s. (Inr (a - v), s))) None (array_of [10, 20, 30 :: int], ()) = (Inr 0, array_of [10, 20, 30], ())"
proof -
  have "length [10, 20, 30 :: int] < 2 ^ 32" by simp
  note a = array_of_ok [OF this]
  then have l: "length_of (array_of [10, 20, 30 :: int]) = 3" by (metis length_map slots_simps(1) length_Cons list.size(3) numeral_3_eq_3)
  have e: "entries (array_of [10, 20, 30 :: int]) [0..<3] = [(0, 10), (1, 20), (2, 30)]"
    by (simp add: upt_rec numeral_3_eq_3 get_prop_def array_of_def)
  show ?thesis
    using reduce_es5_folds [of "\<lambda>a v i s. (Inr (a - v), s)" "array_of [10, 20, 30 :: int]" "\<lambda>a v i. a - v" None "()"]
    unfolding l e by simp
qed

text \<open>The indices that a search may look at, by its second argument as a number: at or after it for \<open>indexOf\<close>, at or
  before it for \<open>lastIndexOf\<close>, where a negative number counts from the end; all when it is not given.\<close>

definition at_or_after :: "nat \<Rightarrow> jsnum option \<Rightarrow> nat \<Rightarrow> bool" where
  "at_or_after len from k \<longleftrightarrow>
     (case from of
        None \<Rightarrow> True
      | Some n \<Rightarrow> (case ToInteger n of PosInf \<Rightarrow> False | NegInf \<Rightarrow> True | Whole i \<Rightarrow> (if i < 0 then int len + i else i) \<le> int k))"

definition at_or_before :: "nat \<Rightarrow> jsnum option \<Rightarrow> nat \<Rightarrow> bool" where
  "at_or_before len from k \<longleftrightarrow>
     (case from of
        None \<Rightarrow> True
      | Some n \<Rightarrow> (case ToInteger n of PosInf \<Rightarrow> True | NegInf \<Rightarrow> False | Whole i \<Rightarrow> int k \<le> (if i < 0 then int len + i else i)))"

definition first_of :: "(nat \<Rightarrow> bool) \<Rightarrow> int \<Rightarrow> bool" where
  "first_of P i \<longleftrightarrow> (if i < 0 then i = -1 \<and> (\<forall>k. \<not> P k) else P (nat i) \<and> (\<forall>k < nat i. \<not> P k))"

definition last_of :: "(nat \<Rightarrow> bool) \<Rightarrow> int \<Rightarrow> bool" where
  "last_of P i \<longleftrightarrow> (if i < 0 then i = -1 \<and> (\<forall>k. \<not> P k) else P (nat i) \<and> (\<forall>k > nat i. \<not> P k))"

lemma first_of_found: "(\<And>k. P k \<longleftrightarrow> a \<le> k \<and> k < b \<and> Q k) \<Longrightarrow> first_of P (found (List.find Q [a..<b]))"
  using found_first [of Q a b] by (auto simp: first_of_def)

lemma last_of_found: "(\<And>k. P k \<longleftrightarrow> k < b \<and> Q k) \<Longrightarrow> last_of P (found (List.find Q (rev [0..<b])))"
  using found_last [of Q b] by (auto simp: last_of_def)

text \<open>C22: \<open>indexOf\<close> returns the least index, within the length and at or after the start, at which the element is
  found, and \<open>lastIndexOf\<close> the greatest one at or before it, or -1 when there is none; for every second argument
  and for none.\<close>

theorem indexOf_es5_first_last:
  "first_of (\<lambda>k. k < length_of o' \<and> at_or_after (length_of o') from k \<and> holds_at eq o' x k) (indexOf_es5 eq o' x from)
   \<and> last_of (\<lambda>k. k < length_of o' \<and> at_or_before (length_of o') from k \<and> holds_at (\<lambda>v x. eq x v) o' x k) (lastIndexOf_es5 eq o' x from)"
proof (cases "length_of o' = 0")
  case True
  then show ?thesis by (simp add: indexOf_es5_def lastIndexOf_es5_def first_of_def last_of_def)
next
  case False
  define a where "a = (case from of None \<Rightarrow> 0 | Some n \<Rightarrow> indexOf_start (length_of o') (ToInteger n))"
  define b where "b = (case from of None \<Rightarrow> length_of o' | Some n \<Rightarrow> lastIndexOf_stop (length_of o') (ToInteger n))"
  have "a \<le> k \<longleftrightarrow> at_or_after (length_of o') from k" if "k < length_of o'" for k
    using that by (auto simp: a_def at_or_after_def indexOf_start_def nat_le_iff split: option.split xint.split)
  moreover have "k < b \<longleftrightarrow> k < length_of o' \<and> at_or_before (length_of o') from k" for k
    using False by (auto simp: b_def at_or_before_def lastIndexOf_stop_def Let_def zless_nat_eq_int_zless split: option.split xint.split)
  moreover have "indexOf_es5 eq o' x from = found (List.find (holds_at eq o' x) [a..<length_of o'])"
    "lastIndexOf_es5 eq o' x from = found (List.find (holds_at (\<lambda>v x. eq x v) o' x) (rev [0..<b]))"
    using False by (simp_all add: indexOf_es5_def lastIndexOf_es5_def a_def b_def Let_def)
  ultimately show ?thesis by (auto intro!: first_of_found last_of_found)
qed

text \<open>\<open>push\<close> as the shim implements it appends its arguments to an array, holes included, and
  returns the new length.\<close>

theorem pushShim_appends:
  assumes "array_ok o'" "length_of o' + length args < 2 ^ 32"
  shows "\<exists>r. pushShim args o' = (Inr (length_of o' + length args), r) \<and> array_ok r \<and> slots r = slots o' @ map Some args"
  using pushShim_run [OF assms] .

theorem pushShim_appends_witness:
  "\<exists>r. pushShim [40, 50] (array_of [10, 20, 30 :: int]) = (Inr 5, r) \<and> slots r = map Some [10, 20, 30, 40, 50]"
proof -
  have "length [10, 20, 30 :: int] < 2 ^ 32" by simp
  note a = array_of_ok [OF this]
  then have l: "length_of (array_of [10, 20, 30 :: int]) = 3" by (metis length_map slots_simps(1) length_Cons list.size(3) numeral_3_eq_3)
  then show ?thesis using pushShim_appends [of "array_of [10, 20, 30 :: int]" "[40, 50]"] a by auto
qed

end
