(* ===== verification/ES5_Number_Laws.thy ===== *)
theory ES5_Number_Laws
  imports ES5_Number
begin

text \<open>
  Correctness of \<open>toFixed\<close>: the limb operations are exact multiplication, addition and floor
  division, no intermediate result is rounded, and the digits printed are those of the number
  rounded half up.
\<close>

section \<open>Exact operations\<close>

lemma floor_rfl_div:
  assumes "0 \<le> m" "0 < D" "of_int m / of_int D < (2 :: rat) powi k" "-1021 \<le> k" "k \<le> 52" "2 powi (k - 54) < 1 / (of_int D :: rat)"
  shows "\<lfloor>rfl (of_int m / of_int D)\<rfloor> = m div D"
proof -
  let ?x = "of_int m / of_int D :: rat"
  have D: "(0 :: rat) < of_int D" using assms(2) by simp
  have fl: "\<lfloor>?x\<rfloor> = m div D" by (simp add: floor_divide_of_int_eq)
  have "(of_int m :: rat) = of_int D * of_int (m div D) + of_int (m mod D)"
    by (metis mult_div_mod_eq of_int_add of_int_mult)
  then have "?x = (of_int D * of_int (m div D) + of_int (m mod D)) / of_int D" by (rule arg_cong)
  then have q: "?x = of_int (m div D) + of_int (m mod D) / of_int D"
    using D by (simp only: add_divide_distrib) simp
  have r: "0 \<le> m mod D" "m mod D \<le> D - 1" using assms(2) by simp_all
  have "(of_int (m mod D) :: rat) \<le> of_int (D - 1)" using r(2) by (simp only: of_int_le_iff)
  then have up: "of_int (m mod D) / of_int D + 1 / of_int D \<le> (1 :: rat)"
    using D by (simp add: field_simps)
  have lo: "m mod D = 0 \<or> 1 / (of_int D :: rat) \<le> of_int (m mod D) / of_int D"
  proof (cases "m mod D = 0")
    case False
    then have "1 \<le> m mod D" using r by linarith
    then have "(1 :: rat) \<le> of_int (m mod D)" by simp
    then show ?thesis using D by (simp add: divide_right_mono)
  qed simp
  have "\<lfloor>rfl ?x\<rfloor> = \<lfloor>?x\<rfloor>"
  proof (rule floor_rfl [of _ k "1 / of_int D"])
    show "\<bar>?x\<bar> < 2 powi k" using assms(1,2,3) by (simp add: divide_nonneg_pos)
    show "of_int \<lfloor>?x\<rfloor> + 1 / of_int D \<le> ?x \<or> ?x = of_int \<lfloor>?x\<rfloor>" unfolding fl using lo q by auto
    show "?x + 1 / of_int D \<le> of_int (\<lfloor>?x\<rfloor> + 1)" unfolding fl using up q by simp
  qed (use assms in simp_all)
  then show ?thesis by (simp add: fl)
qed

text \<open>The numbers that occur in a limb or as a carry: integers below \<open>2 ^ 53\<close>, and half-integers below
  \<open>2 ^ 52\<close>.\<close>

definition ok_num :: "bool \<Rightarrow> rat \<Rightarrow> bool" where
  "ok_num h t \<longleftrightarrow> (\<exists>m. 0 \<le> m \<and> m < 2 ^ 53 \<and> t = (if h then of_int m / 2 else of_int m))"

lemma ok_num_mono: "ok_num False t \<Longrightarrow> t < 2 ^ 52 \<Longrightarrow> ok_num True t"
proof -
  assume "ok_num False t" "t < 2 ^ 52"
  then obtain m where m: "0 \<le> m" "t = of_int m" "of_int m < (2 ^ 52 :: rat)" by (auto simp: ok_num_def)
  then have "m < 2 ^ 52" by (metis of_int_less_numeral_power_cancel_iff)
  then show ?thesis using m by (auto simp: ok_num_def intro!: exI [of _ "2 * m"])
qed

lemma rfl_ok: "ok_num h t \<Longrightarrow> rfl t = t"
proof -
  assume "ok_num h t"
  then obtain m where m: "0 \<le> m" "m < 2 ^ 53" "t = (if h then of_int m / 2 else of_int m)" by (auto simp: ok_num_def)
  have "(of_int m :: rat) < 2 ^ 53" using m(2) by (metis of_int_less_numeral_power_cancel_iff)
  moreover have "(2 :: rat) ^ 53 < 2 ^ 1024" by (rule power_strict_increasing) auto
  moreover have "(0 :: rat) \<le> of_int m" using m(1) by simp
  ultimately have "\<bar>t\<bar> < 2 ^ 1024" using m(3) by (cases h) auto
  then show ?thesis using m by (intro rfl_exact [of t m "if h then -1 else 0"]) (auto simp: power_int_minus)
qed

lemma floor_rfl_base: "ok_num h t \<Longrightarrow> \<lfloor>rfl (t / base)\<rfloor> = \<lfloor>t / base\<rfloor>"
proof -
  assume "ok_num h t"
  then obtain m where m: "0 \<le> m" "m < 2 ^ 53" "t = (if h then of_int m / 2 else of_int m)" by (auto simp: ok_num_def)
  let ?D = "if h then 20000000 else 10000000 :: int"
  have t: "t / base = of_int m / of_int ?D" using m(3) by (auto simp: base_def)
  have "(of_int m :: rat) < 2 ^ 53" using m(2) by (metis of_int_less_numeral_power_cancel_iff)
  then have b: "of_int m / of_int ?D < (2 :: rat) powi (if h then 29 else 30)" by (auto simp: power_int_def field_simps)
  have "\<lfloor>rfl (of_int m / of_int ?D)\<rfloor> = m div ?D"
    by (rule floor_rfl_div [OF m(1) _ b]) (auto simp: power_int_def power_one_over)
  then show ?thesis unfolding t by (simp add: floor_divide_of_int_eq)
qed

lemma rfl_div2:
  assumes "ok_num h t" "p \<le> 60"
  shows "rfl (t / 2 ^ p) = t / 2 ^ p"
proof -
  obtain m where m: "0 \<le> m" "m < 2 ^ 53" "t = (if h then of_int m / 2 else of_int m)" using assms(1) by (auto simp: ok_num_def)
  let ?e = "(if h then -1 else 0) - int p"
  have "t / 2 ^ p = of_int m * 2 powi ?e"
    using m(3) by (auto simp: power_int_diff power_int_minus field_simps)
  moreover have "\<bar>t / 2 ^ p\<bar> < 2 ^ 1024"
  proof -
    have "(of_int m :: rat) < 2 ^ 53" using m(2) by (metis of_int_less_numeral_power_cancel_iff)
    moreover have "(2 :: rat) ^ 53 < 2 ^ 1024" by (rule power_strict_increasing) auto
    moreover have t: "0 \<le> t" "t \<le> of_int m" using m by auto
    moreover have "t / 2 ^ p \<le> t / 1" using t(1) by (intro divide_left_mono) auto
    moreover have "0 \<le> t / 2 ^ p" using t(1) by simp
    ultimately show ?thesis by linarith
  qed
  ultimately show ?thesis using m assms(2) by (intro rfl_exact [of _ m ?e]) auto
qed


section \<open>Limbs\<close>

text \<open>The limbs of a number, least significant first.  Only the first of them may be a half-integer;
  that happens for the smallest arguments.\<close>

fun limbs :: "bool \<Rightarrow> rat list \<Rightarrow> bool" where
  "limbs h [] = True"
| "limbs h (d # ds) = (ok_num h d \<and> d < base \<and> limbs False ds)"

fun val :: "rat list \<Rightarrow> rat" where
  "val [] = 0"
| "val (d # ds) = d + base * val ds"

lemma ok_num_nonneg: "ok_num h t \<Longrightarrow> 0 \<le> t"
  by (auto simp: ok_num_def)

lemma base_pos [simp]: "0 < base" "0 \<le> base" "base \<noteq> 0"
  by (simp_all add: base_def)

lemma val_nonneg: "limbs h ds \<Longrightarrow> 0 \<le> val ds"
  by (induction h ds rule: limbs.induct) (auto dest: ok_num_nonneg)

lemma fmod_bounds: "0 < b \<Longrightarrow> 0 \<le> fmod a b \<and> fmod a b < b"
proof -
  assume b: "0 < b"
  have "of_int \<lfloor>a / b\<rfloor> \<le> a / b" "a / b < of_int \<lfloor>a / b\<rfloor> + 1" by linarith+
  then have "of_int \<lfloor>a / b\<rfloor> * b \<le> a" "a < (of_int \<lfloor>a / b\<rfloor> + 1) * b"
    unfolding pos_le_divide_eq [OF b] pos_divide_less_eq [OF b] .
  then have "b * of_int \<lfloor>a / b\<rfloor> \<le> a" "a < b * (of_int \<lfloor>a / b\<rfloor> + 1)"
    by (simp_all only: mult.commute)
  then show ?thesis by (simp add: fmod_def distrib_left)
qed

lemma fmod_eq: "fmod a b + b * of_int \<lfloor>a / b\<rfloor> = a"
  by (simp add: fmod_def)

lemma ok_num_fmod: "ok_num h t \<Longrightarrow> ok_num h (fmod t base) \<and> fmod t base < base"
proof -
  assume "ok_num h t"
  then obtain m where m: "0 \<le> m" "m < 2 ^ 53" "t = (if h then of_int m / 2 else of_int m)" by (auto simp: ok_num_def)
  define k where "k = m - (if h then 20000000 else 10000000) * \<lfloor>t / base\<rfloor>"
  have k: "fmod t base = (if h then of_int k / 2 else of_int k)"
    using m(3) by (auto simp: fmod_def k_def base_def)
  have b: "0 \<le> fmod t base" "fmod t base < base" using fmod_bounds [of base t] by simp_all
  have "0 \<le> k" using b(1) k by (auto split: if_splits)
  moreover have "of_int k < (2 ^ 53 :: rat)" using b(2) k by (auto simp: base_def split: if_splits)
  then have "k < 2 ^ 53" by (metis of_int_less_numeral_power_cancel_iff)
  ultimately show ?thesis using b(2) k by (auto simp: ok_num_def)
qed

lemma ok_numI: "0 \<le> m \<Longrightarrow> t = (if h then of_int m / 2 else of_int m) \<Longrightarrow> t < (if h then 2 ^ 52 else 2 ^ 53) \<Longrightarrow> ok_num h t"
proof -
  assume m: "0 \<le> m" "t = (if h then of_int m / 2 else of_int m)" "t < (if h then 2 ^ 52 else 2 ^ 53)"
  then have "of_int m < (2 ^ 53 :: rat)" by (auto split: if_splits)
  then have "m < 2 ^ 53" by (metis of_int_less_numeral_power_cancel_iff)
  with m show ?thesis by (auto simp: ok_num_def)
qed

lemma ok_num_mult: "ok_num h d \<Longrightarrow> d < base \<Longrightarrow> n \<le> 10 ^ 7 \<Longrightarrow> ok_num h (of_nat n * d)"
proof -
  assume d: "ok_num h d" "d < base" and n: "n \<le> 10 ^ 7"
  then obtain m where m: "0 \<le> m" "d = (if h then of_int m / 2 else of_int m)" by (auto simp: ok_num_def)
  have "(of_nat n :: rat) \<le> 10 ^ 7" using n by (metis of_nat_le_iff of_nat_numeral of_nat_power)
  then have "of_nat n * d \<le> 10 ^ 7 * 10 ^ 7"
    using d ok_num_nonneg [OF d(1)] by (intro mult_mono) (auto simp: base_def)
  also have "\<dots> < (if h then 2 ^ 52 else 2 ^ 53)" by simp
  finally show ?thesis using m by (intro ok_numI [of "int n * m"]) auto
qed

lemma ok_num_add: "ok_num h a \<Longrightarrow> ok_num h b \<Longrightarrow> a + b < (if h then 2 ^ 52 else 2 ^ 53) \<Longrightarrow> ok_num h (a + b)"
proof -
  assume "ok_num h a" "ok_num h b" and lt: "a + b < (if h then 2 ^ 52 else 2 ^ 53)"
  then obtain m k where "0 \<le> m" "0 \<le> k" "a = (if h then of_int m / 2 else of_int m)" "b = (if h then of_int k / 2 else of_int k)"
    by (auto simp: ok_num_def)
  then show ?thesis using lt by (intro ok_numI [of "m + k"]) (auto simp: add_divide_distrib)
qed

text \<open>The carries: below the limit when the factor is 0, and at most the factor otherwise.\<close>

definition carry_ok :: "bool \<Rightarrow> nat \<Rightarrow> rat \<Rightarrow> bool" where
  "carry_ok h n c \<longleftrightarrow> ok_num h c \<and> (n = 0 \<or> n \<le> 10 ^ 7 \<and> c \<le> of_nat n)"

lemma carry_sum:
  assumes "carry_ok h n c" "ok_num h d" "d < base"
  shows "ok_num h (c + of_nat n * d)" "rfl (c + rfl (of_nat n * d)) = c + of_nat n * d"
    "n > 0 \<Longrightarrow> c + of_nat n * d < of_nat n + of_nat n * base"
proof -
  have "ok_num h (c + of_nat n * d) \<and> rfl (of_nat n * d) = of_nat n * d \<and> (n > 0 \<longrightarrow> c + of_nat n * d < of_nat n + of_nat n * base)"
  proof (cases "n = 0")
    case False
    then have n: "n \<le> 10 ^ 7" "c \<le> of_nat n" using assms(1) by (auto simp: carry_ok_def)
    have nd: "ok_num h (of_nat n * d)" by (rule ok_num_mult [OF assms(2,3) n(1)])
    have lt: "c + of_nat n * d < of_nat n + of_nat n * base" using n(2) assms(3) False by (intro add_le_less_mono) auto
    also have "\<dots> \<le> 10 ^ 7 + 10 ^ 7 * 10 ^ 7"
    proof -
      have "(of_nat n :: rat) \<le> 10 ^ 7" using n(1) by (metis of_nat_le_iff of_nat_numeral of_nat_power)
      then show ?thesis by (simp add: base_def)
    qed
    also have "\<dots> < (if h then 2 ^ 52 else 2 ^ 53)" by simp
    finally show ?thesis using ok_num_add [OF _ nd] assms(1) nd lt rfl_ok [OF nd] by (auto simp: carry_ok_def)
  qed (use assms(1) in \<open>auto simp: carry_ok_def\<close>)
  then show "ok_num h (c + of_nat n * d)" "rfl (c + rfl (of_nat n * d)) = c + of_nat n * d"
    "n > 0 \<Longrightarrow> c + of_nat n * d < of_nat n + of_nat n * base" using rfl_ok by auto
qed

lemma carry_next:
  assumes "carry_ok h n c" "ok_num h d" "d < base"
  shows "carry_ok False n (of_int \<lfloor>(c + of_nat n * d) / base\<rfloor>)"
proof -
  let ?t = "c + of_nat n * d"
  note t = carry_sum [OF assms]
  have t0: "0 \<le> ?t" "?t < 2 ^ 53" using t(1) ok_num_nonneg [OF t(1)] unfolding ok_num_def
    by (auto split: if_splits simp: of_int_less_numeral_power_cancel_iff [symmetric] simp del: of_int_less_numeral_power_cancel_iff)
  have q: "0 \<le> \<lfloor>?t / base\<rfloor>" using t0(1) by simp
  have "of_int \<lfloor>?t / base\<rfloor> \<le> ?t / base" by simp
  also have "\<dots> \<le> ?t / 1" using t0(1) by (intro divide_left_mono) (auto simp: base_def)
  also have "\<dots> = ?t" by simp
  finally have "of_int \<lfloor>?t / base\<rfloor> < (2 ^ 53 :: rat)" using t0(2) by linarith
  then have "ok_num False (of_int \<lfloor>?t / base\<rfloor>)" using q by (intro ok_numI [of "\<lfloor>?t / base\<rfloor>"]) simp_all
  moreover have "n \<le> 10 ^ 7 \<and> of_int \<lfloor>?t / base\<rfloor> \<le> (of_nat n :: rat)" if "n > 0"
  proof -
    have n: "n \<le> 10 ^ 7" using assms(1) that by (simp add: carry_ok_def)
    then have "(of_nat n :: rat) \<le> base" unfolding base_def by (metis of_nat_le_iff of_nat_numeral of_nat_power)
    then have "?t < base * (of_nat n + 1)" using t(3) [OF that] by (simp add: algebra_simps)
    then have "?t / base < of_nat n + 1" by (simp add: pos_divide_less_eq mult.commute)
    then have "\<lfloor>?t / base\<rfloor> \<le> int n" by (simp add: floor_le_iff)
    then have "(of_int \<lfloor>?t / base\<rfloor> :: rat) \<le> of_int (int n)" by (simp only: of_int_le_iff)
    with n show ?thesis by simp
  qed
  ultimately show ?thesis by (auto simp: carry_ok_def)
qed


lemma multiply_loop_spec:
  "limbs h ds \<Longrightarrow> carry_ok h n c \<Longrightarrow> ds \<noteq> [] \<or> \<not> h \<Longrightarrow>
     limbs h (multiply_loop (of_nat n) c ds) \<and> length (multiply_loop (of_nat n) c ds) = length ds \<and>
     (\<exists>k :: nat. val (multiply_loop (of_nat n) c ds) + of_nat k * base ^ length ds = c + of_nat n * val ds)"
proof (induction ds arbitrary: h c)
  case Nil
  then obtain m where "0 \<le> m" "c = of_int m" by (auto simp: carry_ok_def ok_num_def)
  then show ?case by (auto intro!: exI [of _ "nat m"])
next
  case (Cons d ds)
  let ?t = "c + of_nat n * d" and ?r = "multiply_loop (of_nat n) (of_int \<lfloor>(c + of_nat n * d) / base\<rfloor>) ds"
  have d: "ok_num h d" "d < base" "limbs False ds" using Cons.prems(1) by simp_all
  note t = carry_sum [OF Cons.prems(2) d(1,2)]
  have r: "multiply_loop (of_nat n) c (d # ds) = fmod ?t base # ?r"
    using t(2) floor_rfl_base [OF t(1)] by (simp add: Let_def)
  from Cons.IH [OF d(3) carry_next [OF Cons.prems(2) d(1,2)]] obtain k :: nat where
    ih: "limbs False ?r" "length ?r = length ds"
      "val ?r + of_nat k * base ^ length ds = of_int \<lfloor>?t / base\<rfloor> + of_nat n * val ds" by auto
  have "val (fmod ?t base # ?r) + of_nat k * base ^ length (d # ds)
      = fmod ?t base + base * (val ?r + of_nat k * base ^ length ds)" by (simp add: algebra_simps)
  also have "\<dots> = (fmod ?t base + base * of_int \<lfloor>?t / base\<rfloor>) + base * (of_nat n * val ds)"
    unfolding ih(3) by (simp add: algebra_simps)
  also have "\<dots> = c + of_nat n * val (d # ds)" unfolding fmod_eq by (simp add: algebra_simps)
  finally show ?case using ih ok_num_fmod [OF t(1)] r by auto
qed

text \<open>Multiplication loses nothing while the result fits into the limbs.\<close>

lemma multiply_spec:
  assumes "limbs h ds" "carry_ok h n c" "ds \<noteq> []" "c + of_nat n * val ds < base ^ length ds"
  shows "limbs h (multiply (of_nat n) c ds) \<and> length (multiply (of_nat n) c ds) = length ds
    \<and> val (multiply (of_nat n) c ds) = c + of_nat n * val ds"
proof -
  obtain k :: nat where s: "limbs h (multiply (of_nat n) c ds)" "length (multiply (of_nat n) c ds) = length ds"
    "val (multiply (of_nat n) c ds) + of_nat k * base ^ length ds = c + of_nat n * val ds"
    using multiply_loop_spec [OF assms(1,2)] assms(3) by (auto simp: multiply_def)
  have "k = 0"
  proof (rule ccontr)
    assume "k \<noteq> 0"
    then have "1 * base ^ length ds \<le> of_nat k * base ^ length ds" by (intro mult_right_mono) auto
    then show False using s(3) assms(4) val_nonneg [OF s(1)] by linarith
  qed
  with s show ?thesis by simp
qed

section \<open>Division\<close>

text \<open>The value of limbs with the most significant one first.\<close>

fun valM :: "rat list \<Rightarrow> rat" where
  "valM [] = 0"
| "valM (d # ds) = d * base ^ length ds + valM ds"

lemma valM_snoc: "valM (ds @ [d]) = valM ds * base + d"
  by (induction ds) (simp_all add: algebra_simps)

lemma valM_rev: "valM (rev ds) = val ds"
  by (induction ds) (simp_all add: valM_snoc algebra_simps)

fun limbsM :: "bool \<Rightarrow> rat list \<Rightarrow> bool" where
  "limbsM h [] = True"
| "limbsM h (d # ds) = (ok_num (h \<and> ds = []) d \<and> d < base \<and> limbsM h ds)"

lemma limbsM_snoc: "limbsM h (ds @ [d]) \<longleftrightarrow> limbsM False ds \<and> ok_num h d \<and> d < base"
  by (induction ds) auto

lemma limbsM_rev: "limbsM h (rev ds) = limbs h ds"
proof -
  have F: "limbsM False (rev ds) = limbs False ds" for ds
    by (induction ds) (auto simp: limbsM_snoc)
  show ?thesis by (cases ds) (auto simp: limbsM_snoc F)
qed

lemma floor_add_mult: "\<lfloor>(a + b * of_int c) / b\<rfloor> = \<lfloor>a / b\<rfloor> + c" if "0 < b" for a b :: rat
  using that by (simp add: add_divide_distrib)

lemma divide_step:
  assumes "r < 2 ^ p" "p \<le> 23" "ok_num h d" "d < base"
  defines "t \<equiv> of_nat r * base + d"
  shows "rfl (of_nat r * base + d) = t" "\<lfloor>rfl (t / 2 ^ p)\<rfloor> = \<lfloor>t / 2 ^ p\<rfloor>"
    "0 \<le> \<lfloor>t / 2 ^ p\<rfloor>" "of_int \<lfloor>t / 2 ^ p\<rfloor> < base"
    "\<not> h \<Longrightarrow> \<exists>r' < 2 ^ p. fmod t (2 ^ p) = of_nat r' \<and> rfl (fmod t (2 ^ p) * base) = of_nat r' * base"
proof -
  have p23: "(2 :: rat) ^ p \<le> 2 ^ 23" by (rule power_increasing [OF assms(2)]) simp
  have "of_nat (Suc r) \<le> (of_nat (2 ^ p) :: rat)" unfolding of_nat_le_iff using assms(1) by simp
  then have rb: "(of_nat r :: rat) \<le> 2 ^ p - 1" by simp
  have "of_nat r * base + d < (2 ^ p - 1) * base + base"
    using rb assms(4) by (intro add_le_less_mono mult_right_mono) auto
  then have lt: "t < 2 ^ p * base" by (simp add: t_def algebra_simps)
  also have "\<dots> \<le> 2 ^ 23 * 10 ^ 7" unfolding base_def using p23 by simp
  also have "\<dots> < (if h then 2 ^ 52 else 2 ^ 53)" by simp
  finally have lt2: "t < (if h then 2 ^ 52 else 2 ^ 53)" .
  obtain m where m: "0 \<le> m" "d = (if h then of_int m / 2 else of_int m)" using assms(3) by (auto simp: ok_num_def)
  have ok: "ok_num h t"
    using lt2 m by (intro ok_numI [of "(if h then 2 else 1) * (int r * 10 ^ 7) + m"]) (auto simp: t_def base_def add_divide_distrib)
  show "rfl (of_nat r * base + d) = t" using rfl_ok [OF ok] by (simp add: t_def)
  show "\<lfloor>rfl (t / 2 ^ p)\<rfloor> = \<lfloor>t / 2 ^ p\<rfloor>" using rfl_div2 [OF ok] assms(2) by simp
  show "0 \<le> \<lfloor>t / 2 ^ p\<rfloor>" using ok_num_nonneg [OF ok] by simp
  have "of_int \<lfloor>t / 2 ^ p\<rfloor> \<le> t / 2 ^ p" by simp
  also have "\<dots> < base" using lt by (simp add: pos_divide_less_eq mult.commute)
  finally show "of_int \<lfloor>t / 2 ^ p\<rfloor> < base" .
  show "\<exists>r' < 2 ^ p. fmod t (2 ^ p) = of_nat r' \<and> rfl (fmod t (2 ^ p) * base) = of_nat r' * base" if "\<not> h"
  proof -
    define k where "k = int r * 10 ^ 7 + m - 2 ^ p * \<lfloor>t / 2 ^ p\<rfloor>"
    have k: "fmod t (2 ^ p) = of_int k" using m that by (simp add: k_def fmod_def t_def base_def)
    have "0 \<le> fmod t (2 ^ p)" "fmod t (2 ^ p) < 2 ^ p" using fmod_bounds [of "2 ^ p" t] by simp_all
    then have kb: "0 \<le> k" "k < 2 ^ p" unfolding k by (simp_all add: of_int_less_numeral_power_cancel_iff)
    have "ok_num False (of_int k * base)"
    proof (rule ok_numI [of "k * 10 ^ 7"])
      have "(of_int k :: rat) \<le> 2 ^ 23" using kb(2) p23 k \<open>fmod t (2 ^ p) < 2 ^ p\<close> by linarith
      then have "(of_int k :: rat) * base \<le> 2 ^ 23 * 10 ^ 7" unfolding base_def by (intro mult_mono) auto
      then show "of_int k * base < (if False then 2 ^ 52 else 2 ^ 53)" by simp
    qed (use kb in \<open>auto simp: base_def\<close>)
    then show ?thesis using kb k rfl_ok by (intro exI [of _ "nat k"]) (auto simp: nat_less_iff)
  qed
qed


lemma divide_loop_spec:
  assumes "p \<le> 23"
  shows "limbsM h ds \<Longrightarrow> r < 2 ^ p \<Longrightarrow>
    limbsM False (divide_loop (2 ^ p) (of_nat r * base) ds) \<and> length (divide_loop (2 ^ p) (of_nat r * base) ds) = length ds \<and>
    valM (divide_loop (2 ^ p) (of_nat r * base) ds) = of_int \<lfloor>(of_nat r * base ^ length ds + valM ds) / 2 ^ p\<rfloor>"
proof (induction ds arbitrary: r)
  case Nil
  have "(of_nat r :: rat) < 2 ^ p" using Nil.prems(2) by (metis of_nat_less_iff of_nat_numeral of_nat_power)
  then have "\<lfloor>of_nat r / 2 ^ p :: rat\<rfloor> = 0" by (simp add: floor_eq_iff pos_divide_less_eq)
  then show ?case by simp
next
  case (Cons d ds)
  let ?t = "of_nat r * base + d"
  have d: "ok_num (h \<and> ds = []) d" "d < base" "limbsM h ds" using Cons.prems(1) by simp_all
  note t = divide_step [OF Cons.prems(2) assms d(1,2)]
  have q: "ok_num False (of_int \<lfloor>?t / 2 ^ p\<rfloor>)"
    using t(3,4) by (intro ok_numI [of "\<lfloor>?t / 2 ^ p\<rfloor>"]) (auto simp: base_def)
  show ?case
  proof (cases "ds = []")
    case True
    then show ?thesis using t q by (simp add: Let_def)
  next
    case False
    then obtain r' where r': "r' < 2 ^ p" "fmod ?t (2 ^ p) = of_nat r'" "rfl (fmod ?t (2 ^ p) * base) = of_nat r' * base"
      using t(5) by auto
    let ?l = "divide_loop (2 ^ p) (of_nat r' * base) ds"
    have eq: "divide_loop (2 ^ p) (of_nat r * base) (d # ds) = of_int \<lfloor>?t / 2 ^ p\<rfloor> # ?l"
      using t(1,2) r'(3) by (simp add: Let_def)
    note ih = Cons.IH [OF d(3) r'(1)]
    have int: "base ^ length ds = of_int (10 ^ (7 * length ds))" by (simp add: base_def power_mult)
    have "of_nat r * base ^ length (d # ds) + valM (d # ds) = ?t * base ^ length ds + valM ds"
      by (simp add: algebra_simps)
    also have "\<dots> = (of_nat r' + 2 ^ p * of_int \<lfloor>?t / 2 ^ p\<rfloor>) * base ^ length ds + valM ds"
      using fmod_eq [of ?t "2 ^ p"] r'(2) by simp
    also have "\<dots> = (of_nat r' * base ^ length ds + valM ds) + 2 ^ p * of_int (\<lfloor>?t / 2 ^ p\<rfloor> * 10 ^ (7 * length ds))"
      unfolding int by (simp add: algebra_simps)
    finally have "\<lfloor>(of_nat r * base ^ length (d # ds) + valM (d # ds)) / 2 ^ p\<rfloor>
        = \<lfloor>(of_nat r' * base ^ length ds + valM ds) / 2 ^ p\<rfloor> + \<lfloor>?t / 2 ^ p\<rfloor> * 10 ^ (7 * length ds)"
      by (simp only: floor_add_mult [of "2 ^ p"] zero_less_power zero_less_numeral)
    then show ?thesis using ih q t(4) unfolding eq by (simp add: int [symmetric] algebra_simps) (simp add: int)
  qed
qed

lemma divide_spec:
  assumes "p \<le> 23" "limbs h ds"
  shows "limbs False (divide (2 ^ p) ds)" "length (divide (2 ^ p) ds) = length ds"
    "val (divide (2 ^ p) ds) = of_int \<lfloor>val ds / 2 ^ p\<rfloor>"
  using divide_loop_spec [OF assms(1), of h "rev ds" 0] assms(2) limbsM_rev [of False "divide (2 ^ p) ds"] valM_rev [of "divide (2 ^ p) ds"]
  by (simp_all add: limbsM_rev valM_rev divide_def)


section \<open>Printing\<close>

lemma int_limb: "ok_num False d \<Longrightarrow> d < base \<Longrightarrow> \<exists>k < 10 ^ 7. d = of_nat k"
proof -
  assume "ok_num False d" "d < base"
  then obtain m where "0 \<le> m" "d = of_int m" "of_int m < (10 ^ 7 :: rat)" by (auto simp: ok_num_def base_def)
  moreover from this have "m < 10 ^ 7" by (metis of_int_less_numeral_power_cancel_iff)
  ultimately show ?thesis by (intro exI [of _ "nat m"]) (auto simp: nat_less_iff)
qed

lemma str_slice_0: "str_slice s 0 (int b) = take b s"
  by (simp add: str_slice_def clamp_index_def min_def)

lemma zeros7: "lit ''0000000'' = replicate 7 48"
  by code_simp

lemma pad_limb:
  assumes "k < 10 ^ 7"
  shows "str_slice (lit ''0000000'') 0 (7 - int (length (dec k))) @ dec k = pad 7 k"
proof -
  have "length (dec k) \<le> 7" using assms by (intro length_dec_le) auto
  then have eq: "7 - int (length (dec k)) = int (7 - length (dec k))" by simp
  have "min (7 - length (dec k)) 7 = 7 - length (dec k)" by simp
  then show ?thesis unfolding zeros7 eq str_slice_0 take_replicate pad_def by (rule arg_cong)
qed

lemma base_power: "base ^ n = of_nat (10 ^ (7 * n))"
  by (simp add: base_def power_mult)

lemma numToString_loop_tail:
  "limbsM False ds \<Longrightarrow> 0 < v \<Longrightarrow> \<exists>N. valM ds = of_nat N \<and> numToString_loop (dec v) ds = dec (v * 10 ^ (7 * length ds) + N)"
proof (induction ds arbitrary: v)
  case (Cons d ds)
  obtain k where k: "k < 10 ^ 7" "d = of_nat k" using Cons.prems(1) int_limb by auto
  have "dec v @ str_slice (lit ''0000000'') 0 (7 - int (length (dec k))) @ dec k = dec (v * 10 ^ 7 + k)"
    using pad_limb [OF k(1)] dec_append_pad [OF Cons.prems(2) _ k(1)] by simp
  then have step: "numToString_loop (dec v) (d # ds) = numToString_loop (dec (v * 10 ^ 7 + k)) ds"
    using k(2) by (simp add: Let_def)
  obtain N where "valM ds = of_nat N" "numToString_loop (dec (v * 10 ^ 7 + k)) ds = dec ((v * 10 ^ 7 + k) * 10 ^ (7 * length ds) + N)"
    using Cons.IH [of "v * 10 ^ 7 + k"] Cons.prems by auto
  then show ?case using k(2) step
    by (intro exI [of _ "k * 10 ^ (7 * length ds) + N"])
      (simp add: base_power power_add algebra_simps del: numToString_loop.simps)
qed simp

lemma numToString_loop_start:
  "limbsM False ds \<Longrightarrow> ds \<noteq> [] \<Longrightarrow> \<exists>N. valM ds = of_nat N \<and> numToString_loop [] ds = dec N"
proof (induction ds)
  case (Cons d ds)
  obtain k where k: "k < 10 ^ 7" "d = of_nat k" using Cons.prems(1) int_limb by auto
  show ?case
  proof (cases "ds = [] \<or> k \<noteq> 0")
    case True
    then have step: "numToString_loop [] (d # ds) = numToString_loop (dec k) ds" using k(2) by (simp add: Let_def)
    show ?thesis
    proof (cases "k = 0")
      case False
      then obtain N where "valM ds = of_nat N" "numToString_loop (dec k) ds = dec (k * 10 ^ (7 * length ds) + N)"
        using numToString_loop_tail [of ds k] Cons.prems(1) by auto
      then show ?thesis using step k(2) by (intro exI [of _ "k * 10 ^ (7 * length ds) + N"]) (simp add: base_power del: numToString_loop.simps)
    qed (use True step k(2) in \<open>auto intro!: exI [of _ 0]\<close>)
  next
    case False
    then show ?thesis using Cons k(2) by (auto simp: Let_def)
  qed
qed simp

lemma numToString_dec: "limbs False ds \<Longrightarrow> ds \<noteq> [] \<Longrightarrow> val ds = of_nat N \<Longrightarrow> numToString ds = dec N"
  using numToString_loop_start [of "rev ds"] by (auto simp: numToString_def limbsM_rev valM_rev)

section \<open>Powers and logarithms\<close>

lemma rfl_pow2: "n < 1024 \<Longrightarrow> rfl (2 ^ n) = 2 ^ n"
proof (rule rfl_exact [of _ 1 "int n"])
  assume "n < 1024"
  then show "\<bar>2 ^ n :: rat\<bar> < 2 ^ 1024" by (simp only: abs_power_minus abs_numeral power_abs power_strict_increasing)
qed (simp_all add: power_int_def)

lemma pow_two: "b + a * n < 1024 \<Longrightarrow> pow (2 ^ a) n (2 ^ b) = 2 ^ (b + a * n)"
proof (induction n arbitrary: a b rule: less_induct)
  case (less n)
  consider "n = 0" | "odd n" | "n \<noteq> 0" "even n" by blast
  then show ?case
  proof cases
    case 2
    then have n: "0 < n" "n mod 2 = 1" "b + a + a * (n - 1) = b + a * n" by (auto elim!: oddE)
    have "rfl (2 ^ b * 2 ^ a) = 2 ^ (b + a)" using less.prems n(3) by (simp flip: power_add add: rfl_pow2)
    then show ?thesis using less.IH [of "n - 1" "b + a" a] n less.prems by (subst pow.simps) simp
  next
    case 3
    then have n: "n mod 2 \<noteq> 1" "n div 2 < n" "a * 2 * (n div 2) = a * n" by (auto elim!: evenE)
    have "a * 2 \<le> a * n" using 3 by (auto elim!: evenE)
    then have "rfl (2 ^ (a * 2)) = 2 ^ (a * 2)" using less.prems by (intro rfl_pow2) linarith
    then have "rfl (2 ^ a * 2 ^ a) = 2 ^ (a * 2)" by (simp flip: power_add mult_2 add: mult.commute)
    then show ?thesis using less.IH [of "n div 2" b "a * 2"] n 3 less.prems by (subst pow.simps) simp
  qed (simp add: pow.simps)
qed

lemma pow2_exact: "n < 1024 \<Longrightarrow> pow 2 n 1 = 2 ^ n"
  using pow_two [of 0 1 n] by simp

lemma pow10_exact: "j < 7 \<Longrightarrow> pow 10 j 1 = 10 ^ j"
proof -
  have r: "rfl (numeral w) = numeral w" if "numeral w < (2 ^ 53 :: int)" for w
    using rfl_int [of "numeral w"] that by simp
  assume "j < 7"
  then consider "j = 0" | "j = 1" | "j = 2" | "j = 3" | "j = 4" | "j = 5" | "j = 6" by linarith
  then show ?thesis by cases (simp_all add: pow.simps r)
qed

lemma log_large_spec: "1 \<le> x \<Longrightarrow> \<exists>k y. log_large n x = (n + k, y) \<and> x = y * 2 ^ k \<and> 1 \<le> y"
proof (induction n x rule: log_large.induct)
  case (1 n x)
  show ?case
  proof (cases "4096 \<le> x")
    case True
    then obtain k y where "log_large (n + 12) (x / 4096) = (n + 12 + k, y)" "x / 4096 = y * 2 ^ k" "1 \<le> y"
      using 1 by auto
    then show ?thesis using True
      unfolding log_large.simps [of n x] by (intro exI [of _ "12 + k"] exI [of _ y]) (simp add: power_add)
  next
    case False
    then show ?thesis using 1 by (intro exI [of _ 0] exI [of _ x]) (simp add: log_large.simps [of n x])
  qed
qed

lemma log_small_spec: "1 \<le> x \<Longrightarrow> \<exists>k. log_small n x = n + k \<and> 2 ^ k \<le> x \<and> x < 2 ^ (k + 1)"
proof (induction n x rule: log_small.induct)
  case (1 n x)
  show ?case
  proof (cases "2 \<le> x")
    case True
    then obtain k where "log_small (n + 1) (x / 2) = n + 1 + k" "2 ^ k \<le> x / 2" "x / 2 < 2 ^ (k + 1)"
      using 1 by auto
    then show ?thesis using True by (intro exI [of _ "k + 1"]) (simp add: log_small.simps [of n x])
  next
    case False
    then show ?thesis using 1 by (intro exI [of _ 0]) (simp add: log_small.simps [of n x])
  qed
qed

lemma log_spec: "1 \<le> x \<Longrightarrow> 2 ^ log x \<le> x \<and> x < 2 ^ (log x + 1)"
proof -
  assume "1 \<le> x"
  then obtain k y where k: "log_large 0 x = (k, y)" "x = y * 2 ^ k" "1 \<le> y" using log_large_spec [of x 0] by auto
  then obtain j where "log_small k y = k + j" "2 ^ j \<le> y" "y < 2 ^ (j + 1)" using log_small_spec by blast
  then show ?thesis using k by (simp add: log_def power_add)
qed

lemma log_below: "x < 2 \<Longrightarrow> log x = 0"
  by (simp add: log_def log_large.simps [of 0] log_small.simps [of 0])

lemma round_even_minus: "round_even (- q) = - round_even q"
proof (cases "q = of_int \<lfloor>q\<rfloor>")
  case True
  then show ?thesis by (metis of_int_minus round_even_int)
next
  case False
  have "of_int \<lfloor>q\<rfloor> \<le> q" "q < of_int \<lfloor>q\<rfloor> + 1" by linarith+
  then have "of_int \<lfloor>q\<rfloor> < q" "q < of_int \<lfloor>q\<rfloor> + 1" using False by (simp_all only: order_less_le) auto
  then have f: "\<lfloor>- q\<rfloor> = - \<lfloor>q\<rfloor> - 1" unfolding floor_eq_iff by simp
  then show ?thesis unfolding round_even_def Let_def f by auto
qed

lemma representable_abs: "representable x \<Longrightarrow> representable \<bar>x\<bar>"
proof -
  assume r: "representable x"
  have "representable (- x)"
  proof (cases "x = 0")
    case False
    have "ulp_exp (- x) = ulp_exp x" by (simp add: ulp_exp_def)
    moreover have "round_even (- x / 2 powi ulp_exp x) = - round_even (x / 2 powi ulp_exp x)"
      by (simp add: round_even_minus [symmetric])
    ultimately show ?thesis using r False unfolding representable_def fl_def Let_def
      by (auto split: if_splits)
  qed (use r in simp)
  then show ?thesis using r by (simp add: abs_if)
qed

section \<open>Scaling\<close>

lemma limbs_zero: "limbs h (replicate n 0)" "val (replicate n 0) = 0"
proof -
  have z: "ok_num b 0" for b by (auto simp: ok_num_def intro!: exI [of _ 0])
  show "limbs h (replicate n 0)"
    by (induction n arbitrary: h) (simp_all add: z)
  show "val (replicate n 0) = 0" by (induction n) simp_all
qed

lemma multiply_zero: "multiply 0 c ds = multiply 0 c (replicate (length ds) 0)"
proof -
  have "multiply_loop 0 c ds = multiply_loop 0 c (replicate (length ds) 0)" for c
    by (induction ds arbitrary: c) (simp_all add: Let_def)
  then show ?thesis by (simp add: multiply_def)
qed

lemma load_spec:
  assumes "ok_num h z" "length ds = 6"
  shows "limbs h (multiply 0 z ds) \<and> length (multiply 0 z ds) = 6 \<and> val (multiply 0 z ds) = z"
proof -
  have "z < 2 ^ 53"
    using assms(1) by (auto simp: ok_num_def of_int_less_numeral_power_cancel_iff [symmetric]
        simp del: of_int_less_numeral_power_cancel_iff split: if_splits)
  then have "z < base ^ 6" by (simp add: base_def)
  then show ?thesis
    using multiply_spec [of h "replicate 6 0" 0 z] multiply_zero [of z ds] assms limbs_zero [where n = 6]
    by (simp add: carry_ok_def)
qed

lemma shift_decimals_spec:
  "limbs h ds \<Longrightarrow> ds \<noteq> [] \<Longrightarrow> val ds * 10 ^ j < base ^ length ds \<Longrightarrow>
    limbs h (shift_decimals j ds) \<and> length (shift_decimals j ds) = length ds \<and> val (shift_decimals j ds) = val ds * 10 ^ j"
proof (induction j ds rule: shift_decimals.induct)
  case (1 j ds)
  have z: "ok_num h 0" by (auto simp: ok_num_def intro!: exI [of _ 0])
  have nn: "0 \<le> val ds" by (rule val_nonneg [OF 1(2)])
  show ?case
  proof (cases "7 \<le> j")
    case True
    then have j: "(10 :: rat) ^ j = 10 ^ 7 * 10 ^ (j - 7)" by (metis le_add_diff_inverse power_add)
    have "val ds * 10 ^ 7 * 1 \<le> val ds * 10 ^ 7 * 10 ^ (j - 7)" using nn by (intro mult_left_mono) auto
    then have "0 + of_nat (10 ^ 7) * val ds < base ^ length ds" using 1(4) by (simp add: j mult.commute)
    then have m: "limbs h (multiply (10 ^ 7) 0 ds)" "length (multiply (10 ^ 7) 0 ds) = length ds"
        "val (multiply (10 ^ 7) 0 ds) = 10 ^ 7 * val ds"
      using multiply_spec [of h ds "10 ^ 7" 0] 1(2,3) z by (simp_all add: carry_ok_def)
    have "multiply (10 ^ 7) 0 ds \<noteq> []" using m(2) 1(3) by force
    moreover have "val (multiply (10 ^ 7) 0 ds) * 10 ^ (j - 7) = val ds * 10 ^ j" by (simp only: m(3) j mult_ac)
    ultimately show ?thesis using 1(1) [OF True m(1)] 1(4) m True by (subst (1 2 3) shift_decimals.simps) simp
  next
    case False
    then have j: "pow 10 j 1 = of_nat (10 ^ j)" using pow10_exact [of j] by simp
    have "(10 :: nat) ^ j \<le> 10 ^ 7" using False by (intro power_increasing) auto
    then have "carry_ok h (10 ^ j) 0" using z by (simp add: carry_ok_def)
    moreover have "0 + of_nat (10 ^ j) * val ds < base ^ length ds" using 1(4) by (simp add: mult.commute)
    ultimately have "limbs h (multiply (of_nat (10 ^ j)) 0 ds) \<and> length (multiply (of_nat (10 ^ j)) 0 ds) = length ds
        \<and> val (multiply (of_nat (10 ^ j)) 0 ds) = 0 + of_nat (10 ^ j) * val ds"
      by (intro multiply_spec [OF 1(2) _ 1(3)])
    then show ?thesis using False unfolding shift_decimals.simps [of j] j by (simp add: mult.commute)
  qed
qed

lemma floor_floor_div: "\<lfloor>of_int \<lfloor>y\<rfloor> / (of_nat b :: rat)\<rfloor> = \<lfloor>y / of_nat b\<rfloor>" if "0 < b" for y :: rat
proof (rule sym, rule floor_unique)
  let ?q = "\<lfloor>y\<rfloor> div int b"
  have q: "\<lfloor>of_int \<lfloor>y\<rfloor> / (of_nat b :: rat)\<rfloor> = ?q" by (metis floor_divide_of_int_eq of_int_of_nat_eq)
  have b: "(0 :: rat) < of_nat b" using that by simp
  have "\<lfloor>y\<rfloor> = ?q * int b + \<lfloor>y\<rfloor> mod int b" "0 \<le> \<lfloor>y\<rfloor> mod int b" "\<lfloor>y\<rfloor> mod int b < int b" using that by simp_all
  moreover have "(?q + 1) * int b = ?q * int b + int b" by (simp add: distrib_right)
  ultimately have "?q * int b \<le> \<lfloor>y\<rfloor>" "\<lfloor>y\<rfloor> + 1 \<le> (?q + 1) * int b" by linarith+
  then have "of_int (?q * int b) \<le> y" "y < of_int ((?q + 1) * int b)" by (simp_all only: le_floor_iff floor_less_iff) linarith
  then show "of_int \<lfloor>of_int \<lfloor>y\<rfloor> / (of_nat b :: rat)\<rfloor> \<le> y / of_nat b"
    and "y / of_nat b < of_int \<lfloor>of_int \<lfloor>y\<rfloor> / (of_nat b :: rat)\<rfloor> + 1"
    unfolding q using b by (simp_all add: pos_le_divide_eq pos_divide_less_eq)
qed

lemma shift_bits_spec:
  "limbs h ds \<Longrightarrow> limbs False (shift_bits j ds) \<and> length (shift_bits j ds) = length ds \<and>
    val (shift_bits j ds) = of_int \<lfloor>val ds / 2 ^ j\<rfloor>"
proof (induction j ds arbitrary: h rule: shift_bits.induct)
  case (1 j ds)
  show ?case
  proof (cases "23 \<le> j")
    case True
    then have j: "(2 :: rat) ^ j = 2 ^ 23 * 2 ^ (j - 23)" by (metis le_add_diff_inverse power_add)
    note d = divide_spec [OF order.refl 1(2)]
    have "\<lfloor>of_int \<lfloor>val ds / 2 ^ 23\<rfloor> / (2 :: rat) ^ (j - 23)\<rfloor> = \<lfloor>val ds / 2 ^ j\<rfloor>"
      using floor_floor_div [of "2 ^ (j - 23)" "val ds / 2 ^ 23"] by (simp add: j)
    then show ?thesis using 1(1) [OF True d(1)] d True by (subst (1 2 3) shift_bits.simps) simp
  next
    case False
    then show ?thesis using divide_spec [OF _ 1(2), of j] by (subst (1 2 3) shift_bits.simps) simp
  qed
qed


section \<open>Mantissa and exponent\<close>

lemma tiny_bounds: "2 powi (-70) < rfl (1 / 10 ^ 21)" "rfl (1 / 10 ^ 21) < 2 / 10 ^ 21"
proof -
  have "\<bar>rfl (1 / 10 ^ 21) - 1 / 10 ^ 21\<bar> \<le> 2 powi (-69 - 54)"
    using fl_error [of "1 / 10 ^ 21" "-69"] by (simp add: power_int_def power_one_over)
  moreover have "(2 :: rat) powi (-69 - 54) < 1 / 10 ^ 22" "(2 :: rat) powi (-70) < 9 / 10 ^ 22"
    by (simp_all add: power_int_def power_one_over)
  moreover have "(1 :: rat) / 10 ^ 21 = 10 / 10 ^ 22" "(2 :: rat) / 10 ^ 21 = 20 / 10 ^ 22" by simp_all
  ultimately show "2 powi (-70) < rfl (1 / 10 ^ 21)" "rfl (1 / 10 ^ 21) < 2 / 10 ^ 21" by linarith+
qed

lemma representable_mantissa:
  assumes "representable x" "2 powi (-1000) < x"
  obtains M where "0 < M" "M < 2 ^ 53" "x = of_int M * 2 powi (ilog2 x - 52)"
proof -
  have x0: "0 < x" using assms(2) zero_less_power_int [of "2 :: rat" "-1000"] by linarith
  have "-1000 \<le> ilog2 x" using assms(2) by (intro ilog2_ge) simp
  then have u: "ulp_exp x = ilog2 x - 52" using x0 by (simp add: ulp_exp_def)
  define M where "M = round_even (x / 2 powi ulp_exp x)"
  have "of_int M * 2 powi ulp_exp x = x"
    using assms(1) x0 unfolding representable_def fl_def Let_def M_def by (simp split: if_splits)
  then have x: "x = of_int M * 2 powi (ilog2 x - 52)" using u by simp
  have p: "(0 :: rat) < 2 powi (ilog2 x - 52)" by simp
  have "0 < M" using x0 x p by (metis of_int_0_less_iff zero_less_mult_pos2)
  moreover have "M < 2 ^ 53"
  proof -
    have "of_int M * 2 powi (ilog2 x - 52) < (2 :: rat) powi (ilog2 x + 1)" using ilog2_bounds [OF x0] x by simp
    also have "\<dots> = 2 powi 53 * 2 powi (ilog2 x - 52)" by (subst power_int_add [symmetric]) (simp_all add: algebra_simps)
    also have "\<dots> = 2 ^ 53 * 2 powi (ilog2 x - 52)" by (simp add: power_int_def [of _ 53])
    finally have "of_int M < (2 ^ 53 :: rat)" using p by (simp only: mult_less_cancel_right_pos)
    then show ?thesis by (metis of_int_less_numeral_power_cancel_iff)
  qed
  ultimately show thesis using x that by blast
qed

lemma rfl_scale:
  assumes "0 < M" "M < 2 ^ 53" "x = of_int M * 2 powi u" "-1074 \<le> u + k" "u + k < 900"
  shows "rfl (x * 2 powi k) = x * 2 powi k"
proof (rule rfl_exact [of _ M "u + k"])
  show "x * 2 powi k = of_int M * 2 powi (u + k)" using assms(3) by (simp add: power_int_add)
  have "of_int M < (2 ^ 53 :: rat)" using assms(2) by (metis of_int_less_numeral_power_cancel_iff)
  then have "of_int M * 2 powi (u + k) < (2 ^ 53 * 2 powi (u + k) :: rat)" by (intro mult_strict_right_mono) auto
  also have "\<dots> = 2 powi (53 + u + k)" using power_int_add [of "2 :: rat" 53 "u + k"] by (simp add: power_int_def add.assoc)
  also have "\<dots> \<le> 2 powi 1024" unfolding powi_le_cancel using assms(5) by linarith
  finally show "\<bar>x * 2 powi k\<bar> < 2 ^ 1024"
    using assms(1,3) by (simp add: power_int_add abs_mult power_int_def [of _ 1024] mult.assoc)
qed (use assms in auto)

text \<open>The exponent found by the logarithm and the mantissa it leaves.\<close>

lemma mantissa_steps:
  assumes "representable x" "rfl (1 / 10 ^ 21) < x" "x < 10 ^ 21"
  defines "e \<equiv> int (log (rfl (x * pow 2 69 1))) - 69"
  shows "-69 \<le> e" "e < 70"
    "rfl ((if e < 0 then rfl (x * pow 2 (nat (- e)) 1) else rfl (x / pow 2 (nat e) 1)) * 2 ^ 52) = x * 2 powi (52 - e)"
    "\<exists>h. ok_num h (x * 2 powi (52 - e)) \<and> (52 \<le> e \<longrightarrow> \<not> h)"
proof -
  have lo: "2 powi (-70) < x" using tiny_bounds(1) assms(2) by linarith
  have x0: "0 < x" using lo zero_less_power_int [of "2 :: rat" "-70"] by linarith
  have "(2 :: rat) powi (-1000) < 2 powi (-70)" unfolding powi_less_cancel by simp
  then have "2 powi (-1000) < x" using lo by linarith
  then obtain M where M: "0 < M" "M < 2 ^ 53" "x = of_int M * 2 powi (ilog2 x - 52)"
    using representable_mantissa [OF assms(1)] by blast
  have "x < 2 powi 70" using assms(3) by (simp add: power_int_def)
  then have l: "-70 \<le> ilog2 x" "ilog2 x < 70" using lo x0 by (auto intro: ilog2_ge ilog2_less)
  have scale: "rfl (x * 2 powi k) = x * 2 powi k" if "-200 \<le> k" "k \<le> 200" for k
    using l that by (intro rfl_scale [OF M]) auto
  have "rfl (x * pow 2 69 1) = x * 2 powi 69" using scale [of 69] by (simp add: pow2_exact power_int_def)
  then have e: "e = int (log (x * 2 powi 69)) - 69" by (simp add: e_def)
  have cases: "ilog2 x = e \<and> -69 \<le> e \<or> ilog2 x = -70 \<and> e = -69"
  proof (cases "ilog2 x = -70")
    case True
    have "x < 2 powi (-69)" using ilog2_bounds [OF x0] True by simp
    then have "x * 2 powi 69 < 2" by (simp add: power_int_def field_simps)
    then show ?thesis using True log_below e by simp
  next
    case False
    then have "2 powi (-69) \<le> (2 :: rat) powi ilog2 x" unfolding powi_le_cancel using l(1) by linarith
    then have "2 powi (-69) \<le> x" using ilog2_bounds [OF x0] by linarith
    then have "1 \<le> x * 2 powi 69" by (simp add: power_int_def field_simps)
    from log_spec [OF this] have "2 powi int (log (x * 2 powi 69)) \<le> x * 2 powi 69"
      "x * 2 powi 69 < 2 powi (int (log (x * 2 powi 69)) + 1)" by (simp_all add: power_int_def nat_add_distrib)
    then have "2 powi e \<le> x" "x < 2 powi (e + 1)"
      unfolding e by (simp_all add: power_int_diff power_int_add field_simps)
    then have "e \<le> ilog2 x" "ilog2 x < e + 1" using x0 ilog2_ge ilog2_less by blast+
    then show ?thesis using l(1) False by linarith
  qed
  then show b: "-69 \<le> e" "e < 70" using l(2) by auto
  have "(if e < 0 then rfl (x * pow 2 (nat (- e)) 1) else rfl (x / pow 2 (nat e) 1)) = x * 2 powi (- e)"
    using scale [of "- e"] b by (auto simp: pow2_exact power_int_minus power_int_def field_simps)
  then show "rfl ((if e < 0 then rfl (x * pow 2 (nat (- e)) 1) else rfl (x / pow 2 (nat e) 1)) * 2 ^ 52) = x * 2 powi (52 - e)"
    using scale [of "52 - e"] b power_int_add [of "2 :: rat" "- e" 52] by (simp add: power_int_def [of _ 52] mult.assoc add.commute)
  from cases show "\<exists>h. ok_num h (x * 2 powi (52 - e)) \<and> (52 \<le> e \<longrightarrow> \<not> h)"
  proof
    assume c: "ilog2 x = e \<and> -69 \<le> e"
    have "x * 2 powi (52 - e) = of_int M * (2 powi (e - 52) * 2 powi (52 - e))" using M(3) c by simp
    also have "(2 :: rat) powi (e - 52) * 2 powi (52 - e) = 1" using power_int_add [of "2 :: rat" "e - 52" "52 - e"] by simp
    finally show ?thesis using M(1,2) by (intro exI [of _ False]) (auto simp: ok_num_def intro!: exI [of _ M])
  next
    assume c: "ilog2 x = -70 \<and> e = -69"
    have "x * 2 powi (52 - e) = of_int M * (2 powi (-122) * 2 powi 121)" using M(3) c by simp
    also have "(2 :: rat) powi (-122) * 2 powi 121 = 1 / 2" using power_int_add [of "2 :: rat" "-122" 121] by simp
    finally show ?thesis using M(1,2) c by (intro exI [of _ True]) (auto simp: ok_num_def intro!: exI [of _ M])
  qed
qed


section \<open>The digits\<close>

text \<open>Scaling, dividing and rounding half up.\<close>

lemma round_limbs:
  assumes "limbs h d0" "length d0 = 6" "val d0 < 2 ^ 53" "f \<le> 20"
  shows "limbs False (divide 2 (multiply 1 1 (shift_bits j (shift_decimals f d0)))) \<and>
    length (divide 2 (multiply 1 1 (shift_bits j (shift_decimals f d0)))) = 6 \<and>
    val (divide 2 (multiply 1 1 (shift_bits j (shift_decimals f d0)))) = of_int \<lfloor>val d0 * 10 ^ f / 2 ^ Suc j + 1 / 2\<rfloor>"
proof -
  let ?y = "val d0 * 10 ^ f / 2 ^ j"
  have v0: "0 \<le> val d0" by (rule val_nonneg [OF assms(1)])
  have "val d0 * 10 ^ f \<le> 2 ^ 53 * 10 ^ 20"
    using assms(3,4) v0 by (intro mult_mono power_increasing) auto
  also have "\<dots> < base ^ 6 - 1" by (simp add: base_def)
  finally have bound: "val d0 * 10 ^ f < base ^ 6 - 1" .
  have ne: "d0 \<noteq> []" using assms(2) by auto
  have d1: "limbs h (shift_decimals f d0)" "length (shift_decimals f d0) = 6" "val (shift_decimals f d0) = val d0 * 10 ^ f"
    using shift_decimals_spec [OF assms(1) ne, of f] bound assms(2) by auto
  define d2 where "d2 = shift_bits j (shift_decimals f d0)"
  have d2: "limbs False d2" "length d2 = 6" "val d2 = of_int \<lfloor>?y\<rfloor>"
    using shift_bits_spec [OF d1(1)] d1 by (simp_all add: d2_def)
  have ne2: "d2 \<noteq> []" using d2(2) by auto
  have "val d2 \<le> ?y" unfolding d2(3) by simp
  also have "\<dots> \<le> val d0 * 10 ^ f / 1" using v0 by (intro divide_left_mono) auto
  finally have "1 + of_nat 1 * val d2 < base ^ length d2" using bound d2(2) by simp
  moreover have "carry_ok False 1 1" by (auto simp: carry_ok_def ok_num_def intro!: exI [of _ 1])
  ultimately have d3: "limbs False (multiply 1 1 d2)" "length (multiply 1 1 d2) = 6" "val (multiply 1 1 d2) = 1 + val d2"
    using multiply_spec [OF d2(1) _ ne2, of 1 1] d2(2) by auto
  have "(1 + val d2) / 2 = of_int \<lfloor>?y + 1\<rfloor> / of_nat 2" unfolding d2(3) by simp
  then have "\<lfloor>(1 + val d2) / 2\<rfloor> = \<lfloor>(?y + 1) / of_nat 2\<rfloor>" using floor_floor_div [of 2 "?y + 1"] by (simp add: add.commute)
  also have "(?y + 1) / of_nat 2 = val d0 * 10 ^ f / 2 ^ Suc j + 1 / 2" by (simp add: field_simps)
  finally show ?thesis using divide_spec [of 1, OF _ d3(1)] d3 by (simp add: d2_def)
qed

lemma slice_20_zeros: "f \<le> 20 \<Longrightarrow> str_slice (lit ''0.00000000000000000000'') 2 (2 + int f) = replicate f 48"
proof -
  assume f: "f \<le> 20"
  have z: "lit ''0.00000000000000000000'' = 48 # 46 # replicate 20 48" by code_simp
  have "str_slice (48 # 46 # replicate 20 48) (int 2) (int (2 + f)) = take f (replicate 20 48)"
    unfolding str_slice_nonneg by simp
  then show ?thesis using f unfolding z by (simp add: min_def)
qed

lemma dec_zeros: "0 < v \<Longrightarrow> dec v @ replicate f 48 = dec (v * 10 ^ f)"
proof (cases f)
  case (Suc k)
  moreover assume "0 < v"
  ultimately show ?thesis using dec_append_pad [of v f 0] by (simp add: pad_def replicate_append_same)
qed simp

lemma scaled_digits_frac:
  assumes "ok_num h (x * 2 powi (52 - e))" "e < 52" "f \<le> 20" "length data = 6" "0 < x"
  defines "d \<equiv> divide 2 (multiply 1 1 (shift_bits (nat (52 - e - 1)) (shift_decimals f (multiply 0 (x * 2 powi (52 - e)) data))))"
  shows "numToString d = dec (nat \<lfloor>x * 10 ^ f + 1 / 2\<rfloor>) \<and> length d = 6"
proof -
  let ?z = "x * 2 powi (52 - e)" and ?j = "nat (52 - e - 1)"
  have d0: "limbs h (multiply 0 ?z data)" "length (multiply 0 ?z data) = 6" "val (multiply 0 ?z data) = ?z"
    using load_spec [OF assms(1,4)] by simp_all
  have "?z < 2 ^ 53" using assms(1) by (auto simp: ok_num_def of_int_less_numeral_power_cancel_iff [symmetric]
        simp del: of_int_less_numeral_power_cancel_iff split: if_splits)
  then have r: "limbs False d" "length d = 6" "val d = of_int \<lfloor>?z * 10 ^ f / 2 ^ Suc ?j + 1 / 2\<rfloor>"
    using round_limbs [OF d0(1,2) _ assms(3), of ?j] by (simp_all add: d0(3) d_def)
  have "2 ^ Suc ?j = (2 :: rat) powi (52 - e)" using assms(2) by (simp add: power_int_def Suc_nat_eq_nat_zadd1 del: power_Suc)
  then have "?z * 10 ^ f / 2 ^ Suc ?j = x * 10 ^ f" by simp
  moreover have "0 \<le> \<lfloor>x * 10 ^ f + 1 / 2\<rfloor>" using assms(5) by simp
  ultimately have "val d = of_nat (nat \<lfloor>x * 10 ^ f + 1 / 2\<rfloor>)" using r(3) by simp
  moreover have "d \<noteq> []" using r(2) by auto
  ultimately show ?thesis using r numToString_dec by blast
qed

lemma scaled_digits_whole:
  assumes "ok_num False (x * 2 powi (52 - e))" "52 \<le> e" "e < 70" "x < 10 ^ 21" "length data = 6" "0 < x"
  defines "d \<equiv> multiply (2 ^ nat (- (52 - e))) 0 (multiply 0 (x * 2 powi (52 - e)) data)"
  shows "numToString d @ replicate f 48 = dec (nat \<lfloor>x * 10 ^ f + 1 / 2\<rfloor>) \<and> length d = 6"
proof -
  let ?z = "x * 2 powi (52 - e)" and ?k = "nat (- (52 - e))"
  have d0: "limbs False (multiply 0 ?z data)" "length (multiply 0 ?z data) = 6" "val (multiply 0 ?z data) = ?z"
    using load_spec [OF assms(1,5)] by simp_all
  have zx: "2 ^ ?k * ?z = x" using assms(2) by (simp add: power_int_def field_simps)
  have "(2 :: nat) ^ ?k \<le> 2 ^ 17" using assms(3) by (intro power_increasing) auto
  then have c: "carry_ok False (2 ^ ?k) 0" by (auto simp: carry_ok_def ok_num_def intro!: exI [of _ 0])
  have ne: "multiply 0 ?z data \<noteq> []" using d0(2) by auto
  have "0 + of_nat (2 ^ ?k) * val (multiply 0 ?z data) = x" using zx d0(3) by simp
  moreover have "x < base ^ 6" using assms(4) by (simp add: base_def)
  ultimately have d: "limbs False d" "length d = 6" "val d = x"
    using multiply_spec [OF d0(1) c ne] d0(2) by (simp_all add: d_def)
  obtain m where "?z = of_int m" "0 \<le> m" using assms(1) by (auto simp: ok_num_def)
  then have v: "x = of_nat (2 ^ ?k * nat m)" using zx by simp
  have v0: "0 < 2 ^ ?k * nat m" using assms(6) v by (metis of_nat_0_less_iff)
  have "d \<noteq> []" using d(2) by auto
  then have "numToString d = dec (2 ^ ?k * nat m)" using d v numToString_dec by metis
  moreover have "\<lfloor>x * 10 ^ f + 1 / 2\<rfloor> = int (2 ^ ?k * nat m * 10 ^ f)"
  proof -
    have "x * 10 ^ f + 1 / 2 = of_int (int (2 ^ ?k * nat m * 10 ^ f)) + 1 / 2" using v by simp
    then show ?thesis by (simp only: floor_eq_iff) simp
  qed
  ultimately show ?thesis using d(2) dec_zeros [OF v0] by (simp only: nat_int)
qed

lemma scaled_digits_spec:
  assumes "representable x" "rfl (1 / 10 ^ 21) < x" "x < 10 ^ 21" "f \<le> 20" "length data = 6"
  shows "\<exists>data'. scaled_digits f x data = (dec (nat \<lfloor>x * 10 ^ f + 1 / 2\<rfloor>), data') \<and> length data' = 6"
proof -
  define e where "e = int (log (rfl (x * pow 2 69 1))) - 69"
  note m = mantissa_steps [OF assms(1-3), folded e_def]
  obtain h where h: "ok_num h (x * 2 powi (52 - e))" "52 \<le> e \<Longrightarrow> \<not> h" using m(4) by blast
  have "(2 :: rat) powi (-70) > 0" by simp
  then have x0: "0 < x" using tiny_bounds(1) assms(2) by linarith
  show ?thesis
  proof (cases "e < 52")
    case True
    then show ?thesis using scaled_digits_frac [OF h(1) True assms(4,5) x0]
      unfolding scaled_digits_def Let_def e_def [symmetric] m(3) by simp
  next
    case False
    then have "ok_num False (x * 2 powi (52 - e))" using h by (cases h) auto
    from scaled_digits_whole [OF this _ m(2) assms(3,5) x0, of f] False show ?thesis
      unfolding scaled_digits_def Let_def e_def [symmetric] m(3) slice_20_zeros [OF assms(4)] by simp
  qed
qed


section \<open>The decimal point\<close>

definition fixed_text :: "nat \<Rightarrow> nat \<Rightarrow> jsstr" where
  "fixed_text f n = dec (n div 10 ^ f) @ (if f = 0 then [] else lit ''.'' @ pad f (n mod 10 ^ f))"

lemma insert_point_dec:
  assumes "f \<le> 20"
  shows "insert_point s (dec n) f = s @ fixed_text f n"
proof (cases "f = 0")
  case False
  let ?k = "length (dec n)"
  show ?thesis
  proof (cases "?k \<le> f")
    case True
    have n: "n < 10 ^ f"
    proof -
      have "n < 10 ^ ?k" using undec_bound [OF dec_digits, of n] by simp
      also have "\<dots> \<le> 10 ^ f" using True by (intro power_increasing) auto
      finally show ?thesis .
    qed
    have z: "lit ''0.0000000000000000000'' = 48 # 46 # replicate 19 48" by code_simp
    have k: "1 \<le> ?k" using length_dec_pos [of n] by linarith
    have "int f - int ?k + 2 = int (f - ?k + 2)" using True by simp
    then have "str_slice (lit ''0.0000000000000000000'') 0 (int f - int ?k + 2) = take (f - ?k + 2) (48 # 46 # replicate 19 48)"
      unfolding z by (simp only: str_slice_0)
    also have "\<dots> = 48 # 46 # replicate (f - ?k) 48" using assms True k by (simp add: min_def)
    finally show ?thesis using True False n by (simp add: insert_point_def Let_def fixed_text_def pad_def)
  next
    case k: False
    have big: "0 < n div 10 ^ f"
    proof (rule ccontr)
      assume "\<not> 0 < n div 10 ^ f"
      then have "n < 10 ^ f" by (simp add: div_eq_0_iff)
      with k False show False using length_dec_le [of f n] by simp
    qed
    have split: "dec n = dec (n div 10 ^ f) @ pad f (n mod 10 ^ f)"
      using dec_append_pad [OF big, of f "n mod 10 ^ f"] False by (simp add: mult.commute)
    have len: "length (pad f (n mod 10 ^ f)) = f" using False by (intro length_pad) auto
    have kf: "int ?k - int f = int (length (dec (n div 10 ^ f)))" using split len by simp
    have "str_slice (dec n) 0 (int ?k - int f) = dec (n div 10 ^ f)"
      unfolding kf str_slice_0 by (subst split) simp
    moreover have "str_slice_from (dec n) (int ?k - int f) = pad f (n mod 10 ^ f)"
      unfolding kf str_slice_from_def clamp_index_def by (subst (2) split) (simp add: split)
    ultimately show ?thesis using k False by (simp add: insert_point_def Let_def fixed_text_def)
  qed
qed (simp add: insert_point_def fixed_text_def)

lemma toFixed_finite:
  assumes "f \<le> 20" "representable v" "\<bar>v\<bar> < 10 ^ 21" "length data = 6"
  shows "\<exists>data'. toFixedShim num_text (Fin (of_nat f)) (Fin v) data
      = (Inr ((if v < 0 then lit ''-'' else []) @ fixed_text f (nat \<lfloor>\<bar>v\<bar> * 10 ^ f + 1 / 2\<rfloor>)), data') \<and> length data' = 6"
proof -
  let ?N = "nat \<lfloor>\<bar>v\<bar> * 10 ^ f + 1 / 2\<rfloor>"
  have dig: "\<exists>data'. (if \<bar>v\<bar> > rfl (1 / 10 ^ 21) then scaled_digits f \<bar>v\<bar> data else (lit ''0'', data)) = (dec ?N, data') \<and> length data' = 6"
  proof (cases "\<bar>v\<bar> > rfl (1 / 10 ^ 21)")
    case True
    have "representable \<bar>v\<bar>" using assms(2) representable_abs by blast
    then show ?thesis using scaled_digits_spec [OF _ True assms(3,1,4)] True by simp
  next
    case False
    then have "\<bar>v\<bar> \<le> 2 / 10 ^ 21" using tiny_bounds(2) by linarith
    then have "\<bar>v\<bar> * 10 ^ f \<le> 2 / 10 ^ 21 * 10 ^ 20" using assms(1) by (intro mult_mono power_increasing) auto
    then have "\<bar>v\<bar> * 10 ^ f + 1 / 2 < 1" by simp
    moreover have "0 \<le> \<bar>v\<bar> * 10 ^ f + 1 / 2" by simp
    ultimately have "\<lfloor>\<bar>v\<bar> * 10 ^ f + 1 / 2\<rfloor> = 0" by (simp only: floor_eq_iff) simp
    then show ?thesis using False assms(4) by simp
  qed
  then obtain data' where d: "(if \<bar>v\<bar> > rfl (1 / 10 ^ 21) then scaled_digits f \<bar>v\<bar> data else (lit ''0'', data)) = (dec ?N, data')" "length data' = 6"
    by blast
  have "\<not> (v \<le> - (10 ^ 21) \<or> v \<ge> 10 ^ 21)" using assms(3) by (auto simp: abs_less_iff)
  then have "toFixedShim num_text (Fin (of_nat f)) (Fin v) data
      = (Inr (insert_point (if v < 0 then lit ''-'' else []) (dec ?N) f), data')"
  proof -
    assume v: "\<not> (v \<le> - (10 ^ 21) \<or> v \<ge> 10 ^ 21)"
    have c: "\<not> (int f < 0 \<or> int f > 20)" using assms(1) by simp
    show ?thesis
      unfolding toFixedShim_def jsnum.case floor_of_nat nat_int if_not_P [OF c] option.case Let_def if_not_P [OF v] d(1)
      by (rule prod.case)
  qed
  then show ?thesis using d(2) insert_point_dec [OF assms(1)] by simp
qed

section \<open>Properties\<close>

text \<open>C8: for every number of decimals up to 20 and every binary64 number of magnitude below
  \<open>10 ^ 21\<close>, \<open>toFixed\<close> returns the sign and the decimal text of the magnitude rounded half up to
  that many decimals, whatever an earlier call left in the shared buffer.\<close>

theorem toFixed_rounds_half_up:
  assumes "f \<le> 20" "representable v" "\<bar>v\<bar> < 10 ^ 21" "length data = 6"
  shows "\<exists>data'. toFixedShim num_text (Fin (of_nat f)) (Fin v) data
      = (Inr ((if v < 0 then lit ''-'' else []) @ fixed_text f (nat \<lfloor>\<bar>v\<bar> * 10 ^ f + 1 / 2\<rfloor>)), data') \<and> length data' = 6"
  using toFixed_finite [OF assms] .

theorem toFixed_rounds_half_up_witness:
  "\<exists>data'. toFixedShim (\<lambda>_. []) (Fin (of_nat 1)) (Fin (- (5 / 4))) [9, 9, 9, 9, 9, 9] = (Inr (lit ''-1.3''), data')"
proof -
  have r: "representable (- (5 / 4))" unfolding representable_def
    by (rule fl_exact [of _ "-5" "-2"]) (simp_all add: power_int_def power2_eq_square)
  have n: "\<lfloor>\<bar>- (5 / 4)\<bar> * 10 ^ 1 + 1 / 2 :: rat\<rfloor> = 13" by (simp add: floor_eq_iff)
  have t: "fixed_text 1 13 = lit ''1.3''" by code_simp
  show ?thesis
    using toFixed_rounds_half_up [OF _ r, of 1 "[9, 9, 9, 9, 9, 9]" "\<lambda>_. []"] unfolding n using t by auto
qed

text \<open>C19: multiplying limbs by a factor of at most \<open>10 ^ 7\<close> and adding a carry, and dividing them by a
  power of two up to \<open>2 ^ 23\<close>, is exact integer arithmetic on the number they stand for, although every
  step is rounded to binary64; the limbs stay below \<open>10 ^ 7\<close>, and nothing is lost while the product
  fits into the limbs.\<close>

theorem limb_arithmetic_exact:
  assumes "limbs False ds" "ds \<noteq> []" "n \<le> 10 ^ 7" "c \<le> n" "p \<le> 23"
    and "of_nat c + of_nat n * val ds < base ^ length ds"
  shows "limbs False (multiply (of_nat n) (of_nat c) ds) \<and> val (multiply (of_nat n) (of_nat c) ds) = of_nat c + of_nat n * val ds
    \<and> limbs False (divide (2 ^ p) ds) \<and> val (divide (2 ^ p) ds) = of_int \<lfloor>val ds / 2 ^ p\<rfloor>"
proof -
  have "ok_num False (of_nat c)" using assms(3,4) by (auto simp: ok_num_def intro!: exI [of _ "int c"])
  then have "carry_ok False n (of_nat c)" using assms(3,4) by (auto simp: carry_ok_def)
  then show ?thesis using multiply_spec [OF assms(1) _ assms(2,6)] divide_spec [OF assms(5,1)] by blast
qed

theorem limb_arithmetic_exact_witness:
  "val (multiply 10 7 [3, 0]) = 37 \<and> val (divide (2 ^ 1) [3, 0]) = 1"
proof -
  have l: "limbs False [3, 0]" by (auto simp: ok_num_def base_def intro: exI [of _ 3] exI [of _ 0])
  have "\<lfloor>(3 :: rat) / 2\<rfloor> = 1" by (simp add: floor_eq_iff)
  then show ?thesis using limb_arithmetic_exact [OF l, of 10 7 1] by (simp add: base_def)
qed

end
