(* ===== verification/ES5_Object.thy ===== *)
theory ES5_Object
  imports JS_Effect JS_Num
begin

text \<open>
  The foundations of es5-shim.js: \<open>defineProperties\<close>, by which every method is installed, the
  conversions \<open>ToPrimitive\<close> and \<open>ToObject\<close>, \<open>Function.prototype.bind\<close> and \<open>Object.keys\<close>.  What an
  engine gets wrong is a flag, and what it provides is a parameter.
\<close>

section \<open>Installing properties\<close>

record 'v property =
  pvalue :: 'v
  enumerable :: bool
  writable :: bool
  configurable :: bool

record 'v pobject =
  props :: "jsstr \<rightharpoonup> 'v property"
  inherits :: "jsstr set"

definition has_property :: "jsstr \<Rightarrow> 'v pobject \<Rightarrow> bool" where
  "has_property name ob \<longleftrightarrow> props ob name \<noteq> None \<or> name \<in> inherits ob"

text \<open>\<open>Object.defineProperty\<close> with a data descriptor that gives every attribute and is configurable: an
  existing property that is not configurable rejects it.\<close>

definition native_define :: "jsstr \<Rightarrow> 'v property \<Rightarrow> 'v pobject \<Rightarrow> 'v pobject res" where
  "native_define name p ob =
     (case props ob name of
        None \<Rightarrow> Inr (ob\<lparr>props := (props ob)(name \<mapsto> p)\<rparr>)
      | Some old \<Rightarrow>
          if configurable old then Inr (ob\<lparr>props := (props ob)(name \<mapsto> p)\<rparr>) else Inl TypeError)"

text \<open>\<open>object[name] = method\<close> outside strict mode: a property that cannot be written stays.\<close>

definition assign :: "jsstr \<Rightarrow> 'v \<Rightarrow> 'v pobject \<Rightarrow> 'v pobject" where
  "assign name v ob =
     (case props ob name of
        None \<Rightarrow> ob\<lparr>props := (props ob)(name \<mapsto> \<lparr>pvalue = v, enumerable = True, writable = True, configurable = True\<rparr>)\<rparr>
      | Some old \<Rightarrow> if writable old then ob\<lparr>props := (props ob)(name \<mapsto> old\<lparr>pvalue := v\<rparr>)\<rparr> else ob)"

definition defineProperty :: "bool \<Rightarrow> bool \<Rightarrow> jsstr \<Rightarrow> 'v \<Rightarrow> 'v pobject \<Rightarrow> 'v pobject res" where
  "defineProperty supportsDescriptors forceAssign name method ob =
     (if \<not> forceAssign \<and> has_property name ob then Inr ob
      else if supportsDescriptors then
        native_define name \<lparr>pvalue = method, enumerable = False, writable = True, configurable = True\<rparr> ob
      else Inr (assign name method ob))"

text \<open>The map is given by its enumeration: name, whether the name is its own, and value.\<close>

fun defineProperties :: "bool \<Rightarrow> (jsstr \<times> bool \<times> 'v) list \<Rightarrow> bool \<Rightarrow> 'v pobject \<Rightarrow> 'v pobject res" where
  "defineProperties supportsDescriptors [] forceAssign ob = Inr ob"
| "defineProperties supportsDescriptors ((name, isown, v) # m) forceAssign ob =
     (if isown then
        bindR (defineProperty supportsDescriptors forceAssign name v ob) (defineProperties supportsDescriptors m forceAssign)
      else defineProperties supportsDescriptors m forceAssign ob)"

section \<open>Conversions\<close>

text \<open>A value is primitive or an object.  Of an object the conversion uses its methods \<open>valueOf\<close> and
  \<open>toString\<close>; each is missing or not callable, or a call that throws or returns a value,
  an object (\<open>None\<close>) or a primitive value, \<open>null\<close> and \<open>undefined\<close> included.\<close>

datatype 'p jsval =
    Prim 'p
  | Nullish
  | Obj "('p option) res option" "('p option) res option"

definition isPrimitive :: "'p jsval \<Rightarrow> bool" where
  "isPrimitive v = (case v of Obj _ _ \<Rightarrow> False | _ \<Rightarrow> True)"

definition call_method :: "('p option) res option \<Rightarrow> ('p jsval) option res" where
  "call_method m =
     (case m of
        None \<Rightarrow> Inr None
      | Some (Inl e) \<Rightarrow> Inl e
      | Some (Inr None) \<Rightarrow> Inr None
      | Some (Inr (Some p)) \<Rightarrow> Inr (Some (Prim p)))"

definition ToPrimitive :: "'p jsval \<Rightarrow> 'p jsval res" where
  "ToPrimitive input =
     (case input of
        Obj valueOf toStr \<Rightarrow>
          bindR (call_method valueOf) (\<lambda>v. case v of
              Some p \<Rightarrow> Inr p
            | None \<Rightarrow> bindR (call_method toStr) (\<lambda>v. case v of Some p \<Rightarrow> Inr p | None \<Rightarrow> Inl TypeError))
      | _ \<Rightarrow> Inr input)"

definition ToObject :: "'p jsval \<Rightarrow> 'p jsval res" where
  "ToObject o' = (case o' of Nullish \<Rightarrow> Inl TypeError | _ \<Rightarrow> Inr o')"

section \<open>Binding\<close>

text \<open>A function is what a call does, its length and its prototype.  A call gets \<open>this\<close> and the
  arguments; \<open>None\<close> is a \<open>this\<close> that does not matter.  Prototypes are known by a number, or are fresh
  objects that inherit from another.\<close>

datatype proto = Known nat | Fresh proto

record ('s, 'v) func =
  behaviour :: "'v \<Rightarrow> 'v list \<Rightarrow> ('s, 'v) eff"
  flength :: nat
  fprototype :: "proto option"

text \<open>\<open>is_object\<close> tells objects from primitive values and \<open>is_instance f\<close> whether \<open>this instanceof f\<close>
  holds for the function being built.\<close>

definition bound_call :: "('v \<Rightarrow> bool) \<Rightarrow> ('v \<Rightarrow> bool) \<Rightarrow> ('s, 'v) func \<Rightarrow> 'v \<Rightarrow> 'v list \<Rightarrow> 'v \<Rightarrow> 'v list \<Rightarrow> ('s, 'v) eff" where
  "bound_call is_object is_instance target that args this arguments =
     (if is_instance this then
        bindE (behaviour target this (args @ arguments)) (\<lambda>result.
          ret (if is_object result then result else this))
      else behaviour target that (args @ arguments))"

definition boundLength :: "('s, 'v) func \<Rightarrow> 'v list \<Rightarrow> nat" where
  "boundLength target args = nat (max 0 (int (flength target) - int (length args)))"

text \<open>The names of the formal parameters, by which the length of the new function is set.\<close>

definition boundArgs :: "nat \<Rightarrow> jsstr list" where
  "boundArgs n = map (\<lambda>i. lit ''$'' @ dec i) [0..<n]"

definition bind_es5 :: "('v \<Rightarrow> bool) \<Rightarrow> ('v \<Rightarrow> bool) \<Rightarrow> ('s, 'v) func option \<Rightarrow> 'v \<Rightarrow> 'v list \<Rightarrow> ('s, 'v) func res" where
  "bind_es5 is_object is_instance target that args =
     (case target of
        None \<Rightarrow> Inl TypeError
      | Some f \<Rightarrow> Inr \<lparr>behaviour = bound_call is_object is_instance f that args,
          flength = length (boundArgs (boundLength f args)),
          fprototype = map_option Fresh (fprototype f)\<rparr>)"

section \<open>Keys\<close>

definition dontEnums :: "jsstr list" where
  "dontEnums = map lit [''toString'', ''toLocaleString'', ''valueOf'', ''hasOwnProperty'', ''isPrototypeOf'',
     ''propertyIsEnumerable'', ''constructor'']"

record engine =
  hasDontEnumBug :: bool
  hasProtoEnumBug :: bool
  hasStringEnumBug :: bool

text \<open>An argument of \<open>Object.keys\<close>: what kind of value it is, its length, what \<open>for in\<close> enumerates,
  which names are its own, and whether it is the prototype of its own constructor.\<close>

record keyed =
  is_fn :: bool
  is_args :: bool
  is_obj :: bool
  is_str :: bool
  klength :: nat
  enumerated :: "jsstr list"
  owns :: "jsstr \<Rightarrow> bool"
  is_ctor_prototype :: bool

definition keys_indices :: "engine \<Rightarrow> keyed \<Rightarrow> jsstr list" where
  "keys_indices en k =
     (if is_obj k \<and> is_str k \<and> hasStringEnumBug en \<or> is_args k then map dec [0..<klength k] else [])"

definition keys_names :: "engine \<Rightarrow> keyed \<Rightarrow> jsstr list" where
  "keys_names en k =
     (if is_args k then []
      else filter (\<lambda>name. \<not> (hasProtoEnumBug en \<and> is_fn k \<and> name = lit ''prototype'') \<and> owns k name) (enumerated k))"

definition keys_dontEnums :: "engine \<Rightarrow> keyed \<Rightarrow> jsstr list" where
  "keys_dontEnums en k =
     (if hasDontEnumBug en
      then filter (\<lambda>name. \<not> (is_ctor_prototype k \<and> name = lit ''constructor'') \<and> owns k name) dontEnums else [])"

definition keys_es5 :: "engine \<Rightarrow> keyed \<Rightarrow> jsstr list res" where
  "keys_es5 en k =
     (if \<not> is_obj k \<and> \<not> is_fn k \<and> \<not> is_args k then Inl TypeError
      else Inr (keys_indices en k @ keys_names en k @ keys_dontEnums en k))"

text \<open>The wrapper for engines whose \<open>Object.keys\<close> mishandles \<open>arguments\<close>: it passes a true array on.\<close>

definition keys_wrapper :: "('o \<Rightarrow> bool) \<Rightarrow> ('o \<Rightarrow> 'o) \<Rightarrow> ('o \<Rightarrow> jsstr list res) \<Rightarrow> 'o \<Rightarrow> jsstr list res" where
  "keys_wrapper isArguments arraySlice originalKeys ob =
     (if isArguments ob then originalKeys (arraySlice ob) else originalKeys ob)"

section \<open>Properties\<close>

text \<open>C31: installing methods without force never changes a property the object has, own or inherited,
  and adds the ones it lacks, for a map with distinct names of its own: as properties that are not enumerated
  if the engine supports descriptors, and as enumerable ones if it does not.\<close>

theorem defineProperties_installs:
  assumes "distinct (map fst m)" "\<forall>p \<in> set m. fst (snd p)"
  shows "\<exists>ob'. defineProperties sd m False ob = Inr ob' \<and> inherits ob' = inherits ob
    \<and> (\<forall>n. has_property n ob \<longrightarrow> props ob' n = props ob n)
    \<and> (\<forall>(n, _, v) \<in> set m. \<not> has_property n ob \<longrightarrow>
         props ob' n = Some \<lparr>pvalue = v, enumerable = \<not> sd, writable = True, configurable = True\<rparr>)
    \<and> (\<forall>n. n \<notin> fst ` set m \<longrightarrow> props ob' n = props ob n)"
  using assms
proof (induction m arbitrary: ob)
  case (Cons p m)
  obtain name v where p: "p = (name, True, v)" using Cons.prems(2) by (cases p) auto
  define ob1 where "ob1 = (if has_property name ob then ob
    else ob\<lparr>props := (props ob)(name \<mapsto> \<lparr>pvalue = v, enumerable = \<not> sd, writable = True, configurable = True\<rparr>)\<rparr>)"
  have d: "defineProperty sd False name v ob = Inr ob1"
    by (auto simp: defineProperty_def ob1_def native_define_def assign_def has_property_def split: option.split)
  from Cons.IH [of ob1] Cons.prems obtain ob' where ih: "defineProperties sd m False ob1 = Inr ob'" "inherits ob' = inherits ob1"
      "\<forall>n. has_property n ob1 \<longrightarrow> props ob' n = props ob1 n"
      "\<forall>(n, _, v) \<in> set m. \<not> has_property n ob1 \<longrightarrow> props ob' n = Some \<lparr>pvalue = v, enumerable = \<not> sd, writable = True, configurable = True\<rparr>"
      "\<forall>n. n \<notin> fst ` set m \<longrightarrow> props ob' n = props ob1 n" by auto
  have "has_property n ob1 \<longleftrightarrow> has_property n ob \<or> n = name" for n by (auto simp: ob1_def has_property_def)
  note has = this
  have run: "defineProperties sd (p # m) False ob = Inr ob'" using d ih(1) by (simp add: p)
  have keep: "\<forall>n. has_property n ob \<longrightarrow> props ob' n = props ob n"
    using ih(3) has by (auto simp: ob1_def)
  have new: "\<forall>(n, _, v) \<in> set m. \<not> has_property n ob \<longrightarrow>
      props ob' n = Some \<lparr>pvalue = v, enumerable = \<not> sd, writable = True, configurable = True\<rparr>"
  proof (clarify)
    fix n b w assume "(n, b, w) \<in> set m" "\<not> has_property n ob"
    moreover from this have "n \<noteq> name" using Cons.prems(1) p by force
    ultimately show "props ob' n = Some \<lparr>pvalue = w, enumerable = \<not> sd, writable = True, configurable = True\<rparr>"
      using ih(4) has by blast
  qed
  have "name \<notin> fst ` set m" using Cons.prems(1) p by simp
  then have this_one: "\<not> has_property name ob \<longrightarrow>
      props ob' name = Some \<lparr>pvalue = v, enumerable = \<not> sd, writable = True, configurable = True\<rparr>"
    using ih(5) by (simp add: ob1_def)
  have "\<forall>n. n \<notin> fst ` set (p # m) \<longrightarrow> props ob' n = props ob n" using ih(5) by (auto simp: ob1_def p)
  moreover have "inherits ob' = inherits ob" using ih(2) by (simp add: ob1_def)
  ultimately show ?case using run keep new this_one p by (intro exI [of _ ob']) auto
qed simp

theorem defineProperties_installs_witness:
  "\<exists>ob'. defineProperties False [(lit ''a'', True, 1 :: nat), (lit ''b'', True, 2)] False
      \<lparr>props = [lit ''a'' \<mapsto> \<lparr>pvalue = 7, enumerable = False, writable = True, configurable = True\<rparr>], inherits = {}\<rparr> = Inr ob'
    \<and> map_option pvalue (props ob' (lit ''a'')) = Some 7 \<and> map_option enumerable (props ob' (lit ''b'')) = Some True"
  using defineProperties_installs [of "[(lit ''a'', True, 1 :: nat), (lit ''b'', True, 2)]" False
      "\<lparr>props = [lit ''a'' \<mapsto> \<lparr>pvalue = 7, enumerable = False, writable = True, configurable = True\<rparr>], inherits = {}\<rparr>"]
  by (auto simp: has_property_def)

text \<open>Binding twice is binding once to the first \<open>this\<close> with both lists of arguments: a call passes
  them in order before its own arguments, and the lengths add up.  The second value of \<open>this\<close> is
  ignored.\<close>

theorem bind_twice:
  assumes "\<not> is_instance1 that2" "\<not> is_instance2 this"
  shows "\<exists>g h. bind_es5 is_object is_instance1 (Some f) that args1 = Inr g
    \<and> bind_es5 is_object is_instance2 (Some g) that2 args2 = Inr h
    \<and> behaviour h this args3 = behaviour f that (args1 @ args2 @ args3)
    \<and> flength h = flength f - (length args1 + length args2)"
  using assms by (simp add: bind_es5_def bound_call_def boundLength_def boundArgs_def nat_diff_distrib')

theorem bind_twice_witness:
  "\<exists>g h. bind_es5 (\<lambda>_. False) (\<lambda>_. False) (Some \<lparr>behaviour = (\<lambda>this args. ret (this + sum_list args)), flength = 3, fprototype = None\<rparr>) (100 :: nat) [1] = Inr g
    \<and> bind_es5 (\<lambda>_. False) (\<lambda>_. False) (Some g) 7 [2] = Inr h \<and> behaviour h 9 [3] () = (Inr 106, ()) \<and> flength h = 1"
  using bind_twice [of "\<lambda>_. False" "7 :: nat" "\<lambda>_. False" 9 "\<lambda>_. False"
      "\<lparr>behaviour = (\<lambda>this args. ret (this + sum_list args)), flength = 3, fprototype = None\<rparr>" 100 "[1]" "[2]" "[3]"]
  by auto

text \<open>Called as a constructor, the bound function runs the target on the new object with the bound
  arguments first, and returns what the target returns if that is an object and the new object
  otherwise.\<close>

theorem bind_construct:
  assumes "is_instance this" "behaviour f this (args @ arguments) s = (Inr r, s')"
  shows "\<exists>g. bind_es5 is_object is_instance (Some f) that args = Inr g
    \<and> behaviour g this arguments s = (Inr (if is_object r then r else this), s')"
  using assms by (simp add: bind_es5_def bound_call_def)

theorem bind_construct_witness:
  "\<exists>g. bind_es5 (\<lambda>v. v > 50) (\<lambda>v. v = 9) (Some \<lparr>behaviour = (\<lambda>this args. ret (this + sum_list args)), flength = 3, fprototype = None\<rparr>) (100 :: nat) [1] = Inr g
    \<and> behaviour g 9 [3] () = (Inr 9, ())"
  using bind_construct [of "\<lambda>v. v = 9" "9 :: nat" "\<lparr>behaviour = (\<lambda>this args. ret (this + sum_list args)), flength = 3, fprototype = None\<rparr>"
      "[1]" "[3]" "()" 13 "()" "\<lambda>v. v > 50" 100] by auto

text \<open>C30: on an engine whose \<open>for in\<close> skips own properties that shadow the ones of
  \<open>Object.prototype\<close>, the names returned for an ordinary object (no function, \<open>arguments\<close>, string or prototype of its
  own constructor) are nevertheless exactly its own
  enumerable ones, without repetition.\<close>

theorem keys_repairs_dontEnum_bug:
  assumes "hasDontEnumBug en" "is_obj k" "\<not> is_fn k" "\<not> is_args k" "\<not> is_str k" "\<not> is_ctor_prototype k"
    and "distinct (enumerated k)" "\<forall>n \<in> set dontEnums. owns k n \<longrightarrow> n \<in> E"
    and "\<forall>n. n \<in> set (enumerated k) \<and> owns k n \<longleftrightarrow> n \<in> E - set dontEnums" "\<forall>n \<in> E. owns k n"
  shows "\<exists>ks. keys_es5 en k = Inr ks \<and> set ks = E \<and> distinct ks"
proof -
  have "distinct dontEnums" by code_simp
  have "set (keys_names en k) = E - set dontEnums" using assms(3,4,9) by (auto simp: keys_names_def)
  moreover have "set (keys_dontEnums en k) = E \<inter> set dontEnums" using assms(1,6,8,10) by (auto simp: keys_dontEnums_def)
  moreover have "distinct (keys_names en k)" "distinct (keys_dontEnums en k)"
    using assms(7) \<open>distinct dontEnums\<close> by (auto simp: keys_names_def keys_dontEnums_def)
  moreover have "keys_indices en k = []" using assms(4,5) by (simp add: keys_indices_def)
  ultimately show ?thesis using assms(2) by (auto simp: keys_es5_def)
qed

theorem keys_repairs_dontEnum_bug_witness:
  "\<exists>ks. keys_es5 \<lparr>hasDontEnumBug = True, hasProtoEnumBug = False, hasStringEnumBug = False\<rparr>
      \<lparr>is_fn = False, is_args = False, is_obj = True, is_str = False, klength = 0, enumerated = [lit ''a''],
       owns = (\<lambda>n. n \<in> {lit ''a'', lit ''valueOf''}), is_ctor_prototype = False\<rparr> = Inr ks \<and> set ks = {lit ''a'', lit ''valueOf''}"
proof -
  have d: "lit ''valueOf'' \<in> set dontEnums" "lit ''a'' \<notin> set dontEnums" by code_simp+
  show ?thesis
    using keys_repairs_dontEnum_bug [of "\<lparr>hasDontEnumBug = True, hasProtoEnumBug = False, hasStringEnumBug = False\<rparr>"
        "\<lparr>is_fn = False, is_args = False, is_obj = True, is_str = False, klength = 0, enumerated = [lit ''a''],
          owns = (\<lambda>n. n \<in> {lit ''a'', lit ''valueOf''}), is_ctor_prototype = False\<rparr>" "{lit ''a'', lit ''valueOf''}"] d
    by (auto simp del: lit_Cons lit_Nil)
qed

text \<open>C35: \<open>ToPrimitive\<close> gives back a primitive value, or for an object the value of the first of its two methods
  that returns a primitive one; it throws what a method throws that it has to call, and a type error if neither method
  can be called and returns a primitive value.  There is no other outcome.\<close>

theorem ToPrimitive_primitive:
  "(ToPrimitive v = Inr p \<longleftrightarrow> v = p \<and> isPrimitive p \<or>
      (\<exists>m1 m2 q. v = Obj m1 m2 \<and> p = Prim q \<and> (m1 = Some (Inr (Some q)) \<or> m1 \<in> {None, Some (Inr None)} \<and> m2 = Some (Inr (Some q))))) \<and>
   (ToPrimitive v = Inl e \<longleftrightarrow>
      (\<exists>m1 m2. v = Obj m1 m2 \<and> (m1 = Some (Inl e) \<or> m1 \<in> {None, Some (Inr None)} \<and>
        (m2 = Some (Inl e) \<or> m2 \<in> {None, Some (Inr None)} \<and> e = TypeError))))"
proof (cases v)
  case (Obj m1 m2)
  have m: "(\<exists>e. m = Some (Inl e)) \<or> m = None \<or> m = Some (Inr None) \<or> (\<exists>p. m = Some (Inr (Some p)))" for m :: "'a option res option"
    by (metis option.exhaust sum.exhaust)
  show ?thesis using m [of m1] m [of m2] Obj by (auto simp: ToPrimitive_def call_method_def isPrimitive_def)
qed (auto simp: ToPrimitive_def isPrimitive_def)

end
