(* ===== verification/ES5_Date.thy ===== *)
theory ES5_Date
  imports JS_Regex ES5_Object
begin

text \<open>
  The dates of es5-shim.js.  The calendar of the language comes first: the native getters are
  functions of the time value, the milliseconds since 1970.  The shim's getters, printers and
  \<open>toISOString\<close> work on the fields the native getters return, which may be wrong on an engine with
  bugs; \<open>Date.parse\<close> works on the text with a regular expression.  A time value that is not a number
  is \<open>None\<close>.
\<close>

section \<open>The calendar of the language\<close>

definition ms_per_day :: int where "ms_per_day = 86400000"

definition day_from_year :: "int \<Rightarrow> int" where
  "day_from_year y = 365 * (y - 1970) + (y - 1969) div 4 - (y - 1901) div 100 + (y - 1601) div 400"

definition leap_year :: "int \<Rightarrow> bool" where
  "leap_year y \<longleftrightarrow> 4 dvd y \<and> (\<not> 100 dvd y \<or> 400 dvd y)"

definition month_start :: "bool \<Rightarrow> nat \<Rightarrow> int" where
  "month_start leap m = [0, 31, 59, 90, 120, 151, 181, 212, 243, 273, 304, 334, 365] ! m + (if leap \<and> m > 1 then 1 else 0)"

text \<open>The year is estimated from the mean length of a year and corrected by at most one.\<close>

definition year_of_day :: "int \<Rightarrow> int" where
  "year_of_day d =
     (let y = 1970 + d * 400 div 146097
      in if day_from_year (y + 1) \<le> d then y + 1 else if d < day_from_year y then y - 1 else y)"

definition month_of_day :: "int \<Rightarrow> nat" where
  "month_of_day d =
     (let y = year_of_day d; k = d - day_from_year y
      in length (filter (\<lambda>m. month_start (leap_year y) m \<le> k) [1..<12]))"

record fields =
  fyear :: int
  fmonth :: int
  fdate :: int
  fday :: int
  fhours :: int
  fminutes :: int
  fseconds :: int
  fms :: int

definition utc_fields :: "int \<Rightarrow> fields" where
  "utc_fields t =
     (let d = t div ms_per_day; r = t mod ms_per_day; y = year_of_day d; m = month_of_day d
      in \<lparr>fyear = y, fmonth = int m,
          fdate = d - day_from_year y - month_start (leap_year y) m + 1,
          fday = (d + 4) mod 7, fhours = r div 3600000, fminutes = r div 60000 mod 60,
          fseconds = r div 1000 mod 60, fms = r mod 1000\<rparr>)"

section \<open>Arithmetic\<close>

text \<open>\<open>Math.floor(a / b)\<close> with the rounding of the division, and the rounding of a sum or product
  of integers.  The remainder has the sign of the dividend.\<close>

definition floor_div :: "int \<Rightarrow> int \<Rightarrow> int" where
  "floor_div a b = \<lfloor>rfl (of_int a / of_int b)\<rfloor>"

definition rnd :: "int \<Rightarrow> int" where
  "rnd n = \<lfloor>rfl (of_int n)\<rfloor>"

definition js_rem :: "int \<Rightarrow> int \<Rightarrow> int" where
  "js_rem a b = (if a \<ge> 0 then a mod b else - ((- a) mod b))"

section \<open>Getters for engines with a bug in negative years\<close>

text \<open>The native getters return the fields given; \<open>native_last\<close> is \<open>getDate\<close> of the zeroth day of a
  month.\<close>

definition getFullYear :: "bool \<Rightarrow> fields \<Rightarrow> int res" where
  "getFullYear is_date f =
     (if \<not> is_date then Inl TypeError
      else Inr (if fyear f < 0 \<and> fmonth f > 11 then fyear f + 1 else fyear f))"

definition getMonth :: "bool \<Rightarrow> fields \<Rightarrow> int res" where
  "getMonth is_date f =
     (if \<not> is_date then Inl TypeError
      else Inr (if fyear f < 0 \<and> fmonth f > 11 then 0 else fmonth f))"

definition daysInMonth :: "(int \<Rightarrow> int \<Rightarrow> int) \<Rightarrow> int \<Rightarrow> int \<Rightarrow> int" where
  "daysInMonth native_last month year = native_last year month"

definition getDate :: "(int \<Rightarrow> int \<Rightarrow> int) \<Rightarrow> bool \<Rightarrow> fields \<Rightarrow> int res" where
  "getDate native_last is_date f =
     (if \<not> is_date then Inl TypeError
      else Inr (if fyear f < 0 \<and> fmonth f > 11 then
                  if fmonth f = 12 then fdate f
                  else daysInMonth native_last 0 (fyear f + 1) - fdate f + 1
                else fdate f))"

definition getUTCFullYear :: "bool \<Rightarrow> fields \<Rightarrow> int res" where
  "getUTCFullYear is_date f =
     (if \<not> is_date then Inl TypeError
      else Inr (if fyear f < 0 \<and> fmonth f > 11 then fyear f + 1 else fyear f))"

definition getUTCMonth :: "bool \<Rightarrow> fields \<Rightarrow> int res" where
  "getUTCMonth is_date f =
     (if \<not> is_date then Inl TypeError
      else Inr (if fyear f < 0 \<and> fmonth f > 11 then 0 else fmonth f))"

definition getUTCDate :: "(int \<Rightarrow> int \<Rightarrow> int) \<Rightarrow> bool \<Rightarrow> fields \<Rightarrow> int res" where
  "getUTCDate native_last is_date f =
     (if \<not> is_date then Inl TypeError
      else Inr (if fyear f < 0 \<and> fmonth f > 11 then
                  if fmonth f = 12 then fdate f
                  else daysInMonth native_last 0 (fyear f + 1) - fdate f + 1
                else fdate f))"

section \<open>Printers\<close>

definition dayName :: "jsstr list" where
  "dayName = map lit [''Sun'', ''Mon'', ''Tue'', ''Wed'', ''Thu'', ''Fri'', ''Sat'']"

definition monthName :: "jsstr list" where
  "monthName = map lit [''Jan'', ''Feb'', ''Mar'', ''Apr'', ''May'', ''Jun'', ''Jul'', ''Aug'', ''Sep'', ''Oct'', ''Nov'', ''Dec'']"

text \<open>A number in a concatenation, the idiom \<open>n < 10 ? '0' + n : n\<close>, and an entry of a table, which
  reads as \<open>undefined\<close> out of range.\<close>

definition num_str :: "int \<Rightarrow> jsstr" where
  "num_str n = (if n < 0 then lit ''-'' @ dec (nat (- n)) else dec (nat n))"

definition two :: "int \<Rightarrow> jsstr" where
  "two n = (if n < 10 then lit ''0'' @ num_str n else num_str n)"

definition entry :: "jsstr list \<Rightarrow> int \<Rightarrow> jsstr" where
  "entry xs i = (if 0 \<le> i \<and> i < int (length xs) then xs ! nat i else lit ''undefined'')"

definition clock :: "fields \<Rightarrow> jsstr" where
  "clock f = two (fhours f) @ lit '':'' @ two (fminutes f) @ lit '':'' @ two (fseconds f)"

definition toUTCString :: "bool \<Rightarrow> fields \<Rightarrow> jsstr res" where
  "toUTCString is_date f =
     (if \<not> is_date then Inl TypeError
      else Inr (entry dayName (fday f) @ lit '', '' @ two (fdate f) @ lit '' '' @ entry monthName (fmonth f) @ lit '' '' @
        num_str (fyear f) @ lit '' '' @ clock f @ lit '' GMT''))"

text \<open>The other two printers call the getters of the object, which may be the ones above; the fields
  given are their results.\<close>

definition toDateString :: "bool \<Rightarrow> fields \<Rightarrow> jsstr res" where
  "toDateString is_date f =
     (if \<not> is_date then Inl TypeError
      else Inr (entry dayName (fday f) @ lit '' '' @ entry monthName (fmonth f) @ lit '' '' @ two (fdate f) @ lit '' '' @
        num_str (fyear f)))"

definition toString_date :: "bool \<Rightarrow> fields \<Rightarrow> int \<Rightarrow> jsstr res" where
  "toString_date is_date f timezoneOffset =
     (if \<not> is_date then Inl TypeError
      else Inr (entry dayName (fday f) @ lit '' '' @ entry monthName (fmonth f) @ lit '' '' @ two (fdate f) @ lit '' '' @
        num_str (fyear f) @ lit '' '' @ clock f @ lit '' GMT'' @ (if timezoneOffset > 0 then lit ''-'' else lit ''+'') @
        two (floor_div \<bar>timezoneOffset\<bar> 60) @ two (\<bar>timezoneOffset\<bar> mod 60)))"


definition iso_year :: "int \<Rightarrow> jsstr" where
  "iso_year year =
     (if year < 0 then lit ''-'' else if year > 9999 then lit ''+'' else []) @
     str_slice_from (lit ''00000'' @ dec (nat \<bar>year\<bar>)) (if 0 \<le> year \<and> year \<le> 9999 then -4 else -6)"

definition pad2 :: "int \<Rightarrow> jsstr" where
  "pad2 n = str_slice_from (lit ''00'' @ num_str n) (-2)"

definition toISOString :: "(int \<Rightarrow> fields) \<Rightarrow> int option \<Rightarrow> jsstr res" where
  "toISOString native time =
     (case time of
        None \<Rightarrow> Inl RangeError
      | Some t \<Rightarrow>
          let f = native t;
              year = fyear f + floor_div (fmonth f) 12;
              month = js_rem (js_rem (fmonth f) 12 + 12) 12;
              result = map pad2 [month + 1, fdate f, fhours f, fminutes f, fseconds f]
          in Inr (iso_year year @ lit ''-'' @ join (lit ''-'') (take 2 result) @ lit ''T'' @ join (lit '':'') (drop 2 result) @
               lit ''.'' @ str_slice_from (lit ''000'' @ num_str (fms f)) (-3) @ lit ''Z''))"

text \<open>\<open>toJSON\<close> is generic: it needs the primitive value of the object and its method \<open>toISOString\<close>,
  which may be missing.  \<open>None\<close> is \<open>null\<close>; \<open>PNullish\<close> is \<open>null\<close> or \<open>undefined\<close>, which a method may return.\<close>

datatype prim = PNum jsnum | PStr jsstr | PBool bool | PNullish

definition not_finite :: "prim jsval \<Rightarrow> bool" where
  "not_finite tv = (case tv of Prim (PNum NaN) \<Rightarrow> True | Prim (PNum (Infinite _)) \<Rightarrow> True | _ \<Rightarrow> False)"

definition toJSON :: "prim jsval \<Rightarrow> (jsstr res) option \<Rightarrow> jsstr option res" where
  "toJSON ob toISO =
     bindR (ToPrimitive ob) (\<lambda>tv.
       if not_finite tv then Inr None
       else case toISO of None \<Rightarrow> Inl TypeError | Some r \<Rightarrow> bindR r (\<lambda>s. Inr (Some s)))"

section \<open>The constructor\<close>

definition maxSafeUnsigned32Bit :: int where "maxSafeUnsigned32Bit = 2 ^ 31 - 1"

text \<open>The workaround for engines that treat the milliseconds as a signed 32-bit number: whole seconds
  are moved to the seconds.\<close>

definition shift_ms :: "bool \<Rightarrow> int \<Rightarrow> int \<Rightarrow> int \<times> int" where
  "shift_ms hasSafariSignedIntBug s ms =
     (if hasSafariSignedIntBug \<and> ms > maxSafeUnsigned32Bit then
        let msToShift = floor_div ms maxSafeUnsigned32Bit * maxSafeUnsigned32Bit;
            sToShift = floor_div msToShift 1000
        in (s + sToShift, ms - sToShift * 1000)
      else (s, ms))"

text \<open>The arguments: a string, a date or number, or two to seven numbers; the native constructor takes
  the same.\<close>

datatype ctor_args = NoArgs | OneString jsstr | OneNumber "int option" | Numbers "int list"

definition DateShim :: "bool \<Rightarrow> (jsstr \<Rightarrow> int option) \<Rightarrow> (ctor_args \<Rightarrow> int option) \<Rightarrow> ctor_args \<Rightarrow> int option" where
  "DateShim hasSafariSignedIntBug parse NativeDate args =
     (case args of
        OneString s \<Rightarrow> NativeDate (OneNumber (parse s))
      | Numbers [Y, M, D, h, m, s, ms] \<Rightarrow>
          (case shift_ms hasSafariSignedIntBug s ms of (seconds, millis) \<Rightarrow> NativeDate (Numbers [Y, M, D, h, m, seconds, millis]))
      | _ \<Rightarrow> NativeDate args)"

text \<open>\<open>toUTC\<close> reads a time value as local time.\<close>

definition toUTC :: "bool \<Rightarrow> (int list \<Rightarrow> int option) \<Rightarrow> int \<Rightarrow> int option" where
  "toUTC hasSafariSignedIntBug NativeDate t =
     (case shift_ms hasSafariSignedIntBug 0 t of (s, ms) \<Rightarrow> NativeDate [1970, 0, 1, 0, 0, s, ms])"

section \<open>Parsing\<close>

definition isoDateExpression :: re where
  "isoDateExpression = rseq [RBol,
     RGroup 1 (RAlt (rtimes rdigit 4) (RSeq (RSet True [(43, 43), (45, 45)]) (rtimes rdigit 6))),
     ropt (rseq [rchr CHR ''-'', RGroup 2 (rtimes rdigit 2),
       ropt (rseq [rchr CHR ''-'', RGroup 3 (rtimes rdigit 2),
         ropt (rseq [rchr CHR ''T'', RGroup 4 (rtimes rdigit 2), rchr CHR '':'', RGroup 5 (rtimes rdigit 2),
           ropt (rseq [rchr CHR '':'', RGroup 6 (rtimes rdigit 2), ropt (RGroup 7 (RSeq (rchr CHR ''.'') (rplus rdigit)))]),
           ropt (RGroup 8 (RAlt (rchr CHR ''Z'')
             (rseq [RGroup 9 (RSet True [(45, 45), (43, 43)]), RGroup 10 (rtimes rdigit 2), rchr CHR '':'', RGroup 11 (rtimes rdigit 2)])))])])]),
     REol]"

definition months :: "int list" where
  "months = [0, 31, 59, 90, 120, 151, 181, 212, 243, 273, 304, 334, 365]"


definition dayFromMonth :: "int \<Rightarrow> nat \<Rightarrow> int" where
  "dayFromMonth year month =
     (let t = (if month > 1 then 1 else 0)
      in months ! month + floor_div (year - 1969 + t) 4 - floor_div (year - 1901 + t) 100 +
           floor_div (year - 1601 + t) 400 + 365 * (year - 1970))"

text \<open>\<open>Number\<close> of a year: four digits, or a sign and six digits.\<close>

definition year_number :: "jsstr \<Rightarrow> int" where
  "year_number s =
     (case s of
        c # ds \<Rightarrow> if c = 45 then - int (undec ds) else if c = 43 then int (undec ds) else int (undec s)
      | [] \<Rightarrow> 0)"

definition field :: "caps \<Rightarrow> nat \<Rightarrow> nat \<Rightarrow> int" where
  "field c i dflt = (case cap_at c i of None \<Rightarrow> int dflt | Some s \<Rightarrow> int (undec s))"

text \<open>\<open>Math.floor(Number(match[7] || 0) * 1000)\<close>: the capture is a full stop followed by digits.\<close>

definition milliseconds :: "jsstr option \<Rightarrow> int" where
  "milliseconds cap =
     (case cap of
        None \<Rightarrow> 0
      | Some s \<Rightarrow> \<lfloor>rfl (rfl (of_nat (undec (tl s)) / 10 ^ length (tl s)) * 1000)\<rfloor>)"

text \<open>The checks and the sum, on the numbers read.\<close>

definition iso_time :: "bool \<Rightarrow> (int list \<Rightarrow> int option) \<Rightarrow> int \<Rightarrow> int \<Rightarrow> int \<Rightarrow> int \<Rightarrow> int \<Rightarrow> int \<Rightarrow> int \<Rightarrow> bool \<Rightarrow> int \<Rightarrow> int \<Rightarrow> int \<Rightarrow> int option" where
  "iso_time hasSafariSignedIntBug NativeDate year month day hour minute second millisecond isLocalTime signOffset hourOffset minuteOffset =
     (if hour < (if minute > 0 \<or> second > 0 \<or> millisecond > 0 then 24 else 25) \<and> minute < 60 \<and> second < 60
         \<and> millisecond < 1000 \<and> month > -1 \<and> month < 12 \<and> hourOffset < 24 \<and> minuteOffset < 60 \<and> day > -1
         \<and> day < dayFromMonth year (nat (month + 1)) - dayFromMonth year (nat month)
      then
        let result = ((dayFromMonth year (nat month) + day) * 24 + hour + hourOffset * signOffset) * 60;
            result = rnd (rnd (((result + minute + minuteOffset * signOffset) * 60 + second) * 1000) + millisecond)
        in case (if isLocalTime then toUTC hasSafariSignedIntBug NativeDate result else Some result) of
             None \<Rightarrow> None
           | Some r \<Rightarrow> if -8640000000000000 \<le> r \<and> r \<le> 8640000000000000 then Some r else None
      else None)"

definition parseShim :: "bool \<Rightarrow> (int list \<Rightarrow> int option) \<Rightarrow> (jsstr \<Rightarrow> int option) \<Rightarrow> jsstr \<Rightarrow> int option" where
  "parseShim hasSafariSignedIntBug NativeDate native_parse s =
     (case exec isoDateExpression s of
        None \<Rightarrow> native_parse s
      | Some (_, _, c) \<Rightarrow>
          iso_time hasSafariSignedIntBug NativeDate (year_number (the (cap_at c 1)))
            (field c 2 1 - 1) (field c 3 1 - 1) (field c 4 0) (field c 5 0) (field c 6 0) (milliseconds (cap_at c 7))
            (cap_at c 4 \<noteq> None \<and> cap_at c 8 = None) (if cap_at c 9 = Some (lit ''-'') then 1 else -1)
            (field c 10 0) (field c 11 0))"

end
