(* ===== verification/ES5_Date_Laws.thy ===== *)
theory ES5_Date_Laws
  imports ES5_Date
begin

text \<open>
  Correctness of the dates: the arithmetic of the parser agrees with the calendar although it runs
  on rounded quotients, printing a time value and parsing the text gives the time value back, and the
  parser rejects fields out of range.
\<close>

section \<open>Rounded division\<close>

lemma frac_gap:
  fixes a b :: int
  assumes "0 < b"
  shows "of_int (a div b) = (of_int a / of_int b :: rat) \<or> of_int (a div b) + 1 / of_int b \<le> (of_int a / of_int b :: rat)"
    and "of_int a / of_int b + 1 / of_int b \<le> (of_int (a div b + 1) :: rat)"
proof -
  have e: "a = a div b * b + a mod b" by simp
  have m: "0 \<le> a mod b" "a mod b + 1 \<le> b" using pos_mod_sign [OF assms, of a] pos_mod_bound [OF assms, of a] by linarith+
  have q: "of_int a / of_int b = of_int (a div b) + (of_int (a mod b) / of_int b :: rat)"
    using assms by (subst e, simp only: of_int_add of_int_mult) (simp add: add_divide_distrib)
  consider "a mod b = 0" | "1 \<le> a mod b" using m by linarith
  then show "of_int (a div b) = (of_int a / of_int b :: rat) \<or> of_int (a div b) + 1 / of_int b \<le> (of_int a / of_int b :: rat)"
    by cases (use assms in \<open>auto simp: q intro: divide_right_mono\<close>)
  have "(of_int (a mod b + 1) :: rat) \<le> of_int b" using m(2) by (simp only: of_int_le_iff)
  then show "of_int a / of_int b + 1 / of_int b \<le> (of_int (a div b + 1) :: rat)"
    using assms by (simp add: q add_divide_distrib [symmetric])
qed

lemma floor_quotient: "0 < b \<Longrightarrow> \<lfloor>of_int a / of_int b :: rat\<rfloor> = a div b"
  by (simp add: floor_divide_of_int_eq)

lemma floor_div_exact:
  assumes "\<bar>a\<bar> < 2 ^ 53" "0 < b" "b \<le> 2 ^ 53"
  shows "floor_div a b = a div b"
proof (cases "b dvd a")
  case True
  then obtain q where q: "a = b * q" ..
  have "\<bar>q\<bar> \<le> \<bar>a\<bar>" using assms(2) by (auto simp: q abs_mult mult_le_cancel_right1)
  then have "\<bar>q\<bar> < 2 ^ 53" using assms(1) by linarith
  from rfl_int [OF this] show ?thesis using assms(2) by (simp add: floor_div_def q)
next
  case False
  let ?x = "of_int a / of_int b :: rat"
  let ?k = "ilog2 \<bar>?x\<bar> + 1"
  have nz: "a \<noteq> 0" using False by auto
  have "b \<noteq> 1" using False by auto
  with assms(2) have b2: "2 \<le> b" by linarith
  have ax: "\<bar>?x\<bar> = of_int \<bar>a\<bar> / of_int b" using assms(2) by (simp add: abs_divide)
  have pos: "0 < \<bar>?x\<bar>" unfolding ax using nz assms(2) by simp
  note B = ilog2_bounds [OF pos]
  have lo: "-54 \<le> ?k"
  proof -
    have "(2::rat) powi (-53) \<le> 1 / of_int b" using assms(2,3)
      by (simp add: power_int_minus divide_simps)
    also have "\<dots> \<le> \<bar>?x\<bar>" unfolding ax using nz assms(2) by (intro divide_right_mono) auto
    finally show ?thesis using ilog2_ge by fastforce
  qed
  have hi: "?k \<le> 52"
  proof -
    have "(of_int \<bar>a\<bar> :: rat) < 2 ^ 53" using assms(1) by (metis of_int_less_numeral_power_cancel_iff)
    moreover have "(2 :: rat) \<le> of_int b" using b2 by (metis of_int_le_iff of_int_numeral)
    ultimately have "\<bar>?x\<bar> < 2 powi 52" unfolding ax by (simp add: divide_less_eq)
    from ilog2_less [OF pos this] show ?thesis by simp
  qed
  have "(2::rat) powi (?k - 54) < 1 / of_int b"
  proof -
    have "(2::rat) powi (?k - 54) = 2 powi ilog2 \<bar>?x\<bar> / 2 ^ 53"
      using power_int_diff [of "2::rat" "ilog2 \<bar>?x\<bar>" 53] by simp
    also have "\<dots> \<le> \<bar>?x\<bar> / 2 ^ 53" using B by (intro divide_right_mono) auto
    also have "\<dots> < 1 / of_int b"
    proof -
      have "(of_int \<bar>a\<bar> :: rat) < 2 ^ 53" using assms(1) by (metis of_int_less_numeral_power_cancel_iff)
      then show ?thesis unfolding ax using assms(2) by (simp add: divide_less_eq)
    qed
    finally show ?thesis .
  qed
  with frac_gap [OF assms(2), of a] B lo hi
  have "\<lfloor>rfl ?x\<rfloor> = \<lfloor>?x\<rfloor>" by (intro floor_rfl [of ?x ?k "1 / of_int b"]) (auto simp: floor_quotient [OF assms(2)])
  then show ?thesis by (simp add: floor_div_def floor_quotient [OF assms(2)])
qed

lemma rnd_exact: "\<bar>n\<bar> < 2 ^ 53 \<Longrightarrow> rnd n = n"
  by (simp add: rnd_def)

section \<open>The calendar\<close>

lemma div_Suc_step:
  fixes z n :: int
  assumes "0 < n"
  shows "(z + 1) div n = z div n + (if n dvd z + 1 then 1 else 0)"
proof (cases "n dvd z + 1")
  case True
  then obtain q where "z + 1 = n * q" ..
  then have "z = n * (q - 1) + (n - 1)" by (simp add: algebra_simps)
  from int_div_pos_eq [OF this] assms \<open>z + 1 = n * q\<close> True show ?thesis by simp
next
  case False
  have z: "z + 1 = n * (z div n) + (z mod n + 1)" by simp
  have "z mod n + 1 \<noteq> n" using False by (subst (asm) z) (metis dvd_add_right_iff dvd_refl dvd_triv_left)
  with assms pos_mod_bound [of n z] have "z mod n + 1 < n" by linarith
  from int_div_pos_eq [OF z _ this] assms False show ?thesis by simp
qed

lemma year_steps:
  "(y - 1968) div 4 = (y - 1969) div 4 + (if 4 dvd y then 1 else 0 :: int)"
  "(y - 1900) div 100 = (y - 1901) div 100 + (if 100 dvd y then 1 else 0 :: int)"
  "(y - 1600) div 400 = (y - 1601) div 400 + (if 400 dvd y then 1 else 0 :: int)"
  using div_Suc_step [of 4 "y - 1969"] div_Suc_step [of 100 "y - 1901"] div_Suc_step [of 400 "y - 1601"]
    dvd_diff_left_iff [of 4 1968 y] dvd_diff_left_iff [of 100 1900 y] dvd_diff_left_iff [of 400 1600 y] by simp_all

lemma year_dvds: "(100 :: int) dvd y \<Longrightarrow> 4 dvd y" "(400 :: int) dvd y \<Longrightarrow> 100 dvd y"
  using dvd_trans [of 4 100 y] dvd_trans [of 100 400 y] by simp_all

lemma dayFromMonth_calendar:
  assumes "\<bar>y\<bar> < 2 ^ 40" "m \<le> 12"
  shows "dayFromMonth y m = day_from_year y + month_start (leap_year y) m"
proof -
  have fd: "floor_div (y - 1969 + t) 4 = (y - 1969 + t) div 4" "floor_div (y - 1901 + t) 100 = (y - 1901 + t) div 100"
    "floor_div (y - 1601 + t) 400 = (y - 1601 + t) div 400" if "t \<in> {0, 1}" for t
    using that assms(1) by (auto intro!: floor_div_exact)
  show ?thesis
    using year_dvds [of y] fd [of 0] fd [of 1]
    by (auto simp: dayFromMonth_def day_from_year_def month_start_def months_def leap_year_def Let_def year_steps)
qed

lemma div_bounds: "0 < n \<Longrightarrow> n * (z div n) \<le> z \<and> z < n * (z div n) + n" for n z :: int
  using mult_div_mod_eq [of n z] pos_mod_sign [of n z] pos_mod_bound [of n z] by linarith

lemma day_from_year_mean:
  fixes z a b c :: int
  assumes "4 * a \<le> z - 1969 \<and> z - 1969 < 4 * a + 4" "100 * b \<le> z - 1901 \<and> z - 1901 < 100 * b + 100"
    "400 * c \<le> z - 1601 \<and> z - 1601 < 400 * c + 400"
  shows "400 * (365 * (z - 1970) + a - b + c) \<le> 146097 * (z - 1970) + 1000
    \<and> 146097 * (z - 1970) - 1000 \<le> 400 * (365 * (z - 1970) + a - b + c)"
  using assms by auto

lemma day_from_year_near:
  "400 * day_from_year z \<le> 146097 * (z - 1970) + 1000" "146097 * (z - 1970) - 1000 \<le> 400 * day_from_year z"
proof -
  have d4: "4 * (w div 4) \<le> w \<and> w < 4 * (w div 4) + 4" and d100: "100 * (w div 100) \<le> w \<and> w < 100 * (w div 100) + 100"
    and d400: "400 * (w div 400) \<le> w \<and> w < 400 * (w div 400) + 400" for w :: int
    by (rule div_bounds, simp)+
  from day_from_year_mean [OF d4 d100 d400, of z]
  show "400 * day_from_year z \<le> 146097 * (z - 1970) + 1000" "146097 * (z - 1970) - 1000 \<le> 400 * day_from_year z"
    unfolding day_from_year_def by blast+
qed

lemma year_of_day_bounds:
  "day_from_year (year_of_day d) \<le> d \<and> d < day_from_year (year_of_day d + 1)"
proof -
  define y where "y = 1970 + d * 400 div 146097"
  define q where "q = d * 400 div 146097"
  have q: "146097 * q \<le> d * 400" "d * 400 < 146097 * q + 146097"
    using div_bounds [of 146097 "d * 400"] unfolding q_def by simp_all
  have y: "y = 1970 + q" by (simp add: y_def q_def)
  have "day_from_year (y - 1) \<le> d" using day_from_year_near(1) [of "y - 1"] q y by simp
  moreover have "d < day_from_year (y + 2)" using day_from_year_near(2) [of "y + 2"] q y by simp
  ultimately show ?thesis by (auto simp: year_of_day_def Let_def y_def algebra_simps)
qed

lemma day_from_year_Suc: "day_from_year (y + 1) = day_from_year y + month_start (leap_year y) 12"
proof -
  have e: "y + 1 - 1969 = y - 1968" "y + 1 - 1901 = y - 1900" "y + 1 - 1601 = y - 1600" by simp_all
  define a b c where "a = (y - 1969) div 4" and "b = (y - 1901) div 100" and "c = (y - 1601) div 400"
  define p q r where "p = (4 dvd y)" and "q = (100 dvd y)" and "r = (400 dvd y)"
  have "q \<Longrightarrow> p" "r \<Longrightarrow> q" using year_dvds [of y] by (auto simp: p_def q_def r_def)
  then show ?thesis
    unfolding day_from_year_def month_start_def leap_year_def e year_steps a_def [symmetric] b_def [symmetric] c_def [symmetric]
      p_def [symmetric] q_def [symmetric] r_def [symmetric] by (cases p; cases q; cases r; simp)
qed

lemma between_steps: "s 0 \<le> k \<Longrightarrow> k < s n \<Longrightarrow> \<exists>j<n. s j \<le> k \<and> k < s (Suc j)" for s :: "nat \<Rightarrow> int"
proof (induction n)
  case (Suc n)
  then show ?case by (cases "k < s n") (auto simp: less_Suc_eq)
qed simp

lemma month_of_day_bounds:
  fixes d :: int
  defines "y \<equiv> year_of_day d" and "m \<equiv> month_of_day d"
  shows "m < 12 \<and> month_start (leap_year y) m \<le> d - day_from_year y \<and> d - day_from_year y < month_start (leap_year y) (Suc m)"
proof -
  define k where "k = d - day_from_year y"
  have k: "0 \<le> k" "k < month_start (leap_year y) 12"
    using year_of_day_bounds [of d] day_from_year_Suc [of y] by (auto simp: k_def y_def)
  have m: "m = length (filter (\<lambda>m. month_start (leap_year y) m \<le> k) [1, 2, 3, 4, 5, 6, 7, 8, 9, 10, 11])"
  proof -
    have "[1..<12] = [1, 2, 3, 4, 5, 6, 7, 8, 9, 10, 11 :: nat]" by code_simp
    then show ?thesis unfolding m_def month_of_day_def Let_def k_def y_def by (simp only:)
  qed
  let ?s = "month_start (leap_year y)"
  obtain j where j: "j < 12" "?s j \<le> k" "k < ?s (Suc j)"
    using between_steps [of ?s k 12] k by (auto simp: month_start_def)
  have "j = 0 \<or> j = 1 \<or> j = 2 \<or> j = 3 \<or> j = 4 \<or> j = 5 \<or> j = 6 \<or> j = 7 \<or> j = 8 \<or> j = 9 \<or> j = 10 \<or> j = 11"
    using j(1) by presburger
  then show ?thesis
    unfolding k_def [symmetric] m
    by (elim disjE; cases "leap_year y") (use j in \<open>simp_all add: month_start_def\<close>)
qed

section \<open>Milliseconds\<close>

text \<open>\<open>Number('.mmm') * 1000\<close> rounds twice.  Scaled by powers of two the quotient and the product are
  integers up to an error of less than half a unit, so the result is the number of milliseconds.\<close>

lemma ms_round:
  fixes n M D :: int
  assumes "n * 2 ^ a = 1000 * M + D" "\<bar>D\<bar> < 500" "1000 * 2 ^ 52 \<le> n * 2 ^ a" "n * 2 ^ a < 1000 * 2 ^ 53"
    "2 ^ 52 * 2 ^ a \<le> 1000 * M * 2 ^ b" "1000 * M * 2 ^ b < 2 ^ 53 * 2 ^ a" "\<bar>D\<bar> * (2 * 2 ^ b) < 2 ^ a" "a \<le> 70" "b \<le> 70"
  shows "rfl (rfl (of_int n / 1000) * 1000) = of_int n"
proof -
  have R: "of_int u \<le> (of_int v :: rat)" if "u \<le> v" for u v using that by simp
  have S: "of_int u < (of_int v :: rat)" if "u < v" for u v using that by simp
  have pw': "(2 :: rat) powi (- int c + 52) = 2 ^ 52 / 2 ^ c" "(2 :: rat) powi (- int c + 53) = 2 ^ 53 / 2 ^ c" for c
    using powi_of_nat_diff [of 52 c] powi_of_nat_diff [of 53 c] by (simp_all add: add.commute)
  have m: "(2 :: rat) powi (- int c) = 1 / 2 ^ c" for c by (simp add: power_int_minus divide_inverse)
  have E: "of_int n * 2 ^ a = (1000 * of_int M + of_int D :: rat)" using arg_cong [OF assms(1), of of_int] by simp
  have d: "\<bar>of_int D :: rat\<bar> < 500" using S [OF assms(2)] by simp
  have 1: "rfl (of_int n / 1000) = of_int M * 2 powi (- int a)"
  proof (rule fl_near)
    show "2 powi (- int a + 52) \<le> (of_int n / 1000 :: rat)" unfolding pw' using R [OF assms(3)] by (simp add: field_simps)
    show "of_int n / 1000 < (2 powi (- int a + 53) :: rat)" unfolding pw' using S [OF assms(4)] by (simp add: field_simps)
    have "of_int n / 1000 / 2 powi - int a - of_int M = (of_int D / 1000 :: rat)"
      using E by (simp add: m field_simps)
    then show "\<bar>of_int n / 1000 / 2 powi - int a - of_int M\<bar> < (1 / 2 :: rat)" using d by (simp only: abs_divide)
  qed (use assms in auto)
  have "rfl (of_int M * 2 powi (- int a) * 1000) = of_int (n * 2 ^ b) * 2 powi (- int b)"
  proof (rule fl_near)
    show "2 powi (- int b + 52) \<le> (of_int M * 2 powi (- int a) * 1000 :: rat)" unfolding pw' m using R [OF assms(5)] by (simp add: field_simps)
    show "of_int M * 2 powi (- int a) * 1000 < (2 powi (- int b + 53) :: rat)" unfolding pw' m using S [OF assms(6)] by (simp add: field_simps)
    have "of_int M * 2 powi (- int a) * 1000 / 2 powi - int b - of_int (n * 2 ^ b) = (1000 * of_int M - of_int n * 2 ^ a) * 2 ^ b / (2 ^ a :: rat)"
      by (simp add: m field_simps)
    also have "\<dots> = - of_int D * 2 ^ b / 2 ^ a" unfolding E by simp
    finally have eq: "of_int M * 2 powi (- int a) * 1000 / 2 powi - int b - of_int (n * 2 ^ b) = (- of_int D * 2 ^ b / 2 ^ a :: rat)" .
    show "\<bar>of_int M * 2 powi (- int a) * 1000 / 2 powi - int b - of_int (n * 2 ^ b)\<bar> < (1 / 2 :: rat)"
      unfolding eq using S [OF assms(7)] by (simp add: abs_mult abs_divide field_simps)
  qed (use assms in auto)
  then show ?thesis unfolding 1 by (simp add: m)
qed

lemma ms_scaled:
  fixes n m :: int
  assumes "n * 2 ^ i = m" "500 \<le> m" "m < 1000" "i \<le> 9"
  shows "rfl (rfl (of_int n / 1000) * 1000) = of_int n"
proof -
  have na: "n * 2 ^ (i + 53) = m * 2 ^ 53" by (simp add: power_add assms(1) [symmetric] mult.assoc)
  have pa: "(2 :: int) ^ (i + k) = 2 ^ i * 2 ^ k" for k by (rule power_add)
  define I :: int where "I = 2 ^ i"
  have I: "0 < I" by (simp add: I_def)
  show ?thesis
  proof (cases "m < 512")
    case True
    show ?thesis
    proof (rule ms_round [of n "i + 53" "9007199254741 * m - 4" "- 8 * (m - 500)" "i + 44"])
      show "2 ^ 52 * 2 ^ (i + 53) \<le> 1000 * (9007199254741 * m - 4) * 2 ^ (i + 44)"
        using I True assms by (simp add: pa flip: I_def)
      show "1000 * (9007199254741 * m - 4) * 2 ^ (i + 44) < 2 ^ 53 * 2 ^ (i + 53)"
        using I True assms by (simp add: pa flip: I_def)
      show "\<bar>- 8 * (m - 500)\<bar> * (2 * 2 ^ (i + 44)) < 2 ^ (i + 53)"
        using I True assms by (simp add: pa flip: I_def)
    qed (use True assms na in auto)
  next
    case False
    define D where "D = (m * 2 ^ 53 + 500) mod 1000 - 500"
    have "1000 dvd m * 2 ^ 53 - D" unfolding D_def by (simp add: mod_eq_dvd_iff [symmetric] mod_diff_left_eq mod_simps)
    then obtain M where M: "m * 2 ^ 53 - D = 1000 * M" ..
    have "-500 \<le> D" "D < 500" unfolding D_def by simp_all
    moreover have "D \<noteq> -500"
    proof
      assume "D = -500"
      with M have "m * 2251799813685248 + 125 = 250 * M" by simp
      then have "even (m * 2251799813685248 + 125) = even (250 * M)" by (rule arg_cong)
      then show False by simp
    qed
    ultimately have D: "\<bar>D\<bar> < 500" by linarith
    have lo: "2 ^ 62 \<le> 1000 * M"
    proof (cases "m = 512")
      case True
      then have "D = -96" by (simp add: D_def)
      with M True show ?thesis by simp
    next
      case neq: False
      with False M D show ?thesis by simp
    qed
    have hi: "1000 * M < 2 ^ 63" using M D assms(3) by simp
    show ?thesis
    proof (rule ms_round [of n "i + 53" M D "i + 43"])
      show "2 ^ 52 * 2 ^ (i + 53) \<le> 1000 * M * 2 ^ (i + 43)" using I lo by (simp add: pa flip: I_def)
      show "1000 * M * 2 ^ (i + 43) < 2 ^ 53 * 2 ^ (i + 53)" using I hi by (simp add: pa flip: I_def)
      show "\<bar>D\<bar> * (2 * 2 ^ (i + 43)) < 2 ^ (i + 53)" using I D by (simp add: pa flip: I_def)
    qed (use D M assms na False in auto)
  qed
qed

lemma ms_exact:
  assumes "n < 1000"
  shows "\<lfloor>rfl (rfl (of_nat n / 1000) * 1000)\<rfloor> = int n"
proof (cases "n = 0")
  case False
  have "\<exists>i \<le> 9. 500 \<le> n * 2 ^ i \<and> n * 2 ^ i < 1000"
  proof -
    have ex: "\<exists>i \<le> k. 500 \<le> n * 2 ^ i \<and> n * 2 ^ i < 1000" if "500 \<le> n * 2 ^ k" for k
      using that
    proof (induction k)
      case (Suc k)
      show ?case
      proof (cases "500 \<le> n * 2 ^ k")
        case True
        with Suc.IH show ?thesis using le_Suc_eq by blast
      next
        case False
        with Suc.prems show ?thesis by (intro exI [of _ "Suc k"]) auto
      qed
    qed (use assms in auto)
    show ?thesis by (rule ex) (use False in auto)
  qed
  then obtain i where i: "i \<le> 9" "500 \<le> n * 2 ^ i" "n * 2 ^ i < 1000" by blast
  have "rfl (rfl (of_int (int n) / 1000) * 1000) = of_int (int n)"
  proof (rule ms_scaled [OF refl])
    have "int n * 2 ^ i = int (n * 2 ^ i)" by simp
    with i(2,3) show "500 \<le> int n * 2 ^ i" "int n * 2 ^ i < 1000" by linarith+
  qed (rule i(1))
  then show ?thesis by simp
qed simp

section \<open>The pattern\<close>

definition iso_text :: "jsstr \<Rightarrow> jsstr \<Rightarrow> jsstr \<Rightarrow> jsstr \<Rightarrow> jsstr \<Rightarrow> jsstr \<Rightarrow> jsstr \<Rightarrow> jsstr" where
  "iso_text y m d h i s c = y @ [45] @ m @ [45] @ d @ [84] @ h @ [58] @ i @ [58] @ s @ [46] @ c @ [90]"

lemma no_caps_iso [regex_simps]: "no_caps isoDateExpression = [None, None, None, None, None, None, None, None, None, None, None, None]"
  by (simp add: no_caps_def isoDateExpression_def numeral_eq_Suc)

lemma in_sign_ranges [regex_simps]: "in_ranges [(43, 43), (45, 45)] c \<longleftrightarrow> c = 43 \<or> c = 45"
  by (auto simp: in_ranges_def)

lemma iso_match4:
  assumes "list_all is_digit [y1, y2, y3, y4, m1, m2, d1, d2, h1, h2, i1, i2, s1, s2, c1, c2, c3]"
  shows "match_at isoDateExpression False (iso_text [y1, y2, y3, y4] [m1, m2] [d1, d2] [h1, h2] [i1, i2] [s1, s2] [c1, c2, c3]) 0
    = Some (24, [None, Some [y1, y2, y3, y4], Some [m1, m2], Some [d1, d2], Some [h1, h2], Some [i1, i2], Some [s1, s2], Some [46, c1, c2, c3], Some [90], None, None, None])"
  unfolding match_at_def no_caps_iso iso_text_def append_Cons append_Nil
  using assms by (simp add: isoDateExpression_def regex_simps rm_times_set rm_greedy_set rm_opt upt_conv_Cons Let_def cong: regex_congs del: rm.simps(5))

lemma iso_match6:
  assumes "sg = 43 \<or> sg = 45" "list_all is_digit [y1, y2, y3, y4, y5, y6, m1, m2, d1, d2, h1, h2, i1, i2, s1, s2, c1, c2, c3]"
  shows "match_at isoDateExpression False (iso_text [sg, y1, y2, y3, y4, y5, y6] [m1, m2] [d1, d2] [h1, h2] [i1, i2] [s1, s2] [c1, c2, c3]) 0
    = Some (27, [None, Some [sg, y1, y2, y3, y4, y5, y6], Some [m1, m2], Some [d1, d2], Some [h1, h2], Some [i1, i2], Some [s1, s2], Some [46, c1, c2, c3], Some [90], None, None, None])"
proof -
  have "\<not> is_digit sg" using assms(1) by (auto simp: is_digit_def)
  then show ?thesis
    unfolding match_at_def no_caps_iso iso_text_def append_Cons append_Nil
    using assms by (simp add: isoDateExpression_def regex_simps rm_times_set rm_greedy_set rm_opt upt_conv_Cons Let_def cong: regex_congs del: rm.simps(5))
qed

lemma digits_2E: assumes "list_all is_digit xs" "length xs = 2" obtains a b where "xs = [a, b]" "is_digit a" "is_digit b"
  using assms by (auto simp: numeral_eq_Suc length_Suc_conv)

lemma digits_3E: assumes "list_all is_digit xs" "length xs = 3" obtains a b c where "xs = [a, b, c]" "is_digit a" "is_digit b" "is_digit c"
  using assms by (auto simp: numeral_eq_Suc length_Suc_conv)

definition iso_year_text :: "jsstr \<Rightarrow> bool" where
  "iso_year_text y \<longleftrightarrow> list_all is_digit y \<and> length y = 4 \<or> (hd y = 43 \<or> hd y = 45) \<and> list_all is_digit (tl y) \<and> length y = 7"

lemma iso_exec:
  assumes "iso_year_text y" "\<forall>xs \<in> {m, d, h, i, s}. list_all is_digit xs \<and> length xs = 2" "list_all is_digit c" "length c = 3"
  shows "\<exists>e. exec isoDateExpression (iso_text y m d h i s c) =
    Some (0, e, [None, Some y, Some m, Some d, Some h, Some i, Some s, Some (46 # c), Some [90], None, None, None])"
proof -
  obtain m1 m2 where m: "m = [m1, m2]" "is_digit m1" "is_digit m2" using assms(2) by (auto elim: digits_2E)
  obtain d1 d2 where d: "d = [d1, d2]" "is_digit d1" "is_digit d2" using assms(2) by (auto elim: digits_2E)
  obtain h1 h2 where h: "h = [h1, h2]" "is_digit h1" "is_digit h2" using assms(2) by (auto elim: digits_2E)
  obtain i1 i2 where i: "i = [i1, i2]" "is_digit i1" "is_digit i2" using assms(2) by (auto elim: digits_2E)
  obtain s1 s2 where s: "s = [s1, s2]" "is_digit s1" "is_digit s2" using assms(2) by (auto elim: digits_2E)
  obtain c1 c2 c3 where c: "c = [c1, c2, c3]" "is_digit c1" "is_digit c2" "is_digit c3" using assms(3,4) by (rule digits_3E)
  consider y1 y2 y3 y4 where "y = [y1, y2, y3, y4]" "list_all is_digit y"
    | sg y1 y2 y3 y4 y5 y6 where "y = [sg, y1, y2, y3, y4, y5, y6]" "sg = 43 \<or> sg = 45" "list_all is_digit [y1, y2, y3, y4, y5, y6]"
    using assms(1) by (auto simp: iso_year_text_def numeral_eq_Suc length_Suc_conv)
  then have "\<exists>e. match_at isoDateExpression False (iso_text y m d h i s c) 0 =
    Some (e, [None, Some y, Some m, Some d, Some h, Some i, Some s, Some (46 # c), Some [90], None, None, None])"
  proof cases
    case 1
    then show ?thesis using iso_match4 m d h i s c by simp
  next
    case 2
    then show ?thesis using iso_match6 m d h i s c by simp
  qed
  then show ?thesis using prefix_search unfolding exec_def by blast
qed

section \<open>The fields of a time value\<close>

lemma month_length: "m < 12 \<Longrightarrow> month_start leap (m + 1) - month_start leap m \<le> 31"
proof -
  assume "m < 12"
  then have "m = 0 \<or> m = 1 \<or> m = 2 \<or> m = 3 \<or> m = 4 \<or> m = 5 \<or> m = 6 \<or> m = 7 \<or> m = 8 \<or> m = 9 \<or> m = 10 \<or> m = 11" by presburger
  then show ?thesis by (elim disjE) (simp_all add: month_start_def)
qed

lemma split_time:
  fixes r :: int
  shows "r = ((r div 3600000 * 60 + r div 60000 mod 60) * 60 + r div 1000 mod 60) * 1000 + r mod 1000"
proof -
  have "r div 60000 = r div 1000 div 60" "r div 3600000 = r div 60000 div 60"
    using zdiv_zmult2_eq [of 60 r 1000] zdiv_zmult2_eq [of 60 r 60000] by simp_all
  then have "r div 60000 = r div 3600000 * 60 + r div 60000 mod 60" "r div 1000 = r div 60000 * 60 + r div 1000 mod 60"
    using div_mult_mod_eq [of "r div 60000" 60] div_mult_mod_eq [of "r div 1000" 60] by simp_all
  moreover have "r = r div 1000 * 1000 + r mod 1000" by simp
  moreover have "b = h * 60 + m \<Longrightarrow> c = b * 60 + s \<Longrightarrow> r = c * 1000 + k \<Longrightarrow> r = ((h * 60 + m) * 60 + s) * 1000 + k" for b c h m s k :: int
    by simp
  ultimately show ?thesis by blast
qed

definition valid_fields :: "fields \<Rightarrow> bool" where
  "valid_fields f \<longleftrightarrow> 0 \<le> fmonth f \<and> fmonth f < 12 \<and> 1 \<le> fdate f
     \<and> fdate f - 1 < month_start (leap_year (fyear f)) (nat (fmonth f) + 1) - month_start (leap_year (fyear f)) (nat (fmonth f))
     \<and> 0 \<le> fhours f \<and> fhours f < 24 \<and> 0 \<le> fminutes f \<and> fminutes f < 60 \<and> 0 \<le> fseconds f \<and> fseconds f < 60
     \<and> 0 \<le> fms f \<and> fms f < 1000"

definition time_of :: "fields \<Rightarrow> int" where
  "time_of f = ((((day_from_year (fyear f) + month_start (leap_year (fyear f)) (nat (fmonth f)) + (fdate f - 1)) * 24 + fhours f) * 60
     + fminutes f) * 60 + fseconds f) * 1000 + fms f"

lemma utc_fields_valid: "valid_fields (utc_fields t)"
proof -
  define d where "d = t div ms_per_day"
  have r: "0 \<le> t mod ms_per_day" "t mod ms_per_day < 86400000"
    using pos_mod_sign [of ms_per_day t] pos_mod_bound [of ms_per_day t] by (auto simp: ms_per_day_def)
  then have "t mod ms_per_day div 3600000 < 24" by (simp add: div_less_iff_less_mult)
  with r month_of_day_bounds [of d] show ?thesis
    by (auto simp: valid_fields_def utc_fields_def Let_def d_def pos_imp_zdiv_nonneg_iff)
qed

lemma time_of_utc_fields: "time_of (utc_fields t) = t"
proof -
  define d r where "d = t div ms_per_day" and "r = t mod ms_per_day"
  have t: "t = d * 86400000 + r" by (simp add: d_def r_def ms_per_day_def)
  define h i s c where "h = r div 3600000" and "i = r div 60000 mod 60" and "s = r div 1000 mod 60" and "c = r mod 1000"
  have "r = ((h * 60 + i) * 60 + s) * 1000 + c" unfolding h_def i_def s_def c_def by (rule split_time)
  then show ?thesis
    unfolding time_of_def utc_fields_def Let_def d_def [symmetric] r_def [symmetric] h_def [symmetric] i_def [symmetric] s_def [symmetric] c_def [symmetric]
    by (simp add: t)
qed

lemma utc_year_bound:
  assumes "\<bar>t\<bar> \<le> 8640000000000000"
  shows "\<bar>fyear (utc_fields t)\<bar> < 1000000"
proof -
  define d where "d = t div ms_per_day"
  have "\<bar>d\<bar> \<le> 100000001"
    using assms div_bounds [of ms_per_day t] unfolding d_def ms_per_day_def by auto
  moreover have "day_from_year (year_of_day d) \<le> d" "d < day_from_year (year_of_day d + 1)"
    using year_of_day_bounds [of d] by blast+
  moreover have "-100000001 \<le> d" "d \<le> 100000001" using calculation(1) by auto
  ultimately have "- 1000000 < year_of_day d" "year_of_day d < 1000000"
    using day_from_year_near(1) [of "year_of_day d + 1"] day_from_year_near(2) [of "year_of_day d"] by auto
  then show ?thesis by (simp add: utc_fields_def Let_def d_def [symmetric])
qed

section \<open>Printed fields\<close>

lemma replicate_zeros:
  "replicate 2 48 = [48, 48 :: nat]" "replicate 3 48 = [48, 48, 48 :: nat]" "replicate 5 48 = [48, 48, 48, 48, 48 :: nat]"
  by code_simp+

lemma pad2_pad: "0 \<le> n \<Longrightarrow> n < 100 \<Longrightarrow> pad2 n = pad 2 (nat n)"
  using slice_zeros_dec [of 2 "nat n" 2] by (simp add: pad2_def num_str_def replicate_zeros)

lemma ms_pad: "0 \<le> n \<Longrightarrow> n < 1000 \<Longrightarrow> str_slice_from (48 # 48 # 48 # num_str n) (-3) = pad 3 (nat n)"
  using slice_zeros_dec [of 3 "nat n" 3] by (simp add: num_str_def replicate_zeros)

lemma iso_year_pad:
  assumes "\<bar>y\<bar> < 1000000"
  shows "iso_year y = (if 0 \<le> y \<and> y \<le> 9999 then pad 4 (nat y) else (if y < 0 then 45 else 43) # pad 6 (nat \<bar>y\<bar>))"
proof -
  have "Suc 0 \<le> length (dec n)" for n using length_dec_pos [of n] by linarith
  then show ?thesis
    using slice_zeros_dec [of 4 "nat y" 5] slice_zeros_dec [of 6 "nat \<bar>y\<bar>" 5] assms
    by (auto simp: iso_year_def replicate_zeros)
qed

lemma iso_year_ok:
  assumes "\<bar>y\<bar> < 1000000"
  shows "iso_year_text (iso_year y) \<and> year_number (iso_year y) = y"
proof (cases "0 \<le> y \<and> y \<le> 9999")
  case True
  have p: "list_all is_digit (pad 4 (nat y))" "length (pad 4 (nat y)) = 4"
    using pad_digits length_pad [of 4 "nat y"] True by (auto simp: list_all_iff)
  then obtain c cs where "pad 4 (nat y) = c # cs" by (cases "pad 4 (nat y)") auto
  moreover from this p have "is_digit c" by simp
  then have "c \<noteq> 45" "c \<noteq> 43" by (auto simp: is_digit_def)
  ultimately show ?thesis using p True undec_pad [of 4 "nat y"] assms
    by (auto simp: iso_year_pad iso_year_text_def year_number_def)
next
  case False
  then show ?thesis using assms pad_digits [of 6 "nat \<bar>y\<bar>"] length_pad [of 6 "nat \<bar>y\<bar>"]
    by (auto simp: iso_year_pad iso_year_text_def year_number_def list_all_iff)
qed

text \<open>An engine may count months past the end of the year: \<open>k\<close> years are then counted as months.\<close>

lemma js_rem_month:
  assumes "0 \<le> m" "m < 12"
  shows "js_rem (js_rem (m + 12 * k) 12 + 12) 12 = m"
proof (cases "0 \<le> m + 12 * k")
  case True
  then show ?thesis using assms by (simp add: js_rem_def)
next
  case False
  have "- (m + 12 * k) mod 12 = (- m) mod 12" by (metis minus_add_distrib mod_minus_eq mod_mult_self2 mult_minus_right)
  moreover have "(- m) mod 12 = (if m = 0 then 0 else 12 - m)" using assms by (simp add: zmod_zminus1_eq_if)
  ultimately show ?thesis using False assms by (auto simp: js_rem_def)
qed

lemma toISOString_text:
  assumes "valid_fields f" "\<bar>fyear f\<bar> < 1000000" "native t = f\<lparr>fyear := fyear f - k, fmonth := fmonth f + 12 * k\<rparr>" "\<bar>k\<bar> \<le> 1000"
  shows "toISOString native (Some t) = Inr (iso_text (iso_year (fyear f)) (pad 2 (nat (fmonth f + 1))) (pad 2 (nat (fdate f)))
    (pad 2 (nat (fhours f))) (pad 2 (nat (fminutes f))) (pad 2 (nat (fseconds f))) (pad 3 (nat (fms f))))"
proof -
  have m: "0 \<le> fmonth f" "fmonth f < 12" and d: "1 \<le> fdate f" using assms(1) by (auto simp: valid_fields_def)
  have "nat (fmonth f) < 12" using m by simp
  from month_length [OF this, of "leap_year (fyear f)"] have "fdate f < 100"
    using assms(1) unfolding valid_fields_def by linarith
  have "floor_div (fmonth f + 12 * k) 12 = (fmonth f + 12 * k) div 12" using m assms(4) by (intro floor_div_exact) auto
  also have "\<dots> = k" using m by simp
  finally have "floor_div (fmonth f + 12 * k) 12 = k" .
  then show ?thesis
    using assms m d js_rem_month [OF m] \<open>fdate f < 100\<close> by (simp add: toISOString_def Let_def valid_fields_def iso_text_def pad2_pad ms_pad)
qed

section \<open>Reading the printed text\<close>

lemma undec_pad_int: "0 \<le> n \<Longrightarrow> int (undec (pad w (nat n))) = n"
  by simp

lemma milliseconds_pad: "0 \<le> n \<Longrightarrow> n < 1000 \<Longrightarrow> milliseconds (Some (46 # pad 3 (nat n))) = n"
  using ms_exact [of "nat n"] length_pad [of 3 "nat n"] by (simp add: milliseconds_def)

lemma rnd_error: "\<bar>n\<bar> < 2 ^ 56 \<Longrightarrow> \<bar>rnd n - n\<bar> \<le> 5"
proof -
  assume n: "\<bar>n\<bar> < 2 ^ 56"
  have "\<bar>of_int n :: rat\<bar> < 2 powi 56" using n by (metis of_int_abs of_int_less_numeral_power_cancel_iff power_int_numeral)
  from fl_error [OF this] have "\<bar>rfl (of_int n) - of_int n :: rat\<bar> \<le> 4" by simp
  then show ?thesis unfolding rnd_def by linarith
qed

text \<open>Whether a day of the calendar exists, whether a time of day is one the language accepts (the end
  of the day is written 24:00), and the time value.\<close>

definition valid_date :: "int \<Rightarrow> nat \<Rightarrow> nat \<Rightarrow> bool" where
  "valid_date y mo d \<longleftrightarrow> 1 \<le> mo \<and> mo \<le> 12 \<and> 1 \<le> d
     \<and> int d \<le> month_start (leap_year y) mo - month_start (leap_year y) (mo - 1)"

definition valid_time :: "nat \<Rightarrow> nat \<Rightarrow> nat \<Rightarrow> nat \<Rightarrow> bool" where
  "valid_time h i s c \<longleftrightarrow> i < 60 \<and> s < 60 \<and> c < 1000 \<and> (h < 24 \<or> h = 24 \<and> i = 0 \<and> s = 0 \<and> c = 0)"

definition seconds_at :: "int \<Rightarrow> nat \<Rightarrow> nat \<Rightarrow> nat \<Rightarrow> nat \<Rightarrow> nat \<Rightarrow> int" where
  "seconds_at y mo d h i s =
     (((day_from_year y + month_start (leap_year y) (mo - 1) + int d - 1) * 24 + int h) * 60 + int i) * 60 + int s"

definition time_at :: "int \<Rightarrow> nat \<Rightarrow> nat \<Rightarrow> nat \<Rightarrow> nat \<Rightarrow> nat \<Rightarrow> nat \<Rightarrow> int" where
  "time_at y mo d h i s c = seconds_at y mo d h i s * 1000 + int c"

lemma month_start_bounds: "m \<le> 12 \<Longrightarrow> 0 \<le> month_start leap m \<and> month_start leap m \<le> 366"
proof -
  assume "m \<le> 12"
  then have "m = 0 \<or> m = 1 \<or> m = 2 \<or> m = 3 \<or> m = 4 \<or> m = 5 \<or> m = 6 \<or> m = 7 \<or> m = 8 \<or> m = 9 \<or> m = 10 \<or> m = 11 \<or> m = 12" by presburger
  then show ?thesis by (elim disjE) (simp_all add: month_start_def)
qed

lemma seconds_at_bound:
  assumes "\<bar>y\<bar> < 1000000" "mo \<le> 12" "d < 100" "h < 100" "i < 100" "s < 100"
  shows "\<bar>seconds_at y mo d h i s\<bar> < 2 ^ 45"
proof -
  have y: "- 1000000 < y" "y < 1000000" using assms(1) by auto
  have "-366000000 \<le> day_from_year y" "day_from_year y \<le> 366000000"
    using day_from_year_near [of y] y by auto
  moreover have "0 \<le> month_start (leap_year y) (mo - 1)" "month_start (leap_year y) (mo - 1) \<le> 366"
    using month_start_bounds [of "mo - 1" "leap_year y"] assms(2) by auto
  ultimately have "- 33000000000000 < seconds_at y mo d h i s" "seconds_at y mo d h i s < 33000000000000"
    using assms(3-6) unfolding seconds_at_def by auto
  then show ?thesis by auto
qed

lemma rnd_in_range:
  assumes "\<bar>T\<bar> < 2 ^ 45" "0 \<le> c" "c < 1000"
  shows "-8640000000000000 \<le> rnd (rnd (T * 1000) + c) \<and> rnd (rnd (T * 1000) + c) \<le> 8640000000000000
      \<longleftrightarrow> \<bar>T * 1000 + c\<bar> \<le> 8640000000000000"
    and "\<bar>T * 1000 + c\<bar> \<le> 8640000000000000 \<Longrightarrow> rnd (rnd (T * 1000) + c) = T * 1000 + c"
proof -
  have e1: "\<bar>rnd (T * 1000) - T * 1000\<bar> \<le> 5" using assms by (intro rnd_error) auto
  then have e2: "\<bar>rnd (rnd (T * 1000) + c) - (rnd (T * 1000) + c)\<bar> \<le> 5" using assms by (intro rnd_error) auto
  have ex: "rnd (rnd (T * 1000) + c) = T * 1000 + c" if "\<bar>T * 1000 + c\<bar> < 9000000000000000"
  proof -
    have "rnd (T * 1000) = T * 1000" using that assms by (intro rnd_exact) auto
    with that show ?thesis by (simp add: rnd_exact)
  qed
  then show "\<bar>T * 1000 + c\<bar> \<le> 8640000000000000 \<Longrightarrow> rnd (rnd (T * 1000) + c) = T * 1000 + c" by simp
  show "-8640000000000000 \<le> rnd (rnd (T * 1000) + c) \<and> rnd (rnd (T * 1000) + c) \<le> 8640000000000000
      \<longleftrightarrow> \<bar>T * 1000 + c\<bar> \<le> 8640000000000000"
  proof (cases "\<bar>T * 1000 + c\<bar> < 9000000000000000")
    case True
    then show ?thesis using ex by (auto simp: abs_le_iff)
  next
    case False
    with e1 e2 show ?thesis by (auto simp: abs_le_iff abs_less_iff)
  qed
qed

lemma parseShim_iso:
  assumes "\<bar>y\<bar> < 1000000" "mo < 100" "d < 100" "h < 100" "i < 100" "s < 100" "c < 1000"
  shows "parseShim bug NativeDate native_parse (iso_text (iso_year y) (pad 2 mo) (pad 2 d) (pad 2 h) (pad 2 i) (pad 2 s) (pad 3 c)) =
    (if valid_date y mo d \<and> valid_time h i s c \<and> \<bar>time_at y mo d h i s c\<bar> \<le> 8640000000000000
     then Some (time_at y mo d h i s c) else None)"
proof -
  have digits: "list_all is_digit (pad w n)" for w n using pad_digits by (simp add: list_all_iff)
  obtain e where e: "exec isoDateExpression (iso_text (iso_year y) (pad 2 mo) (pad 2 d) (pad 2 h) (pad 2 i) (pad 2 s) (pad 3 c)) =
      Some (0, e, [None, Some (iso_year y), Some (pad 2 mo), Some (pad 2 d), Some (pad 2 h), Some (pad 2 i), Some (pad 2 s), Some (46 # pad 3 c), Some [90], None, None, None])"
    using iso_exec [of "iso_year y" "pad 2 mo" "pad 2 d" "pad 2 h" "pad 2 i" "pad 2 s" "pad 3 c"] iso_year_ok [OF assms(1)] assms digits
      length_pad [of 2] length_pad [of 3] by fastforce
  have dfm: "dayFromMonth y k = day_from_year y + month_start (leap_year y) k" if "k \<le> 12" for k
    using dayFromMonth_calendar [of y k] that assms(1) by simp
  have year: "year_number (iso_year y) = y" using iso_year_ok [OF assms(1)] by blast
  have ms: "milliseconds (Some (46 # pad 3 c)) = int c" using milliseconds_pad [of "int c"] assms by simp
  have parse: "parseShim bug NativeDate native_parse (iso_text (iso_year y) (pad 2 mo) (pad 2 d) (pad 2 h) (pad 2 i) (pad 2 s) (pad 3 c))
    = iso_time bug NativeDate y (int mo - 1) (int d - 1) (int h) (int i) (int s) (int c) False (-1) 0 0"
    unfolding parseShim_def e by (simp add: cap_at_def field_def year ms)
  show ?thesis
  proof (cases "1 \<le> mo \<and> mo \<le> 12")
    case False
    then have "int mo - 1 \<le> -1 \<or> 12 \<le> int mo - 1" by arith
    then have "iso_time bug NativeDate y (int mo - 1) (int d - 1) (int h) (int i) (int s) (int c) False (-1) 0 0 = None" by (auto simp: iso_time_def)
    with False show ?thesis by (auto simp: parse valid_date_def)
  next
    case True
    define T where "T = seconds_at y mo d h i s"
    have T: "\<bar>T\<bar> < 2 ^ 45" using seconds_at_bound assms True by (simp add: T_def)
    have mo: "nat (int mo - 1) = mo - 1" "nat (int mo - 1 + 1) = mo" using True by auto
    have mo12: "mo - 1 \<le> 12" using True by arith
    have len: "dayFromMonth y mo - dayFromMonth y (mo - 1) = month_start (leap_year y) mo - month_start (leap_year y) (mo - 1)"
      using dfm [of mo] dfm [OF mo12] True by simp
    have sec: "(((dayFromMonth y (mo - 1) + (int d - 1)) * 24 + int h) * 60 + int i) * 60 + int s = T"
      using dfm [OF mo12] by (simp add: T_def seconds_at_def)
    have c: "0 \<le> int c" "int c < 1000" using assms by auto
    note R = rnd_in_range [OF T c]
    define r where "r = rnd (rnd (T * 1000) + int c)"
    have "iso_time bug NativeDate y (int mo - 1) (int d - 1) (int h) (int i) (int s) (int c) False (-1) 0 0 =
      (if valid_date y mo d \<and> valid_time h i s c then if - 8640000000000000 \<le> r \<and> r \<le> 8640000000000000 then Some r else None else None)"
    proof -
      have d: "- 1 < int d - 1 \<and> int d - 1 < dayFromMonth y mo - dayFromMonth y (mo - 1) \<longleftrightarrow> valid_date y mo d"
        unfolding len using True by (auto simp: valid_date_def)
      have t: "int h < (if 0 < int i \<or> 0 < int s \<or> 0 < int c then 24 else 25) \<and> int i < 60 \<and> int s < 60 \<and> int c < 1000 \<longleftrightarrow> valid_time h i s c"
        by (auto simp: valid_time_def)
      have sec': "rnd (rnd (((((dayFromMonth y (mo - 1) + (int d - 1)) * 24 + int h + 0 * (-1)) * 60 + int i + 0 * (-1)) * 60 + int s) * 1000) + int c) = r"
        using sec by (simp add: r_def)
      have mo': "- 1 < int mo - 1" "int mo - 1 < 12" using True by auto
      show ?thesis unfolding iso_time_def mo sec' Let_def d [symmetric] t [symmetric] using mo' by simp
    qed
    then show ?thesis unfolding parse using R by (auto simp: r_def time_at_def T_def)
  qed
qed

lemma parse_printed:
  assumes "valid_fields f" "\<bar>fyear f\<bar> < 1000000" "\<bar>time_of f\<bar> \<le> 8640000000000000"
  shows "parseShim bug NativeDate native_parse (iso_text (iso_year (fyear f)) (pad 2 (nat (fmonth f + 1))) (pad 2 (nat (fdate f)))
    (pad 2 (nat (fhours f))) (pad 2 (nat (fminutes f))) (pad 2 (nat (fseconds f))) (pad 3 (nat (fms f)))) = Some (time_of f)"
proof -
  note v = assms(1) [unfolded valid_fields_def]
  have m: "nat (fmonth f) < 12" using v by auto
  have date: "fdate f < 100" using month_length [OF m, of "leap_year (fyear f)"] v by linarith
  have m1: "nat (fmonth f + 1) = nat (fmonth f) + 1" using v by (simp add: nat_add_distrib)
  have "time_at (fyear f) (nat (fmonth f + 1)) (nat (fdate f)) (nat (fhours f)) (nat (fminutes f)) (nat (fseconds f)) (nat (fms f)) = time_of f"
    using v by (simp add: time_at_def seconds_at_def time_of_def m1)
  moreover have "valid_date (fyear f) (nat (fmonth f + 1)) (nat (fdate f))" using v unfolding m1 by (auto simp: valid_date_def)
  moreover have "valid_time (nat (fhours f)) (nat (fminutes f)) (nat (fseconds f)) (nat (fms f))" using v by (auto simp: valid_time_def)
  moreover have "nat (fmonth f + 1) < 100" "nat (fdate f) < 100" "nat (fhours f) < 100" "nat (fminutes f) < 100" "nat (fseconds f) < 100" "nat (fms f) < 1000"
    using v date by auto
  ultimately show ?thesis using parseShim_iso [OF assms(2)] assms(3) by simp
qed

section \<open>Properties\<close>

text \<open>C7: printing a time value with \<open>toISOString\<close> and reading the text with the replacement of
  \<open>Date.parse\<close> gives the time value back, for every time value the language has (a hundred million days
  on each side of 1970), also on an engine whose getters count years as months.\<close>

theorem iso_round_trip:
  assumes "\<bar>t\<bar> \<le> 8640000000000000" "\<bar>k\<bar> \<le> 1000"
    and "native t = (utc_fields t)\<lparr>fyear := fyear (utc_fields t) - k, fmonth := fmonth (utc_fields t) + 12 * k\<rparr>"
  shows "\<exists>text. toISOString native (Some t) = Inr text \<and> parseShim bug NativeDate native_parse text = Some t"
  using toISOString_text [of "utc_fields t" native t k, OF utc_fields_valid utc_year_bound [OF assms(1)] assms(3,2)]
    parse_printed [of "utc_fields t", OF utc_fields_valid utc_year_bound [OF assms(1)]] assms(1)
  by (simp add: time_of_utc_fields)

theorem iso_round_trip_witness:
  "\<exists>text. toISOString utc_fields (Some (-62198755200000)) = Inr text \<and> parseShim False (\<lambda>_. None) (\<lambda>_. None) text = Some (-62198755200000)"
  using iso_round_trip [of "-62198755200000" 0 utc_fields] by simp

text \<open>C15: the replacement of \<open>Date.parse\<close> reads a complete text as the calendar says and rejects every
  text with a field out of range: a month or day that does not exist, an hour above 23 unless it is
  24:00:00.000, minutes and seconds above 59, and time values beyond the range of the language.\<close>

theorem parse_validates:
  assumes "\<bar>y\<bar> < 1000000" "mo < 100" "d < 100" "h < 100" "i < 100" "s < 100" "c < 1000"
  shows "parseShim bug NativeDate native_parse (iso_text (iso_year y) (pad 2 mo) (pad 2 d) (pad 2 h) (pad 2 i) (pad 2 s) (pad 3 c)) =
    (if valid_date y mo d \<and> valid_time h i s c \<and> \<bar>time_at y mo d h i s c\<bar> \<le> 8640000000000000
     then Some (time_at y mo d h i s c) else None)"
  using assms by (rule parseShim_iso)

theorem parse_validates_witness:
  "parseShim False (\<lambda>_. None) (\<lambda>_. None) (iso_text (iso_year 2000) (pad 2 2) (pad 2 29) (pad 2 24) (pad 2 0) (pad 2 0) (pad 3 0)) = Some 951868800000
   \<and> parseShim False (\<lambda>_. None) (\<lambda>_. None) (iso_text (iso_year 1900) (pad 2 2) (pad 2 29) (pad 2 0) (pad 2 0) (pad 2 0) (pad 3 0)) = None"
  using parse_validates [of 2000 2 29 24 0 0 0 False "\<lambda>_. None" "\<lambda>_. None"] parse_validates [of 1900 2 29 0 0 0 0 False "\<lambda>_. None" "\<lambda>_. None"]
  by (simp add: valid_date_def valid_time_def time_at_def seconds_at_def month_start_def leap_year_def day_from_year_def)

text \<open>Moving milliseconds to the seconds keeps the instant, for every number of milliseconds the
  language represents exactly, and what is left is not negative and exceeds the limit by less than a
  second.\<close>

theorem shift_ms_exact:
  assumes "0 \<le> ms" "ms < 2 ^ 53" "shift_ms bug s ms = (s', ms')"
  shows "s' * 1000 + ms' = s * 1000 + ms \<and> 0 \<le> ms' \<and> (bug \<longrightarrow> ms' < maxSafeUnsigned32Bit + 1000)"
proof (cases "bug \<and> ms > maxSafeUnsigned32Bit")
  case True
  define K where "K = maxSafeUnsigned32Bit"
  have K: "0 < K" "K \<le> 2 ^ 53" by (simp_all add: K_def maxSafeUnsigned32Bit_def)
  have q: "floor_div ms K = ms div K" using assms(1,2) K by (intro floor_div_exact) auto
  define m where "m = ms div K * K"
  have m: "m \<le> ms" "ms < m + K" "0 \<le> m" using div_bounds [OF K(1), of ms] assms(1) K by (auto simp: m_def mult.commute pos_imp_zdiv_nonneg_iff)
  have "floor_div m 1000 = m div 1000" using m assms(2) by (intro floor_div_exact) auto
  then have "s' = s + m div 1000" "ms' = ms - m div 1000 * 1000"
    using assms(3) True q by (auto simp: shift_ms_def Let_def K_def [symmetric] m_def [symmetric])
  moreover have "m div 1000 * 1000 \<le> m" "m < m div 1000 * 1000 + 1000" using div_bounds [of 1000 m] by auto
  ultimately show ?thesis using m by (simp add: K_def [symmetric])
next
  case False
  then show ?thesis using assms by (auto simp: shift_ms_def)
qed

theorem shift_ms_exact_witness: "shift_ms True 0 5000000000 = (4294967, 705033000)"
proof -
  obtain s' ms' where e: "shift_ms True 0 5000000000 = (s', ms')" by (cases "shift_ms True 0 5000000000")
  have "floor_div 5000000000 maxSafeUnsigned32Bit = 2" "floor_div (2 * maxSafeUnsigned32Bit) 1000 = 4294967"
    by (simp_all add: floor_div_exact maxSafeUnsigned32Bit_def)
  then have "s' = 4294967" using e by (simp add: shift_ms_def Let_def maxSafeUnsigned32Bit_def)
  with shift_ms_exact [OF _ _ e] e show ?thesis by simp
qed

text \<open>The shift can leave more milliseconds than the limit it is meant to enforce.\<close>

theorem shift_ms_overflow: "\<exists>s' ms'. shift_ms True 0 4294967293 = (s', ms') \<and> ms' > maxSafeUnsigned32Bit"
  by (simp add: shift_ms_def Let_def floor_div_exact maxSafeUnsigned32Bit_def)

end
