(* ===== verification/JS_URI.thy ===== *)
theory JS_URI
  imports JS_Num
begin

text \<open>
  \<open>encodeURIComponent\<close> and \<open>decodeURIComponent\<close> of the language: texts as octets of UTF-8, written in hexadecimal.
  Decoding undoes encoding, and an encoded text has no character that separates the parts of a query.
\<close>

section \<open>Decoding\<close>

definition hex_digit :: "cu \<Rightarrow> nat option" where
  "hex_digit c =
     (if 48 \<le> c \<and> c \<le> 57 then Some (c - 48) else if 97 \<le> c \<and> c \<le> 102 then Some (c - 87)
      else if 65 \<le> c \<and> c \<le> 70 then Some (c - 55) else None)"

text \<open>\<open>decodeURIComponent\<close>: escape sequences are octets of UTF-8 (ES5 15.1.3).\<close>

definition octet :: "jsstr \<Rightarrow> (nat \<times> jsstr) option" where
  "octet s =
     (case s of
        p # a # b # r \<Rightarrow> (case (hex_digit a, hex_digit b) of (Some x, Some y) \<Rightarrow> if p = 37 then Some (16 * x + y, r) else None | _ \<Rightarrow> None)
      | _ \<Rightarrow> None)"

fun continuation :: "nat \<Rightarrow> nat \<Rightarrow> jsstr \<Rightarrow> (nat \<times> jsstr) option" where
  "continuation 0 v s = Some (v, s)"
| "continuation (Suc n) v s =
     (case octet s of
        Some (b, r) \<Rightarrow> if b div 64 = 2 then continuation n (64 * v + b mod 64) r else None
      | None \<Rightarrow> None)"

definition utf8_units :: "nat \<Rightarrow> jsstr" where
  "utf8_units v = (if v < 65536 then [v] else [55296 + (v - 65536) div 1024, 56320 + (v - 65536) mod 1024])"

definition utf8_char :: "jsstr \<Rightarrow> (jsstr \<times> jsstr) option" where
  "utf8_char s =
     (case octet s of
        None \<Rightarrow> None
      | Some (b, r) \<Rightarrow>
          if b < 128 then Some ([b], r)
          else if b div 32 = 6 then (case continuation 1 (b mod 32) r of Some (v, r') \<Rightarrow> if 128 \<le> v then Some (utf8_units v, r') else None | None \<Rightarrow> None)
          else if b div 16 = 14 then
            (case continuation 2 (b mod 16) r of
               Some (v, r') \<Rightarrow> if 2048 \<le> v \<and> \<not> (55296 \<le> v \<and> v \<le> 57343) then Some (utf8_units v, r') else None | None \<Rightarrow> None)
          else if b div 8 = 30 then
            (case continuation 3 (b mod 8) r of Some (v, r') \<Rightarrow> if 65536 \<le> v \<and> v \<le> 1114111 then Some (utf8_units v, r') else None | None \<Rightarrow> None)
          else None)"

lemma octet_shorter: "octet s = Some (b, r) \<Longrightarrow> length r < length s"
  by (auto simp: octet_def split: list.splits option.splits if_splits)

lemma continuation_shorter: "continuation n v s = Some (w, r) \<Longrightarrow> length r \<le> length s"
  by (induction n v s arbitrary: w r rule: continuation.induct)
     (auto split: option.splits prod.splits if_splits dest!: octet_shorter, fastforce)

lemma utf8_char_shorter: "utf8_char s = Some (u, r) \<Longrightarrow> length r < length s"
  by (auto simp: utf8_char_def split: option.splits prod.splits if_splits dest!: octet_shorter continuation_shorter)

function decodeURIComponent :: "jsstr \<Rightarrow> jsstr res" where
  "decodeURIComponent s =
     (case s of
        [] \<Rightarrow> Inr []
      | c # r \<Rightarrow>
          if c \<noteq> 37 then bindR (decodeURIComponent r) (\<lambda>t. Inr (c # t))
          else case utf8_char s of
                 None \<Rightarrow> Inl (JSError (lit ''URIError''))
               | Some (u, r') \<Rightarrow> bindR (decodeURIComponent r') (\<lambda>t. Inr (u @ t)))"
  by pat_completeness auto
termination
  by (relation "measure length") (auto dest: utf8_char_shorter)

declare decodeURIComponent.simps [simp del]

section \<open>Encoding\<close>

text \<open>\<open>encodeURIComponent\<close> (ES5 15.1.3): characters outside a small set become octets of UTF-8; half of a pair
  of surrogates is an error.\<close>

definition unreserved :: "cu \<Rightarrow> bool" where
  "unreserved c \<longleftrightarrow> is_digit c \<or> 65 \<le> c \<and> c \<le> 90 \<or> 97 \<le> c \<and> c \<le> 122 \<or> c \<in> set (lit ''-_.!~*()'') \<or> c = 39"

definition hex_upper :: "nat \<Rightarrow> cu" where
  "hex_upper n = (if n < 10 then 48 + n else 55 + n)"

definition percent :: "nat \<Rightarrow> jsstr" where
  "percent b = [37, hex_upper (b div 16), hex_upper (b mod 16)]"

definition utf8_octets :: "nat \<Rightarrow> nat list" where
  "utf8_octets v =
     (if v < 128 then [v]
      else if v < 2048 then [192 + v div 64, 128 + v mod 64]
      else if v < 65536 then [224 + v div 4096, 128 + v div 64 mod 64, 128 + v mod 64]
      else [240 + v div 262144, 128 + v div 4096 mod 64, 128 + v div 64 mod 64, 128 + v mod 64])"

fun encodeURIComponent :: "jsstr \<Rightarrow> jsstr res" where
  "encodeURIComponent [] = Inr []"
| "encodeURIComponent (c # s) =
     (if unreserved c then bindR (encodeURIComponent s) (\<lambda>t. Inr (c # t))
      else if 56320 \<le> c \<and> c \<le> 57343 then Inl (JSError (lit ''URIError''))
      else if 55296 \<le> c \<and> c \<le> 56319 then
        (case s of
           [] \<Rightarrow> Inl (JSError (lit ''URIError''))
         | d # s' \<Rightarrow>
             if 56320 \<le> d \<and> d \<le> 57343
             then bindR (encodeURIComponent s') (\<lambda>t. Inr (concat (map percent (utf8_octets ((c - 55296) * 1024 + (d - 56320) + 65536))) @ t))
             else Inl (JSError (lit ''URIError'')))
      else bindR (encodeURIComponent s) (\<lambda>t. Inr (concat (map percent (utf8_octets c)) @ t)))"

lemma encode_error: "encodeURIComponent s = Inl e \<Longrightarrow> e = JSError (lit ''URIError'')"
proof (induction s rule: encodeURIComponent.induct)
  case (2 c s)
  have bind: "bindR m (\<lambda>t. Inr (f t)) = Inl e \<Longrightarrow> m = Inl e" for m :: "jsstr res" and f by (cases m) auto
  show ?case
  proof (cases "unreserved c")
    case True
    then show ?thesis using 2(1) [OF True] "2.prems" by (auto dest: bind)
  next
    case nu: False
    show ?thesis
    proof (cases "56320 \<le> c \<and> c \<le> 57343")
      case True
      then show ?thesis using nu "2.prems" by simp
    next
      case low: False
      show ?thesis
      proof (cases "55296 \<le> c \<and> c \<le> 56319")
        case True
        show ?thesis
        proof (cases s)
          case Nil
          then show ?thesis using nu low True "2.prems" by simp
        next
          case (Cons d s')
          then show ?thesis using 2(2) [OF nu low True Cons] nu low True "2.prems" by (auto dest: bind split: if_splits)
        qed
      next
        case False
        then show ?thesis using 2(3) [OF nu low False] nu low "2.prems" by (cases "encodeURIComponent s") (simp_all split: if_splits)
      qed
    qed
  qed
qed simp

lemma hex_digit_upper: "n < 16 \<Longrightarrow> hex_digit (hex_upper n) = Some n"
  by (simp add: hex_digit_def hex_upper_def)

lemma octet_percent: "b < 256 \<Longrightarrow> octet (percent b @ r) = Some (b, r)"
  by (simp add: octet_def percent_def hex_digit_upper less_mult_imp_div_less)

lemma continuation_step: "x < 64 \<Longrightarrow> continuation (Suc n) v (percent (128 + x) @ r) = continuation n (64 * v + x) r"
proof -
  assume x: "x < 64"
  have "(128 + x) div 64 = 2" "(128 + x) mod 64 = x" using x mod_mult_self4 [of "64::nat" 2 x] by simp_all
  then show ?thesis using x by (simp add: octet_percent)
qed

lemma digits64: "64 * (v div 64) + v mod 64 = (v::nat)" "64 * (v div 4096) + v div 64 mod 64 = v div 64" "64 * (v div 262144) + v div 4096 mod 64 = v div 4096"
proof -
  show "64 * (v div 64) + v mod 64 = v" by simp
  have "v div 4096 = v div 64 div 64" "v div 262144 = v div 4096 div 64" by (simp_all add: div_mult2_eq [symmetric])
  then show "64 * (v div 4096) + v div 64 mod 64 = v div 64" "64 * (v div 262144) + v div 4096 mod 64 = v div 4096" by simp_all
qed

text \<open>The first octet tells how many follow.\<close>

lemma utf8_first:
  "b < 128 \<Longrightarrow> utf8_char (percent b @ r) = Some ([b], r)"
  "a < 32 \<Longrightarrow> utf8_char (percent (192 + a) @ r) = (case continuation 1 a r of Some (v, r') \<Rightarrow> if 128 \<le> v then Some (utf8_units v, r') else None | None \<Rightarrow> None)"
  "a < 16 \<Longrightarrow> utf8_char (percent (224 + a) @ r) = (case continuation 2 a r of Some (v, r') \<Rightarrow> if 2048 \<le> v \<and> \<not> (55296 \<le> v \<and> v \<le> 57343) then Some (utf8_units v, r') else None | None \<Rightarrow> None)"
  "a < 8 \<Longrightarrow> utf8_char (percent (240 + a) @ r) = (case continuation 3 a r of Some (v, r') \<Rightarrow> if 65536 \<le> v \<and> v \<le> 1114111 then Some (utf8_units v, r') else None | None \<Rightarrow> None)"
proof -
  show "b < 128 \<Longrightarrow> utf8_char (percent b @ r) = Some ([b], r)" by (simp add: utf8_char_def octet_percent)
  assume a: "a < 32"
  have "(192 + a) div 32 = 6" "(192 + a) mod 32 = a" using a mod_mult_self4 [of "32::nat" 6 a] by simp_all
  then show "utf8_char (percent (192 + a) @ r) = (case continuation 1 a r of Some (v, r') \<Rightarrow> if 128 \<le> v then Some (utf8_units v, r') else None | None \<Rightarrow> None)"
    using a by (simp add: utf8_char_def octet_percent)
next
  assume a: "a < 16"
  have "(224 + a) div 32 = 7" "(224 + a) div 16 = 14" "(224 + a) mod 16 = a" using a mod_mult_self4 [of "16::nat" 14 a] by simp_all
  then show "utf8_char (percent (224 + a) @ r) = (case continuation 2 a r of Some (v, r') \<Rightarrow> if 2048 \<le> v \<and> \<not> (55296 \<le> v \<and> v \<le> 57343) then Some (utf8_units v, r') else None | None \<Rightarrow> None)"
    using a by (simp add: utf8_char_def octet_percent)
next
  assume a: "a < 8"
  have "(240 + a) div 32 = 7" "(240 + a) div 16 = 15" "(240 + a) div 8 = 30" "(240 + a) mod 8 = a" using a mod_mult_self4 [of "8::nat" 30 a] by simp_all
  then show "utf8_char (percent (240 + a) @ r) = (case continuation 3 a r of Some (v, r') \<Rightarrow> if 65536 \<le> v \<and> v \<le> 1114111 then Some (utf8_units v, r') else None | None \<Rightarrow> None)"
    using a by (simp add: utf8_char_def octet_percent)
qed

lemma utf8_char_octets:
  assumes "v < 1114112" "\<not> (55296 \<le> v \<and> v \<le> 57343)"
  shows "utf8_char (concat (map percent (utf8_octets v)) @ r) = Some (utf8_units v, r)"
proof -
  note c = continuation_step [of "v mod 64", simplified] continuation_step [of "v div 64 mod 64", simplified] continuation_step [of "v div 4096 mod 64", simplified]
  consider "v < 128" | "128 \<le> v" "v < 2048" | "2048 \<le> v" "v < 65536" | "65536 \<le> v" by linarith
  then show ?thesis
  proof cases
    case 1
    then show ?thesis by (simp add: utf8_octets_def utf8_first(1) utf8_units_def)
  next
    case 2
    have "v div 64 < 32" using 2 by (simp add: less_mult_imp_div_less)
    then show ?thesis using 2 by (simp add: utf8_octets_def utf8_first(2) c numeral_eq_Suc [of "num.One"] digits64)
  next
    case 3
    have "v div 4096 < 16" using 3 by (simp add: less_mult_imp_div_less)
    moreover have "continuation 2 (v div 4096) (percent (128 + v div 64 mod 64) @ percent (128 + v mod 64) @ r) = Some (v, r)"
      by (simp add: numeral_2_eq_2 c digits64)
    ultimately show ?thesis using 3 assms by (simp add: utf8_octets_def utf8_first(3))
  next
    case 4
    have "v div 262144 < 8" using assms(1) by (simp add: less_mult_imp_div_less)
    moreover have "continuation 3 (v div 262144) (percent (128 + v div 4096 mod 64) @ percent (128 + v div 64 mod 64) @ percent (128 + v mod 64) @ r) = Some (v, r)"
      by (simp add: numeral_3_eq_3 c digits64)
    ultimately show ?thesis using 4 assms by (simp add: utf8_octets_def utf8_first(4))
  qed
qed

lemma octets_cons: "\<exists>b bs. utf8_octets v = b # bs"
  by (simp add: utf8_octets_def)

lemma decode_octets:
  assumes "v < 1114112" "\<not> (55296 \<le> v \<and> v \<le> 57343)"
  shows "decodeURIComponent (concat (map percent (utf8_octets v)) @ t) = bindR (decodeURIComponent t) (\<lambda>u. Inr (utf8_units v @ u))"
proof -
  obtain b bs where "utf8_octets v = b # bs" using octets_cons by blast
  then obtain xs where e: "concat (map percent (utf8_octets v)) @ t = 37 # xs" by (simp add: percent_def)
  show ?thesis using utf8_char_octets [OF assms, of t] unfolding e by (subst decodeURIComponent.simps) simp
qed

lemma unreserved_bounds: "unreserved c \<Longrightarrow> c \<noteq> 37"
  by (auto simp: unreserved_def is_digit_def)

lemma encode_decode:
  "list_all (\<lambda>c. c < 65536) s \<Longrightarrow> encodeURIComponent s = Inr t \<Longrightarrow> decodeURIComponent t = Inr s"
proof (induction s arbitrary: t rule: encodeURIComponent.induct)
  case 1
  then show ?case by (simp add: decodeURIComponent.simps)
next
  case (2 c s)
  show ?case
  proof (cases "unreserved c")
    case True
    then obtain t' where "encodeURIComponent s = Inr t'" "t = c # t'" using "2.prems"(2) by (auto simp: bindR_Inr_conv)
    then show ?thesis using 2(1) [OF True] "2.prems"(1) unreserved_bounds [OF True] by (subst decodeURIComponent.simps) simp
  next
    case nu: False
    then have low: "\<not> (56320 \<le> c \<and> c \<le> 57343)" using "2.prems"(2) by (auto split: if_splits)
    show ?thesis
    proof (cases "55296 \<le> c \<and> c \<le> 56319")
      case True
      then obtain d s' t' where d: "s = d # s'" "56320 \<le> d \<and> d \<le> 57343" "encodeURIComponent s' = Inr t'"
          "t = concat (map percent (utf8_octets ((c - 55296) * 1024 + (d - 56320) + 65536))) @ t'"
        using "2.prems"(2) nu low by (auto simp: bindR_Inr_conv split: list.splits if_splits)
      have ih: "decodeURIComponent t' = Inr s'" using 2(2) [OF nu low True d(1,2) _ d(3)] "2.prems"(1) d(1) by simp
      define v where "v = (c - 55296) * 1024 + (d - 56320) + 65536"
      have cd: "c - 55296 < 1024" "d - 56320 < 1024" using True d(2) by auto
      have "v < 1114112" "\<not> (55296 \<le> v \<and> v \<le> 57343)" using cd unfolding v_def by linarith+
      moreover have "utf8_units v = [c, d]"
      proof -
        have "v - 65536 = (c - 55296) * 1024 + (d - 56320)" "\<not> v < 65536" by (simp_all add: v_def)
        moreover from this(1) cd(2) have "(v - 65536) div 1024 = c - 55296" "(v - 65536) mod 1024 = d - 56320" by simp_all
        ultimately show ?thesis using True d(2) by (simp add: utf8_units_def)
      qed
      ultimately show ?thesis using decode_octets [of v t'] d(1,4) ih by (simp add: v_def)
    next
      case False
      then obtain t' where t': "encodeURIComponent s = Inr t'" "t = concat (map percent (utf8_octets c)) @ t'"
        using "2.prems"(2) nu low by (auto simp: bindR_Inr_conv)
      have "decodeURIComponent t' = Inr s" using 2(3) [OF nu low False _ t'(1)] "2.prems"(1) by simp
      moreover have "c < 1114112" "\<not> (55296 \<le> c \<and> c \<le> 57343)" "c < 65536" using "2.prems"(1) low False by auto
      ultimately show ?thesis using decode_octets [of c t'] t'(2) by (simp add: utf8_units_def)
    qed
  qed
qed

text \<open>An encoded text has no character that separates the parts of a query.\<close>

lemma hex_upper_alnum: "n < 16 \<Longrightarrow> is_digit (hex_upper n) \<or> 65 \<le> hex_upper n \<and> hex_upper n \<le> 70"
  by (auto simp: hex_upper_def is_digit_def)

lemma percent_chars: "b < 256 \<Longrightarrow> list_all (\<lambda>c. c = 37 \<or> unreserved c) (percent b)"
  using hex_upper_alnum [of "b div 16"] hex_upper_alnum [of "b mod 16"] by (auto simp: percent_def unreserved_def less_mult_imp_div_less)

lemma octets_small: "v < 1114112 \<Longrightarrow> list_all (\<lambda>b. b < 256) (utf8_octets v)"
proof -
  assume v: "v < 1114112"
  have "x mod 64 < 128" for x :: nat by (rule order.strict_trans [of _ 64]) simp_all
  then show ?thesis using v by (simp add: utf8_octets_def less_mult_imp_div_less)
qed

lemma encode_chars:
  "list_all (\<lambda>c. c < 65536) s \<Longrightarrow> encodeURIComponent s = Inr t \<Longrightarrow> list_all (\<lambda>c. c = 37 \<or> unreserved c) t"
proof (induction s arbitrary: t rule: encodeURIComponent.induct)
  case (2 c s)
  have oct: "list_all (\<lambda>c. c = 37 \<or> unreserved c) (concat (map percent (utf8_octets v)))" if "v < 1114112" for v
    using octets_small [OF that] percent_chars by (fastforce simp: list_all_iff)
  show ?case
  proof (cases "unreserved c \<or> \<not> (55296 \<le> c \<and> c \<le> 56319)")
    case True
    then obtain t' where "encodeURIComponent s = Inr t'" "t = c # t' \<and> unreserved c \<or> t = concat (map percent (utf8_octets c)) @ t'"
      using "2.prems"(2) by (auto simp: bindR_Inr_conv split: if_splits)
    moreover from this(1) have "list_all (\<lambda>c. c = 37 \<or> unreserved c) t'" using 2(1,3) True "2.prems" by (auto split: if_splits)
    ultimately show ?thesis using oct [of c] "2.prems"(1) by auto
  next
    case False
    then obtain d s' t' where d: "s = d # s'" "56320 \<le> d \<and> d \<le> 57343" "encodeURIComponent s' = Inr t'"
        "t = concat (map percent (utf8_octets ((c - 55296) * 1024 + (d - 56320) + 65536))) @ t'"
      using "2.prems"(2) by (auto simp: bindR_Inr_conv split: list.splits if_splits)
    have "c - 55296 < 1024" "d - 56320 < 1024" using False d(2) by auto
    then have "(c - 55296) * 1024 + (d - 56320) + 65536 < 1114112" by linarith
    from oct [OF this] show ?thesis using 2(2) [OF _ _ _ d(1,2) _ d(3)] False d "2.prems"(1) by auto
  qed
qed simp

text \<open>What a query relies on: decoding undoes encoding, and an encoded text has neither \<open>&\<close> nor \<open>=\<close>.\<close>

locale query_codec =
  fixes encode decode :: "jsstr \<Rightarrow> jsstr res"
  assumes dec_enc: "list_all (\<lambda>c. c < 65536) v \<Longrightarrow> encode v = Inr t \<Longrightarrow> decode t = Inr v"
    and enc_plain: "list_all (\<lambda>c. c < 65536) v \<Longrightarrow> encode v = Inr t \<Longrightarrow> 38 \<notin> set t \<and> 61 \<notin> set t"

interpretation uri: query_codec encodeURIComponent decodeURIComponent
proof
  fix v t assume v: "list_all (\<lambda>c. c < 65536) v" "encodeURIComponent v = Inr t"
  show "decodeURIComponent t = Inr v" by (rule encode_decode [OF v])
  have "\<not> unreserved 38" "\<not> unreserved 61" by (simp_all add: unreserved_def is_digit_def)
  then show "38 \<notin> set t \<and> 61 \<notin> set t" using encode_chars [OF v] by (auto simp: list_all_iff)
qed

end
