(* ===== verification/JS_Regex_Syntax.thy ===== *)
theory JS_Regex_Syntax
  imports JS_Regex JS_URI
begin

text \<open>
  The syntax of patterns (ES5 15.10.1), as far as the sources use it: a text is cut into tokens, and the tokens
  are put together with a stack of open groups, which are numbered by their opening parentheses.  A normal
  form without nested sequences and alternatives shows that two patterns match alike.
\<close>

text \<open>Texts of patterns: the percent sign stands for the backslash and the letter Q for the quotation mark.\<close>

definition pat :: "string \<Rightarrow> jsstr" where
  "pat s = map (\<lambda>c. if c = CHR ''%'' then 92 else if c = CHR ''Q'' then 34 else of_char c) s"

section \<open>Escapes and classes\<close>

text \<open>An item of a class: the set of an escape, or its complement, a unit, or a hyphen that may make a range.\<close>

datatype citem = CSet bool "(nat \<times> nat) list" | CUnit nat | CDash

definition hex_number :: "nat \<Rightarrow> jsstr \<Rightarrow> (nat \<times> jsstr) option" where
  "hex_number n s =
     (case those (map hex_digit (take n s)) of
        None \<Rightarrow> None
      | Some ds \<Rightarrow> if length ds = n then Some (foldl (\<lambda>v d. 16 * v + d) 0 ds, drop n s) else None)"

lemma hex_number_length: "hex_number n s = Some (w, r) \<Longrightarrow> length r \<le> length s"
  by (auto simp: hex_number_def split: option.splits if_splits)

text \<open>What stands behind a backslash, inside and outside classes.\<close>

definition class_escape :: "cu \<Rightarrow> citem option" where
  "class_escape c =
     (if c = 100 then Some (CSet True digit_ranges) else if c = 68 then Some (CSet False digit_ranges)
      else if c = 115 then Some (CSet True space_ranges) else if c = 83 then Some (CSet False space_ranges)
      else if c = 119 then Some (CSet True word_ranges) else if c = 87 then Some (CSet False word_ranges)
      else None)"

definition char_escape :: "cu \<Rightarrow> jsstr \<Rightarrow> (nat \<times> jsstr) option" where
  "char_escape c s =
     (if c = 110 then Some (10, s) else if c = 116 then Some (9, s) else if c = 114 then Some (13, s)
      else if c = 118 then Some (11, s) else if c = 102 then Some (12, s) else if c = 48 then Some (0, s)
      else if c = 120 then hex_number 2 s else if c = 117 then hex_number 4 s
      else if is_word c then None else Some (c, s))"

lemma char_escape_length: "char_escape c s = Some (v, r) \<Longrightarrow> length r \<le> length s"
  by (auto simp: char_escape_def dest: hex_number_length split: if_splits)

definition class_atom :: "jsstr \<Rightarrow> (citem \<times> jsstr) option" where
  "class_atom s =
     (case s of
        [] \<Rightarrow> None
      | c # t \<Rightarrow>
          if c \<noteq> 92 then Some (if c = 45 then CDash else CUnit c, t)
          else (case t of
                  [] \<Rightarrow> None
                | d # u \<Rightarrow>
                    (case class_escape d of
                       Some i \<Rightarrow> Some (i, u)
                     | None \<Rightarrow> if d = 98 then Some (CUnit 8, u) else map_option (\<lambda>(v, r). (CUnit v, r)) (char_escape d u))))"

lemma class_atom_length: "class_atom s = Some (i, r) \<Longrightarrow> length r < length s"
  by (auto simp: class_atom_def dest!: char_escape_length split: list.splits if_splits option.splits)

text \<open>The atoms of a class up to the closing bracket, and the ranges among them.\<close>

function class_atoms :: "jsstr \<Rightarrow> (citem list \<times> jsstr) option" where
  "class_atoms s =
     (if s = [] then None
      else if hd s = 93 then Some ([], tl s)
      else case class_atom s of
             None \<Rightarrow> None
           | Some (i, r) \<Rightarrow> (case class_atoms r of None \<Rightarrow> None | Some (is, t) \<Rightarrow> Some (i # is, t)))"
  by pat_completeness auto
termination
  by (relation "measure length") (auto dest: class_atom_length)

declare class_atoms.simps [simp del]

lemma class_atoms_length: "class_atoms s = Some (is, r) \<Longrightarrow> length r < length s"
proof (induction s arbitrary: "is" r rule: class_atoms.induct)
  case (1 s)
  show ?case
  proof (cases "s = [] \<or> hd s = 93")
    case True
    then show ?thesis using "1.prems" [unfolded class_atoms.simps [of s]] by (cases s) (auto split: if_splits)
  next
    case False
    then obtain i u where a: "class_atom s = Some (i, u)" using "1.prems" by (auto simp: class_atoms.simps [of s] split: option.splits)
    with False "1.prems" obtain "is'" where "class_atoms u = Some (is', r)" by (auto simp: class_atoms.simps [of s] split: option.splits)
    with "1.IH" [OF _ _ a refl] False class_atom_length [OF a] show ?thesis by fastforce
  qed
qed

fun with_ranges :: "citem list \<Rightarrow> citem list option" where
  "with_ranges (CUnit a # CDash # CUnit b # is) = (if a \<le> b then map_option (Cons (CSet True [(a, b)])) (with_ranges is) else None)"
| "with_ranges (i # is) = map_option (Cons (if i = CDash then CUnit 45 else i)) (with_ranges is)"
| "with_ranges [] = Some []"

text \<open>The set of a class.  One complement among the items is enough for the sources; its ranges must be ranges
  of the other items or disjoint from them.\<close>

definition positive_ranges :: "citem list \<Rightarrow> (nat \<times> nat) list" where
  "positive_ranges is = concat (map (\<lambda>i. case i of CSet True rs \<Rightarrow> rs | CSet False _ \<Rightarrow> [] | CUnit n \<Rightarrow> [(n, n)] | CDash \<Rightarrow> [(45, 45)]) is)"

definition complements :: "citem list \<Rightarrow> (nat \<times> nat) list list" where
  "complements is = concat (map (\<lambda>i. case i of CSet False rs \<Rightarrow> [rs] | _ \<Rightarrow> []) is)"

definition apart :: "(nat \<times> nat) list \<Rightarrow> nat \<times> nat \<Rightarrow> bool" where
  "apart rs r \<longleftrightarrow> list_all (\<lambda>(a, b). b < fst r \<or> snd r < a) rs"

definition class_re :: "bool \<Rightarrow> citem list \<Rightarrow> re option" where
  "class_re pos is =
     (let ps = positive_ranges is
      in case complements is of
           [] \<Rightarrow> Some (RSet pos ps)
         | [ns] \<Rightarrow> if list_all (\<lambda>r. r \<in> set ps \<or> apart ps r) ns then Some (RSet (\<not> pos) (filter (\<lambda>r. r \<notin> set ps) ns)) else None
         | _ \<Rightarrow> None)"

text \<open>A unit is in a class if it is in one of the items.\<close>

definition in_item :: "citem \<Rightarrow> nat \<Rightarrow> bool" where
  "in_item i c = (case i of CSet pos rs \<Rightarrow> in_ranges rs c = pos | CUnit n \<Rightarrow> c = n | CDash \<Rightarrow> c = 45)"

lemma in_ranges_iff: "in_ranges rs c \<longleftrightarrow> (\<exists>(a, b) \<in> set rs. a \<le> c \<and> c \<le> b)"
  by (auto simp: in_ranges_def list_ex_iff)

lemma in_ranges_append: "in_ranges (rs @ rs') c \<longleftrightarrow> in_ranges rs c \<or> in_ranges rs' c"
  by (simp add: in_ranges_def)

lemma positive_ranges_Cons [simp]:
  "positive_ranges (CSet True rs # is) = rs @ positive_ranges is"
  "positive_ranges (CSet False rs # is) = positive_ranges is"
  "positive_ranges (CUnit n # is) = (n, n) # positive_ranges is"
  "positive_ranges (CDash # is) = (45, 45) # positive_ranges is"
  by (simp_all add: positive_ranges_def)

lemma complements_Cons [simp]:
  "complements (CSet True rs # is) = complements is"
  "complements (CSet False rs # is) = rs # complements is"
  "complements (CUnit n # is) = complements is"
  "complements (CDash # is) = complements is"
  by (simp_all add: complements_def)

lemma in_items:
  "(\<exists>i \<in> set is. in_item i c) \<longleftrightarrow> in_ranges (positive_ranges is) c \<or> (\<exists>ns \<in> set (complements is). \<not> in_ranges ns c)"
proof (induction "is")
  case Nil
  show ?case by (simp add: positive_ranges_def complements_def in_ranges_def)
next
  case (Cons i "is")
  have one: "in_ranges ((a, a) # rs) c \<longleftrightarrow> c = a \<or> in_ranges rs c" for a rs by (auto simp: in_ranges_def)
  show ?case
  proof (cases i)
    case (CSet pos rs)
    then show ?thesis using Cons.IH by (cases pos) (simp_all add: in_item_def in_ranges_append disj_assoc)
  qed (use Cons.IH in \<open>simp_all add: in_item_def one disj_assoc\<close>)
qed

lemma class_re_set:
  assumes "class_re pos is = Some r"
  shows "\<exists>b rs. r = RSet b rs \<and> (\<forall>c. (in_ranges rs c = b) = ((\<exists>i \<in> set is. in_item i c) = pos))"
proof (cases "complements is")
  case Nil
  then show ?thesis using assms by (auto simp: class_re_def in_items)
next
  case (Cons ns nss)
  then have one: "nss = []" and ok: "list_all (\<lambda>r. r \<in> set (positive_ranges is) \<or> apart (positive_ranges is) r) ns"
    and r: "r = RSet (\<not> pos) (filter (\<lambda>r. r \<notin> set (positive_ranges is)) ns)"
    using assms by (auto simp: class_re_def Let_def split: list.splits if_splits)
  have "in_ranges (filter (\<lambda>r. r \<notin> set (positive_ranges is)) ns) c \<longleftrightarrow> in_ranges ns c \<and> \<not> in_ranges (positive_ranges is) c" for c
    using ok by (fastforce simp: in_ranges_iff list_all_iff apart_def)
  then show ?thesis using r Cons one by (auto simp: in_items)
qed

section \<open>Tokens\<close>

datatype kind = Capture nat | Plain | Ahead bool

datatype ptok =
    TAtom re
  | TAssert re
  | TQuant nat "nat option" bool
  | TBar
  | TCapture
  | TGroup kind
  | TClose

fun number :: "nat \<Rightarrow> jsstr \<Rightarrow> nat \<times> jsstr" where
  "number v [] = (v, [])"
| "number v (c # s) = (if is_digit c then number (10 * v + (c - 48)) s else (v, c # s))"

lemma number_length: "number v s = (n, r) \<Longrightarrow> length r \<le> length s"
  by (induction v s rule: number.induct) (auto split: if_splits)

text \<open>The bounds of a quantifier in braces.\<close>

definition braces :: "jsstr \<Rightarrow> (nat \<times> nat option \<times> jsstr) option" where
  "braces s =
     (case s of
        [] \<Rightarrow> None
      | d # _ \<Rightarrow>
          if \<not> is_digit d then None
          else (case number 0 s of
                  (m, c # r) \<Rightarrow>
                    if c = 125 then Some (m, Some m, r)
                    else if c = 44 then
                      (case r of
                         [] \<Rightarrow> None
                       | e # t \<Rightarrow>
                           if e = 125 then Some (m, None, t)
                           else if \<not> is_digit e then None
                           else (case number 0 r of (n, f # u) \<Rightarrow> if f = 125 \<and> m \<le> n then Some (m, Some n, u) else None | _ \<Rightarrow> None))
                    else None
                | _ \<Rightarrow> None))"

lemma braces_length: "braces s = Some (m, n, r) \<Longrightarrow> length r < length s"
  by (auto simp: braces_def dest!: number_length split: list.splits prod.splits if_splits)

text \<open>A question mark after a quantifier makes it lazy.\<close>

definition quant :: "nat \<Rightarrow> nat option \<Rightarrow> jsstr \<Rightarrow> ptok \<times> jsstr" where
  "quant mn mx s = (case s of [] \<Rightarrow> (TQuant mn mx True, s) | c # t \<Rightarrow> if c = 63 then (TQuant mn mx False, t) else (TQuant mn mx True, s))"

definition open_group :: "jsstr \<Rightarrow> (ptok \<times> jsstr) option" where
  "open_group s =
     (case s of
        [] \<Rightarrow> Some (TCapture, s)
      | a # u \<Rightarrow>
          if a \<noteq> 63 then Some (TCapture, s)
          else (case u of
                  [] \<Rightarrow> None
                | b # t \<Rightarrow>
                    if b = 58 then Some (TGroup Plain, t)
                    else if b = 61 then Some (TGroup (Ahead True), t)
                    else if b = 33 then Some (TGroup (Ahead False), t)
                    else None))"

definition escape_token :: "jsstr \<Rightarrow> (ptok \<times> jsstr) option" where
  "escape_token s =
     (case s of
        [] \<Rightarrow> None
      | c # t \<Rightarrow>
          if c = 98 then Some (TAssert (RWordB True), t)
          else if c = 66 then Some (TAssert (RWordB False), t)
          else if 49 \<le> c \<and> c \<le> 57 then (case number 0 s of (n, r) \<Rightarrow> Some (TAtom (RBack n), r))
          else case class_escape c of
                 Some (CSet pos rs) \<Rightarrow> Some (TAtom (RSet pos rs), t)
               | _ \<Rightarrow> (case char_escape c t of Some (v, r) \<Rightarrow> Some (TAtom (runit v), r) | None \<Rightarrow> None))"

definition class_token :: "bool \<Rightarrow> jsstr \<Rightarrow> (ptok \<times> jsstr) option" where
  "class_token pos s =
     (case class_atoms s of
        None \<Rightarrow> None
      | Some (is, r) \<Rightarrow>
          (case with_ranges is of
             None \<Rightarrow> None
           | Some is' \<Rightarrow> (case class_re pos is' of Some x \<Rightarrow> Some (TAtom x, r) | None \<Rightarrow> None)))"

definition next_token :: "cu \<Rightarrow> jsstr \<Rightarrow> (ptok \<times> jsstr) option" where
  "next_token c s =
     (if c = 94 then Some (TAssert RBol, s)
      else if c = 36 then Some (TAssert REol, s)
      else if c = 124 then Some (TBar, s)
      else if c = 41 then Some (TClose, s)
      else if c = 40 then open_group s
      else if c = 42 then Some (quant 0 None s)
      else if c = 43 then Some (quant 1 None s)
      else if c = 63 then Some (quant 0 (Some 1) s)
      else if c = 123 then (case braces s of Some (mn, mx, r) \<Rightarrow> Some (quant mn mx r) | None \<Rightarrow> None)
      else if c = 46 then Some (TAtom rdot, s)
      else if c = 91 then (case s of [] \<Rightarrow> None | d # t \<Rightarrow> if d = 94 then class_token False t else class_token True s)
      else if c = 92 then escape_token s
      else Some (TAtom (runit c), s))"

lemma quant_length: "quant mn mx s = (t, r) \<Longrightarrow> length r \<le> length s"
  by (auto simp: quant_def split: list.splits if_splits)

lemma next_token_length: "next_token c s = Some (t, r) \<Longrightarrow> length r \<le> length s"
proof -
  have e: "escape_token s = Some (t, r) \<Longrightarrow> length r \<le> length s" for s
    by (auto simp: escape_token_def dest!: number_length char_escape_length split: list.splits if_splits option.splits prod.splits citem.splits)
  have k: "class_token pos s = Some (t, r) \<Longrightarrow> length r \<le> length s" for pos s
    by (auto simp: class_token_def dest!: class_atoms_length split: option.splits)
  have g: "open_group s = Some (t, r) \<Longrightarrow> length r \<le> length s" for s
    by (auto simp: open_group_def split: list.splits if_splits)
  assume "next_token c s = Some (t, r)"
  then show ?thesis
    by (auto simp: next_token_def dest: quant_length dest!: braces_length k e g split: list.splits if_splits option.splits)
qed

function tokens_of :: "jsstr \<Rightarrow> ptok list option" where
  "tokens_of [] = Some []"
| "tokens_of (c # s) = (case next_token c s of None \<Rightarrow> None | Some (t, r) \<Rightarrow> map_option (Cons t) (tokens_of r))"
  by pat_completeness auto
termination
  by (relation "measure length") (auto dest: next_token_length)

text \<open>A text can be cut where the next character cannot belong to the token before.\<close>

definition clean :: "jsstr \<Rightarrow> bool" where
  "clean b \<longleftrightarrow> (case b of [] \<Rightarrow> True | c # _ \<Rightarrow> c \<noteq> 63 \<and> \<not> is_digit c)"

lemma hex_number_append:
  assumes "hex_number n s = Some (v, r)"
  shows "hex_number n (s @ b) = Some (v, r @ b)"
proof -
  have len: "those (map f xs) = Some ys \<Longrightarrow> length ys = length xs" for f :: "nat \<Rightarrow> nat option" and xs ys
    by (induction xs arbitrary: ys) (auto split: option.splits)
  from assms obtain ds where "those (map hex_digit (take n s)) = Some ds" "length ds = n" by (auto simp: hex_number_def split: option.splits if_splits)
  with len [of hex_digit "take n s" ds] have "n \<le> length s" by simp
  then show ?thesis using assms by (auto simp: hex_number_def split: option.splits if_splits)
qed

lemma char_escape_append: "char_escape c s = Some (v, r) \<Longrightarrow> char_escape c (s @ b) = Some (v, r @ b)"
  by (auto simp: char_escape_def dest: hex_number_append split: if_splits)

lemma class_atom_append: "class_atom s = Some (i, r) \<Longrightarrow> class_atom (s @ b) = Some (i, r @ b)"
proof -
  assume a: "class_atom s = Some (i, r)"
  obtain c t where s: "s = c # t" using a by (cases s) (auto simp: class_atom_def)
  show ?thesis
  proof (cases "c = 92 \<and> t \<noteq> [] \<and> class_escape (hd t) = None \<and> hd t \<noteq> 98")
    case True
    then obtain d u where t: "t = d # u" by (cases t) auto
    with a s True obtain v where v: "char_escape d u = Some (v, r)" "i = CUnit v" by (auto simp: class_atom_def)
    show ?thesis using char_escape_append [OF v(1)] v(2) True s t by (simp add: class_atom_def)
  next
    case False
    then show ?thesis using a s by (auto simp: class_atom_def split: list.splits option.splits)
  qed
qed

lemma class_atoms_append: "class_atoms s = Some (is, r) \<Longrightarrow> class_atoms (s @ b) = Some (is, r @ b)"
proof (induction s arbitrary: "is" r rule: class_atoms.induct)
  case (1 s)
  show ?case
  proof (cases "s = [] \<or> hd s = 93")
    case True
    then show ?thesis using "1.prems" [unfolded class_atoms.simps [of s]] by (auto simp: class_atoms.simps [of "s @ b"] split: if_splits)
  next
    case False
    then obtain i u where a: "class_atom s = Some (i, u)" using "1.prems" by (auto simp: class_atoms.simps [of s] split: option.splits)
    with False "1.prems" obtain "is'" where u: "class_atoms u = Some (is', r)" "is = i # is'" by (auto simp: class_atoms.simps [of s] split: option.splits)
    with "1.IH" [OF _ _ a refl u(1)] False class_atom_append [OF a] show ?thesis by (simp add: class_atoms.simps [of "s @ b"])
  qed
qed

lemma number_append: "number v s = (n, r) \<Longrightarrow> r \<noteq> [] \<or> clean b \<Longrightarrow> number v (s @ b) = (n, r @ b)"
  by (induction v s rule: number.induct) (auto simp: clean_def neq_Nil_conv split: if_splits list.splits)

lemma quant_append: "quant mn mx s = (t, r) \<Longrightarrow> clean b \<Longrightarrow> quant mn mx (s @ b) = (t, r @ b)"
  by (auto simp: quant_def clean_def split: list.splits if_splits)

lemma braces_append: "braces s = Some (m, n, r) \<Longrightarrow> braces (s @ b) = Some (m, n, r @ b)"
proof -
  assume a: "braces s = Some (m, n, r)"
  then obtain d t where s: "s = d # t" "is_digit d" by (auto simp: braces_def split: list.splits if_splits)
  with a obtain m' c u where 1: "number 0 s = (m', c # u)" by (auto simp: braces_def split: list.splits prod.splits if_splits)
  note 2 = number_append [OF 1, of b, simplified]
  show ?thesis
  proof (cases "c = 125")
    case True
    then show ?thesis using a s 1 2 by (auto simp: braces_def)
  next
    case False
    with a s 1 obtain e v where u: "c = 44" "u = e # v" by (auto simp: braces_def split: list.splits if_splits)
    show ?thesis
    proof (cases "e = 125")
      case True
      then show ?thesis using a s 1 2 u by (simp add: braces_def)
    next
      case False
      with a s 1 u obtain n' f w where 3: "number 0 u = (n', f # w)" by (auto simp: braces_def split: list.splits prod.splits if_splits)
      show ?thesis using a s 1 2 u False 3 number_append [OF 3, of b, simplified] by (simp add: braces_def split: if_splits)
    qed
  qed
qed

lemma escape_token_append:
  assumes "escape_token s = Some (t, r)" "clean b"
  shows "escape_token (s @ b) = Some (t, r @ b)"
proof -
  obtain c u where s: "s = c # u" using assms(1) by (cases s) (auto simp: escape_token_def)
  show ?thesis
  proof (cases "c = 98 \<or> c = 66 \<or> (\<exists>pos rs. class_escape c = Some (CSet pos rs))")
    case True
    then show ?thesis using assms(1) s by (auto simp: escape_token_def class_escape_def split: if_splits)
  next
    case other: False
    show ?thesis
    proof (cases "49 \<le> c \<and> c \<le> 57")
      case True
      then obtain n where n: "number 0 s = (n, r)" "t = TAtom (RBack n)" using assms(1) s other by (auto simp: escape_token_def split: prod.splits)
      show ?thesis using number_append [OF n(1), of b] assms(2) n(2) s other True by (simp add: escape_token_def)
    next
      case False
      with assms(1) s other obtain v where v: "char_escape c u = Some (v, r)" "t = TAtom (runit v)"
        by (auto simp: escape_token_def split: option.splits citem.splits)
      show ?thesis using char_escape_append [OF v(1), of b] v(2) s other False by (auto simp: escape_token_def split: option.split citem.split)
    qed
  qed
qed

lemma class_token_append:
  assumes "class_token pos s = Some (t, r)"
  shows "class_token pos (s @ b) = Some (t, r @ b)"
proof -
  from assms obtain "is" where 1: "class_atoms s = Some (is, r)" by (auto simp: class_token_def split: option.splits)
  show ?thesis using assms 1 class_atoms_append [OF 1, of b] by (auto simp: class_token_def split: option.splits)
qed

lemma open_group_append: "open_group s = Some (t, r) \<Longrightarrow> clean b \<Longrightarrow> open_group (s @ b) = Some (t, r @ b)"
  by (auto simp: open_group_def clean_def split: list.splits if_splits)

lemma next_token_append:
  assumes "next_token c s = Some (t, r)" "clean b"
  shows "next_token c (s @ b) = Some (t, r @ b)"
proof -
  consider "c = 40" | "c = 42 \<or> c = 43 \<or> c = 63" | "c = 123" | "c = 91" | "c = 92" | "c \<notin> {40, 42, 43, 63, 123, 91, 92}" by auto
  then show ?thesis
  proof cases
    case 1
    then show ?thesis using assms open_group_append by (simp add: next_token_def)
  next
    case 2
    then show ?thesis using assms quant_append by (auto simp: next_token_def)
  next
    case 3
    with assms(1) obtain mn mx u where "braces s = Some (mn, mx, u)" "quant mn mx u = (t, r)" by (auto simp: next_token_def split: option.splits)
    then show ?thesis using 3 braces_append quant_append assms(2) by (simp add: next_token_def)
  next
    case 4
    with assms(1) obtain d u where "s = d # u" by (cases s) (auto simp: next_token_def)
    then show ?thesis using 4 assms(1) class_token_append [of True s t r b] class_token_append [of False u t r b] by (auto simp: next_token_def split: if_splits)
  next
    case 5
    then show ?thesis using assms escape_token_append by (simp add: next_token_def)
  next
    case 6
    then show ?thesis using assms(1) by (auto simp: next_token_def split: if_splits)
  qed
qed

lemma tokens_of_append: "tokens_of s = Some ts \<Longrightarrow> clean b \<Longrightarrow> tokens_of (s @ b) = map_option ((@) ts) (tokens_of b)"
proof (induction s arbitrary: ts rule: tokens_of.induct)
  case 1
  then show ?case by (simp add: option.map_ident)
next
  case (2 c s)
  then obtain t r where 1: "next_token c s = Some (t, r)" by (auto split: option.splits)
  with "2.prems"(1) obtain ts' where ts: "tokens_of r = Some ts'" "ts = t # ts'" by auto
  show ?case using next_token_append [OF 1 "2.prems"(2)] "2.IH" [OF 1 refl ts(1) "2.prems"(2)] ts(2)
    by (simp add: option.map_comp comp_def)
qed

section \<open>Patterns\<close>

text \<open>A group that is open: its kind, the alternatives that are complete and the terms of the current one, both in
  reverse.  A term has a flag that says whether a quantifier may follow.\<close>

type_synonym frame = "kind \<times> re list \<times> (re \<times> bool) list"

definition close_terms :: "(re \<times> bool) list \<Rightarrow> re" where
  "close_terms xs = rseq (rev (map fst xs))"

definition close_alts :: "re list \<Rightarrow> (re \<times> bool) list \<Rightarrow> re" where
  "close_alts as xs = ralts (rev (close_terms xs # as))"

definition close_group :: "kind \<Rightarrow> re \<Rightarrow> re \<times> bool" where
  "close_group k r = (case k of Capture n \<Rightarrow> (RGroup n r, True) | Plain \<Rightarrow> (r, True) | Ahead pos \<Rightarrow> (RLook pos r, False))"

fun build :: "frame list \<Rightarrow> nat \<Rightarrow> ptok list \<Rightarrow> re option" where
  "build [(k, as, xs)] n [] = Some (close_alts as xs)"
| "build ((k, as, xs) # fs) n (TAtom r # ts) = build ((k, as, (r, True) # xs) # fs) n ts"
| "build ((k, as, xs) # fs) n (TAssert r # ts) = build ((k, as, (r, False) # xs) # fs) n ts"
| "build ((k, as, (r, True) # xs) # fs) n (TQuant mn mx g # ts) = build ((k, as, (RRep r mn mx g, False) # xs) # fs) n ts"
| "build ((k, as, xs) # fs) n (TBar # ts) = build ((k, close_terms xs # as, []) # fs) n ts"
| "build fs n (TCapture # ts) = build ((Capture (Suc n), [], []) # fs) (Suc n) ts"
| "build fs n (TGroup k # ts) = build ((k, [], []) # fs) n ts"
| "build ((k, as, xs) # (k', as', xs') # fs) n (TClose # ts) = build ((k', as', close_group k (close_alts as xs) # xs') # fs) n ts"
| "build fs n ts = None"

definition parse_re :: "jsstr \<Rightarrow> re option" where
  "parse_re s = (case tokens_of s of None \<Rightarrow> None | Some ts \<Rightarrow> build [(Plain, [], [])] 0 ts)"

section \<open>Normal form\<close>

fun seq_cat :: "re \<Rightarrow> re \<Rightarrow> re" where
  "seq_cat REmpty b = b"
| "seq_cat (RSeq x y) b = RSeq x (seq_cat y b)"
| "seq_cat a b = (if b = REmpty then a else RSeq a b)"

fun alt_cat :: "re \<Rightarrow> re \<Rightarrow> re" where
  "alt_cat (RAlt x y) b = RAlt x (alt_cat y b)"
| "alt_cat a b = RAlt a b"

primrec norm :: "re \<Rightarrow> re" where
  "norm REmpty = REmpty"
| "norm (RSet pos rs) = RSet pos rs"
| "norm (RSeq a b) = seq_cat (norm a) (norm b)"
| "norm (RAlt a b) = alt_cat (norm a) (norm b)"
| "norm (RRep r mn mx g) = RRep (norm r) mn mx g"
| "norm (RGroup n r) = RGroup n (norm r)"
| "norm (RBack n) = RBack n"
| "norm RBol = RBol"
| "norm REol = REol"
| "norm (RWordB b) = RWordB b"
| "norm (RLook pos r) = RLook pos (norm r)"

lemma seq_cat_groups: "groups (seq_cat a b) = groups a @ groups b"
  by (induction a b rule: seq_cat.induct) auto

lemma concat_map_empty: "concat (map (ss REmpty ml s) xs) = xs"
  by (induction xs) auto

lemma seq_or_left: "ss (if b = REmpty then a else RSeq a b) ml s st = concat (map (ss b ml s) (ss a ml s st))"
proof (cases "b = REmpty")
  case True
  show ?thesis unfolding True by (simp only: concat_map_empty if_True refl)
qed simp

lemma seq_cat_ss: "ss (seq_cat a b) ml s st = concat (map (ss b ml s) (ss a ml s st))"
proof (induction a b arbitrary: st rule: seq_cat.induct)
  case (2 x y b)
  have "concat (map (\<lambda>x. concat (f x)) xs) = concat (concat (map f xs))" for f :: "mstate \<Rightarrow> mstate list list" and xs
    by (induction xs) auto
  moreover have "ss (seq_cat y b) ml s = (\<lambda>st. concat (map (ss b ml s) (ss y ml s st)))" by (rule ext) (rule 2)
  ultimately show ?case by (simp add: map_concat comp_def)
qed (simp_all only: seq_cat.simps seq_or_left, simp)

lemma seq_cat_same: "groups (seq_cat a b) = groups a @ groups b" "ss (seq_cat a b) ml s = ss (RSeq a b) ml s"
  by (simp_all add: seq_cat_groups seq_cat_ss fun_eq_iff)

lemma alt_cat_same: "groups (alt_cat a b) = groups a @ groups b" "ss (alt_cat a b) ml s = ss (RAlt a b) ml s"
  by (induction a b rule: alt_cat.induct) (auto simp: fun_eq_iff)

lemma norm_same: "groups (norm r) = groups r \<and> ss (norm r) ml s = ss r ml s"
  by (induction r) (auto simp: seq_cat_same alt_cat_same intro!: ext)

lemma exec_from_norm: "exec_from (norm r) ml s i = exec_from r ml s i"
proof -
  have "match_at (norm r) ml s j = match_at r ml s j" for j by (simp add: match_at_def no_caps_def rm_ss norm_same)
  then have "search_from n (norm r) ml s j = search_from n r ml s j" for n j by (induction n arbitrary: j) (simp_all split: option.split)
  then show ?thesis by (simp add: exec_from_def)
qed

text \<open>A text reads as a pattern if the pattern it is parsed to has the same normal form, so that it matches alike.\<close>

definition reads_as :: "jsstr \<Rightarrow> re \<Rightarrow> bool" where
  "reads_as src r \<longleftrightarrow> map_option norm (parse_re src) = Some (norm r)"

lemma reads_as_exec:
  assumes "reads_as src r"
  shows "\<exists>r'. parse_re src = Some r' \<and> (\<forall>ml s i. exec_from r' ml s i = exec_from r ml s i)"
proof -
  from assms obtain r' where r': "parse_re src = Some r'" "norm r' = norm r" by (auto simp: reads_as_def)
  have "exec_from r' ml s i = exec_from r ml s i" for ml s i
    using exec_from_norm [of r' ml s i] exec_from_norm [of r ml s i] r'(2) by simp
  with r'(1) show ?thesis by blast
qed

end
