(* ===== verification/ES5_Strings.thy ===== *)
theory ES5_Strings
  imports JS_Regex_Syntax ES5_Object ES5_Arrays
begin

text \<open>
  The strings of es5-shim.js: \<open>split\<close> with a regular expression, \<open>replace\<close>, \<open>substr\<close>, \<open>trim\<close>,
  \<open>lastIndexOf\<close>, \<open>parseInt\<close> and \<open>parseFloat\<close>, and the printers of errors and regular expressions.  A
  native method that a replacement calls is a parameter.
\<close>

section \<open>Split\<close>

text \<open>A flag says whether the engine reports groups that took no part in a match as \<open>undefined\<close>.  One
  that does not is repaired by matching the text of the match once more: \<open>separator2\<close> is made from the source
  of the separator, so that in an alternative only its first branch is anchored at the beginning.\<close>

definition separator2 :: "jsstr \<Rightarrow> re option" where
  "separator2 src = parse_re ([94] @ src @ [36] @ lit ''(?!'' @ [92] @ lit ''s)'')"

text \<open>The repair, with the second pattern, if the engine needs it.\<close>

definition npcg_fix :: "re option \<Rightarrow> bool \<Rightarrow> jsstr \<Rightarrow> caps \<Rightarrow> caps" where
  "npcg_fix sep2 ml m c =
     (case sep2 of
        None \<Rightarrow> c
      | Some r2 \<Rightarrow>
          if length c \<le> 1 then c
          else case exec_from r2 ml m 0 of
                 None \<Rightarrow> c
               | Some (_, _, c2) \<Rightarrow> map (\<lambda>(x, y). if y = None then None else x) (zip c c2))"

text \<open>The engine's \<open>exec\<close>: the captures as it reports them.\<close>

definition reported :: "re option \<Rightarrow> caps \<Rightarrow> caps" where
  "reported sep2 c = (if sep2 = None then c else map (\<lambda>x. case x of None \<Rightarrow> Some [] | Some t \<Rightarrow> Some t) c)"

text \<open>The loop, with \<open>separatorCopy.lastIndex\<close>, \<open>lastLastIndex\<close>, \<open>lastLength\<close> and \<open>output\<close>.  It returns the
  last three and \<open>separatorCopy.lastIndex\<close>, which a failed match resets.\<close>

function split_loop :: "re option \<Rightarrow> re \<Rightarrow> bool \<Rightarrow> jsstr \<Rightarrow> nat \<Rightarrow> nat \<Rightarrow> nat \<Rightarrow> nat \<Rightarrow> jsstr option list \<Rightarrow>
    nat \<times> nat \<times> nat \<times> jsstr option list" where
  "split_loop sep2 r ml s splitLimit lastIndex lastLastIndex lastLength output =
     (case exec_from r ml s lastIndex of
        None \<Rightarrow> (0, lastLastIndex, lastLength, output)
      | Some (i, j, c) \<Rightarrow>
          let next = (if j = i then Suc j else j)
          in if j > lastLastIndex then
               let c' = npcg_fix sep2 ml (take (j - i) (drop i s)) (reported sep2 c);
                   output' = output @ [Some (str_slice s (int lastLastIndex) (int i))] @ (if length c' > 1 \<and> i < length s then tl c' else [])
               in if length output' \<ge> splitLimit then (j, j, j - i, output')
                  else split_loop sep2 r ml s splitLimit next j (j - i) output'
             else split_loop sep2 r ml s splitLimit next lastLastIndex lastLength output)"
  by pat_completeness auto
termination
  by (relation "measure (\<lambda>(sep2, r, ml, s, l, p, _). Suc (length s) - p)") (auto dest!: exec_from_bounds)

declare split_loop.simps [simp del]

text \<open>A limit that is not given is \<open>2^32 - 1\<close>.  \<open>native\<close> is the engine's \<open>split\<close>, used when the separator
  is not a regular expression, which has its source and its flag \<open>multiline\<close>; a missing separator with limit zero gives no elements.\<close>

datatype separator = Undefined | Text jsstr | Regex jsstr re bool

definition split_regex :: "re option \<Rightarrow> re \<Rightarrow> bool \<Rightarrow> nat \<Rightarrow> jsstr \<Rightarrow> jsstr option list" where
  "split_regex sep2 r ml splitLimit s =
     (case split_loop sep2 r ml s splitLimit 0 0 0 [] of (lastIndex, lastLastIndex, lastLength, output) \<Rightarrow>
        let output' =
              (if lastLastIndex = length s
               then if lastLength \<noteq> 0 \<or> exec_from r ml [] lastIndex = None then output @ [Some []] else output
               else output @ [Some (str_slice_from s (int lastLastIndex))])
        in if length output' > splitLimit then take splitLimit output' else output')"

definition split_es5 :: "bool \<Rightarrow> (jsstr \<Rightarrow> separator \<Rightarrow> jsnum option \<Rightarrow> jsstr option list) \<Rightarrow> jsstr \<Rightarrow> separator \<Rightarrow> jsnum option \<Rightarrow>
    jsstr option list res" where
  "split_es5 compliant native s separator limit =
     (if separator = Undefined \<and> limit = Some (Fin 0) then Inr []
      else case separator of
             Regex src r ml \<Rightarrow>
               let splitLimit = (case limit of None \<Rightarrow> 2 ^ 32 - 1 | Some l \<Rightarrow> ToUint32 l)
               in if compliant then Inr (split_regex None r ml splitLimit s)
                  else (case separator2 src of
                          None \<Rightarrow> Inl (JSError (lit ''SyntaxError''))
                        | Some r2 \<Rightarrow> Inr (split_regex (Some r2) r ml splitLimit s))
           | _ \<Rightarrow> Inr (native s separator limit))"

definition split_undefined :: "(jsstr \<Rightarrow> separator \<Rightarrow> jsnum option \<Rightarrow> jsstr option list) \<Rightarrow> jsstr \<Rightarrow> separator \<Rightarrow> jsnum option \<Rightarrow>
    jsstr option list" where
  "split_undefined native s separator limit =
     (if separator = Undefined \<and> limit = Some (Fin 0) then [] else native s separator limit)"

section \<open>Replace\<close>

text \<open>The callback gets the groups, the offset and the string.  The wrapper takes the groups from a new
  match of the matched text instead of the engine's report.\<close>

definition capturing_groups_re :: re where
  "capturing_groups_re = RSeq (rchr CHR '')'') (RSet True [(42, 42), (63, 63)])"

definition wrappedReplaceValue :: "re \<Rightarrow> bool \<Rightarrow> (jsstr option list \<Rightarrow> nat \<Rightarrow> jsstr \<Rightarrow> 'a) \<Rightarrow> jsstr \<Rightarrow> nat \<Rightarrow> jsstr \<Rightarrow> 'a" where
  "wrappedReplaceValue searchValue ml replaceValue m offset s =
     replaceValue (case exec_from searchValue ml m 0 of None \<Rightarrow> [] | Some (i, j, c) \<Rightarrow> Some (take (j - i) (drop i m)) # tl c) offset s"

definition replace_es5 :: "bool \<Rightarrow> bool \<Rightarrow> jsstr \<Rightarrow> 'a \<Rightarrow> 'a \<Rightarrow> 'a" where
  "replace_es5 isFn is_regex source native native_wrapped =
     (if \<not> isFn \<or> \<not> (is_regex \<and> re_test capturing_groups_re source) then native else native_wrapped)"

section \<open>Substr and trim\<close>

definition substr_es5 :: "(jsstr \<Rightarrow> int \<Rightarrow> int option \<Rightarrow> jsstr) \<Rightarrow> jsstr \<Rightarrow> int \<Rightarrow> int option \<Rightarrow> jsstr" where
  "substr_es5 string_substr s start len =
     string_substr s (if start < 0 then max (int (length s) + start) 0 else start) len"

definition ws :: "nat list" where
  "ws = [9, 10, 11, 12, 13, 32, 160, 5760, 6158, 8192, 8193, 8194, 8195, 8196, 8197, 8198, 8199, 8200, 8201, 8202, 8239, 8287, 12288, 8232, 8233, 65279]"

definition wsRegexChars :: re where
  "wsRegexChars = RSet True (map (\<lambda>c. (c, c)) ws)"

definition trimBeginRegexp :: re where
  "trimBeginRegexp = rseq [RBol, wsRegexChars, rstar wsRegexChars]"

definition trimEndRegexp :: re where
  "trimEndRegexp = rseq [wsRegexChars, rstar wsRegexChars, REol]"

definition trim_string :: "jsstr \<Rightarrow> jsstr" where
  "trim_string s = replace_first trimEndRegexp (replace_first trimBeginRegexp s (\<lambda>_ _. [])) (\<lambda>_ _. [])"

definition trim_es5 :: "jsstr option \<Rightarrow> jsstr res" where
  "trim_es5 this = (case this of None \<Rightarrow> Inl TypeError | Some s \<Rightarrow> Inr (trim_string s))"

section \<open>lastIndexOf\<close>

definition strIndexOf :: "jsstr \<Rightarrow> jsstr \<Rightarrow> int" where
  "strIndexOf s t = (case index_of s t of None \<Rightarrow> -1 | Some i \<Rightarrow> int i)"

lemma index_of_empty: "index_of s [] = Some 0"
  by (simp add: index_of_def prefix_at_def upt_conv_Cons del: upt_Suc)

function lastIndexOf_loop :: "jsstr \<Rightarrow> jsstr \<Rightarrow> nat \<Rightarrow> nat \<Rightarrow> int" where
  "lastIndexOf_loop S searchStr start k =
     (if k > 0 then
        let k' = k - length searchStr;
            index = strIndexOf (str_slice S (int k') (int (start + length searchStr))) searchStr
        in if index \<noteq> -1 then int k' + index else lastIndexOf_loop S searchStr start k'
      else -1)"
  by pat_completeness auto
termination
proof (relation "measure (\<lambda>(_, _, _, k). k)")
  fix S searchStr :: jsstr and start k x :: nat and xa :: int
  assume "0 < k" "x = k - length searchStr" "xa = strIndexOf (str_slice S (int x) (int (start + length searchStr))) searchStr" "\<not> xa \<noteq> -1"
  then have "searchStr \<noteq> []" by (auto simp: strIndexOf_def index_of_empty)
  with \<open>0 < k\<close> \<open>x = k - length searchStr\<close> show "((S, searchStr, start, x), S, searchStr, start, k) \<in> measure (\<lambda>(_, _, _, k). k)"
    by (cases searchStr) auto
qed simp

declare lastIndexOf_loop.simps [simp del]

text \<open>The position: infinite when it is missing or not a number.\<close>

definition lastIndexOf_start :: "jsnum option \<Rightarrow> nat \<Rightarrow> nat" where
  "lastIndexOf_start numPos len =
     (case numPos of
        None \<Rightarrow> len
      | Some NaN \<Rightarrow> len
      | Some x \<Rightarrow> (case ToInteger x of PosInf \<Rightarrow> len | NegInf \<Rightarrow> 0 | Whole pos \<Rightarrow> nat (min (max pos 0) (int len))))"

definition lastIndexOf_string :: "jsstr option \<Rightarrow> jsstr \<Rightarrow> jsnum option \<Rightarrow> int res" where
  "lastIndexOf_string this searchStr numPos =
     (case this of
        None \<Rightarrow> Inl TypeError
      | Some S \<Rightarrow>
          let start = lastIndexOf_start numPos (length S)
          in Inr (lastIndexOf_loop S searchStr start (start + length searchStr)))"

text \<open>The second wrapper only fixes the number of formal parameters.\<close>

definition lastIndexOf_wrapper :: "('s \<Rightarrow> 'a list \<Rightarrow> 'r) \<Rightarrow> 's \<Rightarrow> 'a list \<Rightarrow> 'r" where
  "lastIndexOf_wrapper originalLastIndexOf this arguments = originalLastIndexOf this arguments"

section \<open>Numbers\<close>

definition hexRegex :: re where
  "hexRegex = rseq [RBol, ropt (RSet True [(45, 45), (43, 43)]), rchr CHR ''0'', RSet True [(120, 120), (88, 88)]]"

text \<open>A radix that is missing, zero or not a number is replaced.\<close>

definition defaultedRadix :: "jsnum \<Rightarrow> jsstr \<Rightarrow> jsnum" where
  "defaultedRadix radix s =
     (if radix = NaN \<or> radix = Fin 0 then Fin (if re_test hexRegex s then 16 else 10) else radix)"

definition parseInt_es5 :: "(jsstr \<Rightarrow> jsnum \<Rightarrow> jsnum) \<Rightarrow> jsstr \<Rightarrow> jsnum \<Rightarrow> jsnum" where
  "parseInt_es5 origParseInt str radix =
     (let s = trim_string str in origParseInt s (defaultedRadix radix s))"

text \<open>The numbers of the model have one zero; the negative one is a value of its own here.\<close>

datatype signed_num = MinusZero | Value jsnum

definition is_zero :: "signed_num \<Rightarrow> bool" where
  "is_zero r = (r = MinusZero \<or> r = Value (Fin 0))"

definition parseFloat_es5 :: "(jsstr \<Rightarrow> signed_num) \<Rightarrow> jsstr \<Rightarrow> signed_num" where
  "parseFloat_es5 origParseFloat str =
     (let inputString = trim_string str; result = origParseFloat inputString
      in if is_zero result \<and> str_slice inputString 0 1 = lit ''-'' then MinusZero else result)"

text \<open>The argument may be missing or \<open>undefined\<close>, which some engines tell apart.\<close>

datatype 'p argument = Missing | Given "'p option"

definition toPrecision_es5 :: "('n \<Rightarrow> 'p argument \<Rightarrow> jsstr res) \<Rightarrow> 'n \<Rightarrow> 'p argument \<Rightarrow> jsstr res" where
  "toPrecision_es5 originalToPrecision this precision =
     (case precision of
        Given (Some p) \<Rightarrow> originalToPrecision this (Given (Some p))
      | _ \<Rightarrow> originalToPrecision this Missing)"

section \<open>Printers of errors and regular expressions\<close>

text \<open>The two properties of an error, undefined or converted to a string.\<close>

definition errorToStringShim :: "(jsstr option \<times> jsstr option) option \<Rightarrow> jsstr res" where
  "errorToStringShim this =
     (case this of
        None \<Rightarrow> Inl TypeError
      | Some (name, message) \<Rightarrow>
          let name = (case name of None \<Rightarrow> lit ''Error'' | Some n \<Rightarrow> n);
              msg = (case message of None \<Rightarrow> [] | Some m \<Rightarrow> m)
          in Inr (if name = [] then msg else if msg = [] then name else name @ lit '': '' @ msg))"

definition ensureNonEnumerable :: "jsstr \<Rightarrow> 'v pobject \<Rightarrow> 'v pobject" where
  "ensureNonEnumerable name ob =
     (case props ob name of
        Some p \<Rightarrow> if enumerable p \<and> configurable p then ob\<lparr>props := (props ob)(name \<mapsto> p\<lparr>enumerable := False\<rparr>)\<rparr> else ob
      | None \<Rightarrow> ob)"

record regexp_object =
  source :: jsstr
  global_flag :: bool
  ignoreCase :: bool
  multiline :: bool

definition regexToString :: "regexp_object \<Rightarrow> jsstr" where
  "regexToString this =
     lit ''/'' @ source this @ lit ''/'' @ (if global_flag this then lit ''g'' else []) @
     (if ignoreCase this then lit ''i'' else []) @ (if multiline this then lit ''m'' else [])"

end
