(* ===== verification/ES5_String_Laws.thy ===== *)
theory ES5_String_Laws
  imports ES5_Strings
begin

text \<open>
  Correctness of the strings: \<open>trim\<close> removes white space at both ends, \<open>lastIndexOf\<close> finds an occurrence
  whenever there is one, and \<open>split\<close> with a regular expression refines the algorithm of the language.  Two
  of the theorems show inputs on which the replacements differ from the language.
\<close>

section \<open>Trim\<close>

definition is_ws :: "cu \<Rightarrow> bool" where "is_ws c \<longleftrightarrow> c \<in> set ws"

lemma in_ws_ranges: "in_ranges (map (\<lambda>c. (c, c)) ws) = is_ws"
  by (auto simp: fun_eq_iff in_ranges_def is_ws_def list_ex_iff)

lemma rm_ws: "rm wsRegexChars ml s k (i, c) = (if i < length s \<and> is_ws (s ! i) then k (Suc i, c) else None)"
  by (simp add: wsRegexChars_def in_ws_ranges)

lemma rm_ws_star: "rm (rstar wsRegexChars) ml s k (i, c) = find_map (\<lambda>j. k (i + j, c)) (rev [0..<Suc (length (takeWhile is_ws (drop i s)))])"
  unfolding wsRegexChars_def rm_greedy_set in_ws_ranges by simp

lemma find_map_rev_upt_Some: "k n = Some z \<Longrightarrow> find_map k (rev [0..<Suc n]) = Some z"
  by simp

lemma match_trimBegin:
  "match_at trimBeginRegexp False s i =
     (if i = 0 \<and> s \<noteq> [] \<and> is_ws (hd s) then Some (length (takeWhile is_ws s), [None]) else None)"
proof (cases "i = 0 \<and> s \<noteq> [] \<and> is_ws (hd s)")
  case True
  then obtain x xs where s: "s = x # xs" "is_ws x" by (cases s) auto
  with True show ?thesis
    by (simp add: match_at_def trimBeginRegexp_def no_caps_def at_bol_def rm_ws rm_ws_star wsRegexChars_def [THEN arg_cong [of _ _ groups]] del: rm.simps(5))
next
  case False
  then show ?thesis
    by (cases s) (auto simp: match_at_def trimBeginRegexp_def at_bol_def rm_ws simp del: rm.simps(5))
qed

lemma replace_trimBegin: "replace_first trimBeginRegexp s (\<lambda>_ _. []) = dropWhile is_ws s"
proof (cases "s \<noteq> [] \<and> is_ws (hd s)")
  case True
  then have "exec_from trimBeginRegexp False s 0 = Some (0, length (takeWhile is_ws s), [None])"
    by (intro exec_from_first) (auto simp: match_trimBegin)
  then show ?thesis by (simp add: replace_first_def dropWhile_eq_drop)
next
  case False
  then have "exec_from trimBeginRegexp False s 0 = None" by (auto simp: exec_from_None match_trimBegin)
  with False show ?thesis by (cases s) (auto simp: replace_first_def)
qed

lemma match_trimEnd:
  "i \<le> length s \<Longrightarrow> match_at trimEndRegexp False s i =
     (if i < length s \<and> list_all is_ws (drop i s) then Some (length s, [None]) else None)"
proof (cases "i < length s \<and> is_ws (s ! i)")
  case True
  let ?n = "length (takeWhile is_ws (drop (Suc i) s))"
  have d: "drop i s = s ! i # drop (Suc i) s" using True by (simp add: Cons_nth_drop_Suc)
  have m: "match_at trimEndRegexp False s i = find_map (\<lambda>j. if Suc (i + j) = length s then Some (Suc (i + j), [None]) else None) (rev [0..<Suc ?n])"
    using True by (simp add: match_at_def trimEndRegexp_def no_caps_def at_eol_False rm_ws rm_ws_star wsRegexChars_def [THEN arg_cong [of _ _ groups]] del: rm.simps(5) upt_Suc)
  show ?thesis
  proof (cases "list_all is_ws (drop (Suc i) s)")
    case all: True
    then have "?n = length s - Suc i" by (simp add: takeWhile_eq_all_conv [THEN iffD2] list_all_iff)
    then have "Suc (i + ?n) = length s" using True by arith
    then show ?thesis using True all d m by simp
  next
    case False
    then have "?n < length (drop (Suc i) s)"
      by (metis length_takeWhile_le list_all_iff nat_less_le takeWhile_eq_all_conv takeWhile_eq_take take_all order_refl)
    then have "\<forall>j \<in> set (rev [0..<Suc ?n]). Suc i + j \<noteq> length s" by auto
    then have "match_at trimEndRegexp False s i = None" unfolding m find_map_None by simp
    then show ?thesis using False d by simp
  qed
next
  case False
  assume "i \<le> length s"
  with False show ?thesis
    by (cases "i < length s") (auto simp: match_at_def trimEndRegexp_def rm_ws Cons_nth_drop_Suc [symmetric] simp del: rm.simps(5))
qed

lemma replace_trimEnd: "\<exists>w. s = replace_first trimEndRegexp s (\<lambda>_ _. []) @ w \<and> list_all is_ws w
    \<and> (replace_first trimEndRegexp s (\<lambda>_ _. []) = [] \<or> \<not> is_ws (last (replace_first trimEndRegexp s (\<lambda>_ _. []))))"
proof -
  define w where "w = rev (takeWhile is_ws (rev s))"
  define v where "v = rev (dropWhile is_ws (rev s))"
  have s: "s = v @ w" unfolding v_def w_def by (metis rev_append rev_rev_ident takeWhile_dropWhile_id)
  have w: "list_all is_ws w" unfolding w_def by (auto simp: list_all_iff dest: set_takeWhileD)
  have v: "v = [] \<or> \<not> is_ws (last v)" unfolding v_def by (metis hd_dropWhile last_rev rev_is_Nil_conv)
  have "replace_first trimEndRegexp s (\<lambda>_ _. []) = v"
  proof (cases "w = []")
    case True
    have "match_at trimEndRegexp False s i = None" if "i \<le> length s" for i
    proof (cases "i < length s")
      case lt: True
      then have "v \<noteq> []" "last v \<in> set (drop i s)" using s True last_in_set [of "drop i s"] by auto
      with v lt show ?thesis by (auto simp: match_trimEnd list_all_iff)
    qed (use that in \<open>simp add: match_trimEnd\<close>)
    then show ?thesis using s True by (simp add: replace_first_def exec_from_None [THEN iffD2])
  next
    case False
    have "exec_from trimEndRegexp False s 0 = Some (length v, length s, [None])"
    proof (rule exec_from_first)
      show "match_at trimEndRegexp False s (length v) = Some (length s, [None])"
        using s w False by (simp add: match_trimEnd)
      show "match_at trimEndRegexp False s j = None" if "j < length v" for j
      proof -
        have "last v \<in> set (drop j v)" using that last_in_set [of "drop j v"] by simp
        then have "last v \<in> set (drop j s)" by (simp add: s)
        moreover have "\<not> is_ws (last v)" using v that by auto
        ultimately show ?thesis using that s by (auto simp: match_trimEnd list_all_iff)
      qed
    qed (use s in auto)
    then show ?thesis using s by (simp add: replace_first_def)
  qed
  then show ?thesis using s w v by blast
qed

lemma dropWhile_append_ws: "dropWhile is_ws s = v @ w \<Longrightarrow> v \<noteq> [] \<Longrightarrow> \<not> is_ws (hd v)"
  by (metis append_is_Nil_conv hd_append2 hd_dropWhile)

text \<open>C27: \<open>trim\<close> removes white space at both ends and nothing else: what is left neither begins nor ends
  with white space.\<close>

theorem trim_strips:
  "\<exists>a b. s = a @ trim_string s @ b \<and> list_all is_ws a \<and> list_all is_ws b
     \<and> (trim_string s = [] \<or> \<not> is_ws (hd (trim_string s)) \<and> \<not> is_ws (last (trim_string s)))"
proof -
  obtain w where w: "dropWhile is_ws s = trim_string s @ w" "list_all is_ws w" "trim_string s = [] \<or> \<not> is_ws (last (trim_string s))"
    using replace_trimEnd [of "dropWhile is_ws s"] by (auto simp: trim_string_def replace_trimBegin)
  have "s = takeWhile is_ws s @ trim_string s @ w" using w(1) by (metis takeWhile_dropWhile_id)
  moreover have "list_all is_ws (takeWhile is_ws s)" by (auto simp: list_all_iff dest: set_takeWhileD)
  ultimately show ?thesis using w dropWhile_append_ws [OF w(1)] by blast
qed

section \<open>lastIndexOf\<close>

lemma prefix_at_slice:
  assumes "t \<noteq> []"
  shows "prefix_at (str_slice S (int k) (int (start + length t))) i t \<longleftrightarrow> prefix_at S (k + i) t \<and> k + i \<le> start"
proof -
  have eq: "take (length t) (drop i (take (start + length t - k) (drop k S))) = take (length t) (drop (k + i) S)" if "k + i \<le> start"
    using that by (simp add: drop_take add.commute)
  have t: "0 < length t" using assms by simp
  have len: "i + length t \<le> length (take (start + length t - k) (drop k S)) \<longleftrightarrow> k + i + length t \<le> length S \<and> k + i \<le> start"
    using t unfolding length_take length_drop by arith
  show ?thesis unfolding str_slice_nonneg prefix_at_def len using eq by auto
qed

lemma index_of_Some: "index_of s t = Some i \<Longrightarrow> prefix_at s i t \<and> (\<forall>j<i. \<not> prefix_at s j t)"
  by (auto simp: index_of_def find_Some_iff nth_upt simp del: upt_Suc)

lemma index_of_None: "index_of s t = None \<longleftrightarrow> (\<forall>i. \<not> prefix_at s i t)"
  by (force simp: index_of_def find_None_iff prefix_at_def)

lemma lastIndexOf_loop_correct:
  assumes "t \<noteq> []" "\<forall>q. k \<le> q \<and> q \<le> start \<longrightarrow> \<not> prefix_at S q t"
  shows "(if \<exists>q \<le> start. prefix_at S q t
          then \<exists>p \<le> start. lastIndexOf_loop S t start k = int p \<and> prefix_at S p t \<and> (\<forall>q. p + length t \<le> q \<and> q \<le> start \<longrightarrow> \<not> prefix_at S q t)
          else lastIndexOf_loop S t start k = -1)"
  using assms
proof (induction S t start k rule: lastIndexOf_loop.induct)
  case (1 S t start k)
  show ?case
  proof (cases "k > 0")
    case False
    then show ?thesis using "1.prems" by (auto simp: lastIndexOf_loop.simps)
  next
    case True
    define k' where "k' = k - length t"
    let ?sl = "str_slice S (int k') (int (start + length t))"
    have pre: "prefix_at ?sl i t \<longleftrightarrow> prefix_at S (k' + i) t \<and> k' + i \<le> start" for i
      by (rule prefix_at_slice) (rule "1.prems"(1))
    show ?thesis
    proof (cases "index_of ?sl t")
      case None
      then have none: "\<forall>q. k' \<le> q \<and> q \<le> start \<longrightarrow> \<not> prefix_at S q t"
        using pre by (metis index_of_None le_add_diff_inverse)
      have step: "lastIndexOf_loop S t start k = lastIndexOf_loop S t start k'"
        using None True by (subst lastIndexOf_loop.simps) (simp add: strIndexOf_def k'_def Let_def)
      show ?thesis unfolding step using "1.IH" [OF True refl refl _ "1.prems"(1) none [unfolded k'_def]] None by (simp add: k'_def strIndexOf_def)
    next
      case (Some i)
      then have i: "prefix_at S (k' + i) t" "k' + i \<le> start" using index_of_Some pre by blast+
      have "lastIndexOf_loop S t start k = int (k' + i)"
        using Some True by (subst lastIndexOf_loop.simps) (simp add: strIndexOf_def k'_def Let_def)
      moreover have "\<not> prefix_at S q t" if "k' + i + length t \<le> q" "q \<le> start" for q
        using "1.prems" that by (auto simp: k'_def)
      ultimately show ?thesis using i by (auto intro!: exI [of _ "k' + i"])
    qed
  qed
qed

text \<open>C26: \<open>lastIndexOf\<close> with a non-empty search string returns -1 exactly when the string does not occur at
  or before the start, and otherwise an occurrence; a later one can only overlap it, so it is the last
  one when no proper prefix of the search string is also a suffix of it.\<close>

theorem lastIndexOf_last:
  assumes "t \<noteq> []" "start = lastIndexOf_start pos (length S)"
  shows "\<exists>r. lastIndexOf_string (Some S) t pos = Inr r
    \<and> (r = -1 \<longleftrightarrow> (\<forall>q \<le> start. \<not> prefix_at S q t))
    \<and> (r \<noteq> -1 \<longrightarrow> 0 \<le> r \<and> nat r \<le> start \<and> prefix_at S (nat r) t \<and> (\<forall>q. prefix_at S q t \<and> q \<le> start \<longrightarrow> q < nat r + length t))
    \<and> (r \<noteq> -1 \<and> (\<forall>d. 0 < d \<and> d < length t \<longrightarrow> drop d t \<noteq> take (length t - d) t) \<longrightarrow> (\<forall>q. prefix_at S q t \<and> q \<le> start \<longrightarrow> q \<le> nat r))"
proof -
  define r where "r = lastIndexOf_loop S t start (start + length t)"
  have c: "if \<exists>q \<le> start. prefix_at S q t
          then \<exists>p \<le> start. r = int p \<and> prefix_at S p t \<and> (\<forall>q. p + length t \<le> q \<and> q \<le> start \<longrightarrow> \<not> prefix_at S q t)
          else r = -1"
    unfolding r_def
  proof (rule lastIndexOf_loop_correct [OF assms(1)])
    have "0 < length t" using assms(1) by simp
    then show "\<forall>q. start + length t \<le> q \<and> q \<le> start \<longrightarrow> \<not> prefix_at S q t" by linarith
  qed
  have border: "drop (q - p) t = take (length t - (q - p)) t" if "prefix_at S p t" "prefix_at S q t" "p \<le> q" "q < p + length t" for p q
  proof -
    have "drop (q - p) t = drop (q - p) (take (length t) (drop p S))" using that(1) by (simp add: prefix_at_def)
    also have "\<dots> = take (length t - (q - p)) (drop q S)" using that(3) by (simp add: drop_take)
    also have "\<dots> = take (length t - (q - p)) (take (length t) (drop q S))" by (simp add: min_def)
    also have "\<dots> = take (length t - (q - p)) t" using that(2) by (simp add: prefix_at_def)
    finally show ?thesis .
  qed
  have e: "lastIndexOf_string (Some S) t pos = Inr r" using assms(2) by (simp add: lastIndexOf_string_def r_def Let_def)
  show ?thesis
  proof (cases "\<exists>q \<le> start. prefix_at S q t")
    case True
    with c obtain p where p: "p \<le> start" "r = int p" "prefix_at S p t" "\<forall>q. p + length t \<le> q \<and> q \<le> start \<longrightarrow> \<not> prefix_at S q t" by auto
    have near: "q < p + length t" if "prefix_at S q t" "q \<le> start" for q using p(4) that by (meson not_le)
    have "q \<le> p" if "\<forall>d. 0 < d \<and> d < length t \<longrightarrow> drop d t \<noteq> take (length t - d) t" "prefix_at S q t" "q \<le> start" for q
    proof (rule ccontr)
      assume "\<not> q \<le> p"
      then have d: "0 < q - p \<and> q - p < length t" using near [OF that(2,3)] by arith
      have "drop (q - p) t = take (length t - (q - p)) t" using border [OF p(3) that(2)] near [OF that(2,3)] \<open>\<not> q \<le> p\<close> by simp
      with that(1) d show False by blast
    qed
    with e p True near show ?thesis by auto
  next
    case False
    with c e show ?thesis by auto
  qed
qed

theorem lastIndexOf_last_witness:
  "\<exists>r. lastIndexOf_string (Some (lit ''abcabc'')) (lit ''abc'') None = Inr r \<and> r \<noteq> -1 \<and> prefix_at (lit ''abcabc'') (nat r) (lit ''abc'')"
proof -
  have "lit ''abc'' \<noteq> []" "6 = lastIndexOf_start None (length (lit ''abcabc''))" "prefix_at (lit ''abcabc'') 3 (lit ''abc'')" by code_simp+
  from lastIndexOf_last [OF this(1,2)] this(3) show ?thesis by (auto simp del: lit_Cons intro: exI [of _ 3])
qed

text \<open>With a search string that overlaps itself the last occurrence can be missed, and an empty search
  string is not found at the beginning of the string.\<close>

theorem lastIndexOf_overlap:
  "lastIndexOf_string (Some (lit ''aaab'')) (lit ''aa'') None = Inr 0 \<and> prefix_at (lit ''aaab'') 1 (lit ''aa'')
   \<and> lastIndexOf_string (Some []) [] None = Inr (-1)"
  by code_simp

section \<open>Split\<close>

text \<open>Steps of the algorithm without a match.\<close>

lemma split_spec_skip:
  assumes "\<And>j. q \<le> j \<Longrightarrow> j < i \<Longrightarrow> match_at r ml s j = None" "q \<le> i" "i \<le> length s"
  shows "split_spec r ml s p q = split_spec r ml s p i"
  using assms
proof (induction "i - q" arbitrary: q)
  case (Suc n)
  have q: "q < i" using Suc.hyps(2) by linarith
  have "match_at r ml s q = None" using q by (intro Suc.prems(1)) simp_all
  moreover have "\<not> length s \<le> q" using q Suc.prems(3) by linarith
  ultimately have "split_spec r ml s p q = split_spec r ml s p (Suc q)" by (subst split_spec.simps) simp
  also have "\<dots> = split_spec r ml s p i" using Suc by (intro Suc.hyps(1)) auto
  finally show ?case .
qed simp

lemma split_spec_end: "length s \<le> q \<Longrightarrow> split_spec r ml s p q = [Some (drop p s)]"
  by (subst split_spec.simps) simp

lemma split_spec_hit:
  "i < length s \<Longrightarrow> match_at r ml s i = Some (j, c) \<Longrightarrow> p < j \<Longrightarrow>
     split_spec r ml s p i = Some (take (i - p) (drop p s)) # tl c @ split_spec r ml s j (if j = i then Suc j else j)"
proof -
  assume a: "i < length s" "match_at r ml s i = Some (j, c)" "p < j"
  have "split_spec r ml s j j = split_spec r ml s j (Suc j)" if "j = i"
    using a that by (subst split_spec.simps) simp
  with a show ?thesis by (subst split_spec.simps) auto
qed

lemma split_spec_empty_hit:
  "i < length s \<Longrightarrow> match_at r ml s i = Some (i, c) \<Longrightarrow> split_spec r ml s i i = split_spec r ml s i (Suc i)"
  by (subst split_spec.simps) simp

definition split_finish :: "re \<Rightarrow> bool \<Rightarrow> jsstr \<Rightarrow> nat \<times> nat \<times> nat \<times> jsstr option list \<Rightarrow> jsstr option list" where
  "split_finish r ml s res =
     (case res of (lastIndex, lastLastIndex, lastLength, output) \<Rightarrow>
        if lastLastIndex = length s
        then if lastLength \<noteq> 0 \<or> exec_from r ml [] lastIndex = None then output @ [Some []] else output
        else output @ [Some (str_slice_from s (int lastLastIndex))])"

lemma split_regex_finish:
  "split_regex None r ml l s = take l (split_finish r ml s (split_loop None r ml s l 0 0 0 []))"
  by (simp add: split_regex_def split_finish_def Let_def split: prod.split)

lemma take_finish: "l \<le> length out \<Longrightarrow> take l (split_finish r ml s (a, b, c, out)) = take l out"
  by (simp add: split_finish_def)

lemma str_slice_from_nat: "str_slice_from s (int p) = drop p s"
  by (auto simp: str_slice_from_def clamp_index_def min_def)

lemma caps_tl: "match_at r ml s i = Some (j, c) \<Longrightarrow> i \<le> length s \<Longrightarrow> (if length c > 1 then tl c else []) = tl c"
  using match_at_bounds [of r ml s i j c] by (cases c) (auto simp: no_caps_def)

lemma split_loop_miss:
  assumes "exec_from r ml s q = None" "p \<le> length s" "ll = 0 \<longrightarrow> p < length s" "p \<le> q"
  shows "split_finish r ml s (split_loop None r ml s l q p ll out) = out @ split_spec r ml s p q"
proof -
  have "split_spec r ml s p q = [Some (drop p s)]"
  proof (cases "q \<le> length s")
    case True
    have "split_spec r ml s p q = split_spec r ml s p (length s)"
      using assms(1) True by (intro split_spec_skip) (auto simp: exec_from_None)
    then show ?thesis by (simp add: split_spec_end)
  qed (simp add: split_spec_end)
  then show ?thesis
    using assms by (subst split_loop.simps) (auto simp: split_finish_def str_slice_from_nat)
qed

lemma split_loop_correct:
  assumes "s \<noteq> []" "match_at r ml s (length s) \<noteq> None \<longrightarrow> match_at r ml [] 0 \<noteq> None"
    and "p \<le> q" "p \<le> length s" "ll = 0 \<longrightarrow> p < length s"
  shows "take l (split_finish r ml s (split_loop None r ml s l q p ll out)) = take l (out @ split_spec r ml s p q)"
  using assms(3-5)
proof (induction "Suc (length s) - q" arbitrary: q p ll out rule: less_induct)
  case less
  show ?case
  proof (cases "exec_from r ml s q")
    case None
    then show ?thesis using split_loop_miss [OF None] less.prems by simp
  next
    case (Some t)
    then obtain i j c where e: "exec_from r ml s q = Some (i, j, c)" by (cases t) auto
    from exec_from_bounds [OF e] have b: "q \<le> i" "i \<le> j" "j \<le> length s" "match_at r ml s i = Some (j, c)" by auto
    have skip: "split_spec r ml s p q = split_spec r ml s p i"
    proof (rule split_spec_skip)
      show "match_at r ml s k = None" if "q \<le> k" "k < i" for k
        using e that by (intro search_from_leftmost [of _ r ml s q i "(j, c)" k]) (auto simp: exec_from_def)
    qed (use b in auto)
    define nx where "nx = (if j = i then Suc j else j)"
    have nx: "Suc (length s) - nx < Suc (length s) - q" "j \<le> nx" using b by (auto simp: nx_def)
    define out' where "out' = out @ [Some (str_slice s (int p) (int i))] @ (if i < length s then tl c else [])"
    have step: "split_loop None r ml s l q p ll out =
        (if j > p then if l \<le> length out' then (j, j, j - i, out') else split_loop None r ml s l nx j (j - i) out'
         else split_loop None r ml s l nx p ll out)"
      using caps_tl [OF b(4)] b by (subst split_loop.simps) (auto simp: e out'_def nx_def Let_def npcg_fix_def reported_def)
    consider "j > p" "i < length s" | "j > p" "i = length s" | "j = p" "i = p" "q = p" using b less.prems by linarith
    then show ?thesis
    proof cases
      case 1
      have "out @ split_spec r ml s p i = out' @ split_spec r ml s j nx"
        using split_spec_hit [OF 1(2) b(4) 1(1)] 1 by (simp add: out'_def nx_def str_slice_nonneg)
      moreover have "take l (split_finish r ml s (split_loop None r ml s l nx j (j - i) out')) = take l (out' @ split_spec r ml s j nx)"
        by (rule less.hyps [OF nx]) (use 1 b in auto)
      ultimately show ?thesis using 1(1) by (simp add: step skip take_finish)
    next
      case 2
      have j: "j = length s" using 2 b by simp
      have o': "out @ split_spec r ml s p i = out'" using 2 by (simp add: out'_def split_spec_end str_slice_nonneg)
      have "exec_from r ml [] 0 \<noteq> None" using assms(2) b 2 j by (simp add: exec_from_None)
      moreover have "exec_from r ml s nx = None" using 2 j by (simp add: nx_def exec_from_def)
      then have "split_loop None r ml s l nx j (j - i) out' = (0, j, 0, out')" using 2 j by (subst split_loop.simps) simp
      ultimately show ?thesis using 2 j o' by (auto simp: step skip take_finish) (simp add: split_finish_def)
    next
      case 3
      have "split_spec r ml s p q = split_spec r ml s p nx"
      proof (cases "p < length s")
        case True
        then show ?thesis using split_spec_empty_hit [OF True] b 3 by (simp add: nx_def)
      next
        case False
        then show ?thesis using 3 by (simp add: nx_def split_spec_end)
      qed
      moreover have "take l (split_finish r ml s (split_loop None r ml s l nx p ll out)) = take l (out @ split_spec r ml s p nx)"
        by (rule less.hyps [OF nx(1)]) (use 3 less.prems nx in auto)
      moreover have "split_loop None r ml s l q p ll out = split_loop None r ml s l nx p ll out" unfolding step using 3 by simp
      ultimately show ?thesis by simp
    qed
  qed
qed

text \<open>C10: on engines whose \<open>exec\<close> reports groups that took no part as undefined, so that the groups need no
  repair, the replacement of \<open>split\<close> with a regular expression computes what the language prescribes, cut at
  the limit, on every string at whose end the separator does not match the empty string, unless it
  matches the empty string as such.\<close>

theorem split_regex_standard:
  assumes "match_at r ml s (length s) \<noteq> None \<longrightarrow> match_at r ml [] 0 \<noteq> None"
  shows "split_regex None r ml limit s = take limit (split_standard r ml s)"
proof (cases "s = []")
  case True
  have "split_loop None r ml [] limit 0 0 0 [] = (0, 0, 0, [])"
  proof (cases "exec_from r ml [] 0")
    case (Some t)
    then obtain i j c where e: "exec_from r ml [] 0 = Some (i, j, c)" by (cases t) auto
    with exec_from_bounds [OF e] have "i = 0" "j = 0" by auto
    moreover have "exec_from r ml [] (Suc 0) = None" by (simp add: exec_from_def)
    then have "split_loop None r ml [] limit (Suc 0) 0 0 [] = (0, 0, 0, [])" by (subst split_loop.simps) simp
    ultimately show ?thesis using e by (subst split_loop.simps) (simp add: Let_def)
  qed (subst split_loop.simps, simp)
  moreover have "exec_from r ml [] 0 = None \<longleftrightarrow> match_at r ml [] 0 = None" by (simp add: exec_from_None)
  ultimately show ?thesis using True by (simp add: split_regex_finish split_finish_def split_standard_def)
next
  case False
  then show ?thesis using split_loop_correct [OF False assms, of 0 0 0 limit "[]"] by (simp add: split_regex_finish split_standard_def)
qed

theorem split_regex_standard_witness:
  "split_regex None (rstar (RGroup 1 (rchr CHR ''s''))) False 10 (lit ''tesst'') = [Some (lit ''t''), None, Some (lit ''e''), Some (lit ''s''), Some (lit ''t'')]"
proof -
  have "match_at (rstar (RGroup 1 (rchr CHR ''s''))) False [] 0 \<noteq> None" by code_simp
  then have "split_regex None (rstar (RGroup 1 (rchr CHR ''s''))) False 10 (lit ''tesst'') = take 10 (split_standard (rstar (RGroup 1 (rchr CHR ''s''))) False (lit ''tesst''))"
    by (intro split_regex_standard) blast
  also have "\<dots> = [Some (lit ''t''), None, Some (lit ''e''), Some (lit ''s''), Some (lit ''t'')]" by code_simp
  finally show ?thesis .
qed

text \<open>Without that condition an empty string is added at the end.\<close>

theorem split_word_boundary:
  "split_regex None (RWordB True) False 10 (lit ''ab'') = [Some (lit ''ab''), Some []]
   \<and> split_standard (RWordB True) False (lit ''ab'') = [Some (lit ''ab'')]"
  by code_simp

end
