(* ===== verification/ES5_Tests.thy ===== *)
theory ES5_Tests
  imports ES5_Array_Laws ES5_String_Laws ES5_Number_Laws ES5_Date
begin

text \<open>
  How es5-shim.js decides what to install: tests that run the methods of the engine on examples.  A native
  method is a function or missing; a test is a function of it.  Each replacement passes the tests that decide
  about it, so what is installed passes them on every engine, and an engine that passes keeps its methods.
\<close>

section \<open>Installing\<close>

text \<open>\<open>defineProperties(proto, {name: shim}, forced)\<close> for a method with the native implementation \<open>native\<close>; the
  evaluation of \<open>forced\<close> may throw, and nothing is installed then.\<close>

definition install :: "'f option \<Rightarrow> bool res \<Rightarrow> 'f \<Rightarrow> 'f res" where
  "install native forced shim =
     bindR forced (\<lambda>b. Inr (case native of None \<Rightarrow> shim | Some f \<Rightarrow> if b then shim else f))"

lemma install_defineProperty:
  assumes "props ob name = map_option (\<lambda>f. \<lparr>pvalue = f, enumerable = e, writable = True, configurable = True\<rparr>) native" "name \<notin> inherits ob"
  shows "\<exists>ob'. defineProperty sd b name shim ob = Inr ob' \<and> install native (Inr b) shim = Inr (pvalue (the (props ob' name)))"
  using assms by (cases native) (auto simp: defineProperty_def has_property_def native_define_def assign_def install_def)

text \<open>The test once more, on what it made the code install.\<close>

definition retest :: "('f option \<Rightarrow> bool res) \<Rightarrow> 'f \<Rightarrow> 'f option \<Rightarrow> bool res" where
  "retest bug shim native = bindR (install native (bug native) shim) (\<lambda>f. bug (Some f))"

locale self_tested =
  fixes bug :: "'f option \<Rightarrow> bool res" and shim :: 'f
  assumes shim_passes: "bug (Some shim) = Inr False"
begin

lemma retested: "retest bug shim native = bindR (bug native) (\<lambda>_. Inr False)"
proof (cases "bug native")
  case (Inr b)
  then show ?thesis by (cases native; cases b) (simp_all add: retest_def install_def shim_passes)
qed (simp add: retest_def install_def)

lemma standard_kept: "bug (Some f) = Inr False \<Longrightarrow> install (Some f) (bug (Some f)) shim = Inr f"
  by (simp add: install_def)

end

text \<open>A disjunction, a test that is not run when the method is missing, and one that throws then.\<close>

definition or_else :: "bool res \<Rightarrow> bool res \<Rightarrow> bool res" where
  "or_else a b = bindR a (\<lambda>x. if x then Inr True else b)"

definition if_present :: "('f \<Rightarrow> bool res) \<Rightarrow> 'f option \<Rightarrow> bool res" where
  "if_present t native = (case native of None \<Rightarrow> Inr False | Some f \<Rightarrow> t f)"

definition required :: "('f \<Rightarrow> bool res) \<Rightarrow> 'f option \<Rightarrow> bool res" where
  "required t native = (case native of None \<Rightarrow> Inl TypeError | Some f \<Rightarrow> t f)"

definition differs :: "'a res \<Rightarrow> 'a \<Rightarrow> bool res" where
  "differs r x = bindR r (\<lambda>y. Inr (y \<noteq> x))"

lemma test_simps [simp]:
  "if_present t (Some f) = t f" "if_present t None = Inr False" "required t (Some f) = t f"
  "or_else (Inr False) b = b" "or_else (Inr True) b = Inr True" "differs (Inr y) x = Inr (y \<noteq> x)"
  by (simp_all add: if_present_def required_def or_else_def differs_def)

section \<open>Numbers\<close>

definition hasToFixedBugs :: "(jsnum \<Rightarrow> nat \<Rightarrow> jsstr res) option \<Rightarrow> bool res" where
  "hasToFixedBugs =
     if_present (\<lambda>toFixed.
       or_else (differs (toFixed (fl (8 / 100000)) 3) (lit ''0.000''))
       (or_else (differs (toFixed (fl (9 / 10)) 0) (lit ''1''))
       (or_else (differs (toFixed (fl (1255 / 1000)) 2) (lit ''1.25''))
         (differs (toFixed (fl 1000000000000000128) 0) (lit ''1000000000000000128'')))))"

text \<open>\<open>1.0.toPrecision(undefined) === '1'\<close>, and true when the call throws.\<close>

definition hasToPrecisionUndefinedBug :: "(jsnum \<Rightarrow> nat argument \<Rightarrow> jsstr res) option \<Rightarrow> bool res" where
  "hasToPrecisionUndefinedBug native =
     Inr (case native of
            None \<Rightarrow> True
          | Some toPrecision \<Rightarrow> (case toPrecision (Fin 1) (Given None) of Inl _ \<Rightarrow> True | Inr s \<Rightarrow> s = lit ''1''))"

definition parseInt_bug :: "(jsstr \<Rightarrow> jsnum \<Rightarrow> jsnum) option \<Rightarrow> bool res" where
  "parseInt_bug =
     required (\<lambda>parseInt. Inr (parseInt (ws @ lit ''08'') NaN \<noteq> Fin 8 \<or> parseInt (ws @ lit ''0x16'') NaN \<noteq> Fin 22))"

definition parseFloat_bug :: "(jsstr \<Rightarrow> signed_num) option \<Rightarrow> bool res" where
  "parseFloat_bug = required (\<lambda>parseFloat. Inr (parseFloat (lit ''-0'') \<noteq> MinusZero))"

section \<open>Arrays\<close>

definition empty_object :: "'v obj" where
  "empty_object = \<lparr>is_array = False, own = Map.empty, inherited = Map.empty, olen = NaN\<rparr>"

text \<open>\<open>push\<close> of \<open>undefined\<close>, to an object and to an array.\<close>

definition push_loses :: "'v obj \<Rightarrow> 'v \<Rightarrow> ('v list \<Rightarrow> 'v obj \<Rightarrow> nat res \<times> 'v obj) option \<Rightarrow> bool res" where
  "push_loses ob undef =
     required (\<lambda>push. case push [undef] ob of
         (Inl e, _) \<Rightarrow> Inl e
       | (Inr result, ob') \<Rightarrow>
           Inr (result \<noteq> 1 \<or> olen ob' \<noteq> Fin 1 \<or> get_prop ob' 0 \<noteq> None \<and> get_prop ob' 0 \<noteq> Some undef \<or> own ob' 0 = None))"

definition pushIsNotGeneric :: "'v \<Rightarrow> ('v list \<Rightarrow> 'v obj \<Rightarrow> nat res \<times> 'v obj) option \<Rightarrow> bool res" where
  "pushIsNotGeneric = push_loses empty_object"

definition pushUndefinedIsWeird :: "'v \<Rightarrow> ('v list \<Rightarrow> 'v obj \<Rightarrow> nat res \<times> 'v obj) option \<Rightarrow> bool res" where
  "pushUndefinedIsWeird = push_loses empty_array"

definition hasUnshiftReturnValueBug :: "(int list \<Rightarrow> int obj \<Rightarrow> jsnum res \<times> int obj) option \<Rightarrow> bool res" where
  "hasUnshiftReturnValueBug = required (\<lambda>unshift. differs (fst (unshift [0] empty_array)) (Fin 1))"

definition hasFirefox2IndexOfBug :: "(int obj \<Rightarrow> int \<Rightarrow> jsnum option \<Rightarrow> int) option \<Rightarrow> bool res" where
  "hasFirefox2IndexOfBug = if_present (\<lambda>indexOf. Inr (indexOf (array_of [0, 1]) 1 (Some (Fin 2)) \<noteq> -1))"

definition hasFirefox2LastIndexOfBug :: "(int obj \<Rightarrow> int \<Rightarrow> jsnum option \<Rightarrow> int) option \<Rightarrow> bool res" where
  "hasFirefox2LastIndexOfBug = if_present (\<lambda>lastIndexOf. Inr (lastIndexOf (array_of [0, 1]) 0 (Some (Fin (-3))) \<noteq> -1))"

definition hasJoinUndefinedBug :: "(int obj \<Rightarrow> jsstr option \<Rightarrow> jsstr) option \<Rightarrow> bool res" where
  "hasJoinUndefinedBug = required (\<lambda>join. Inr (join (array_of [1, 2]) None \<noteq> lit ''1,2''))"

text \<open>The tests of \<open>sort\<close> catch what it throws.\<close>

definition throws :: "'a res \<Rightarrow> bool" where
  "throws r = (case r of Inl _ \<Rightarrow> True | Inr _ \<Rightarrow> False)"

definition sort_bug :: "(int obj \<Rightarrow> 'c compare_arg \<Rightarrow> int obj res) option \<Rightarrow> bool res" where
  "sort_bug native =
     Inr (case native of
            None \<Rightarrow> True
          | Some native_sort \<Rightarrow>
              let call = (\<lambda>arg. throws (native_sort (array_of [1, 2]) arg));
                  sortIgnoresNonFunctions = (\<not> call (NotCallable not_callable.Null) \<and> \<not> call (NotCallable not_callable.Plain));
                  sortThrowsOnRegex = call (NotCallable not_callable.Expression);
                  sortIgnoresUndefined = (\<not> call compare_arg.Undefined)
              in sortIgnoresNonFunctions \<or> \<not> sortIgnoresUndefined \<or> \<not> sortThrowsOnRegex)"

text \<open>The tests of \<open>splice\<close> on arrays with holes; the first one uses the \<open>indexOf\<close> that was installed.\<close>

definition spliceWorksWithLargeSparseArrays :: "(jsstr obj \<Rightarrow> jsstr \<Rightarrow> jsnum option \<Rightarrow> int) \<Rightarrow> jsstr nsplice \<Rightarrow> bool res" where
  "spliceWorksWithLargeSparseArrays indexOf array_splice =
     (let arr = set_prop 8 (lit ''x'') (empty_array\<lparr>olen := Fin (10 ^ 5)\<rparr>)
      in case array_splice (Fin 1) (Fin 1) [] arr of (Inl e, _) \<Rightarrow> Inl e | (Inr _, arr) \<Rightarrow> Inr (indexOf arr (lit ''x'') None = 7))"

definition spliceWorksWithSmallSparseArrays :: "jsstr nsplice \<Rightarrow> bool res" where
  "spliceWorksWithSmallSparseArrays array_splice =
     (let n = 256; arr = set_prop n (lit ''a'') empty_array
      in case array_splice (Fin (of_nat (n + 1))) (Fin 0) [lit ''b''] arr of (Inl e, _) \<Rightarrow> Inl e | (Inr _, arr) \<Rightarrow> Inr (get_prop arr n = Some (lit ''a'')))"

definition splice_sparse_bug :: "(jsstr obj \<Rightarrow> jsstr \<Rightarrow> jsnum option \<Rightarrow> int) \<Rightarrow> jsstr nsplice option \<Rightarrow> bool res" where
  "splice_sparse_bug indexOf =
     required (\<lambda>array_splice. bindR (spliceWorksWithLargeSparseArrays indexOf array_splice) (\<lambda>l.
       bindR (spliceWorksWithSmallSparseArrays array_splice) (\<lambda>s. Inr (\<not> l \<or> \<not> s))))"

section \<open>Strings\<close>

text \<open>The conditions for the first branch; \<open>split\<close> gets the source of a pattern.  A condition is true when the
  length is not zero.\<close>

definition split_bugs :: "(jsstr \<Rightarrow> jsstr \<Rightarrow> jsnum option \<Rightarrow> jsstr option list res) option \<Rightarrow> bool res" where
  "split_bugs =
     required (\<lambda>split.
       or_else (bindR (split (lit ''ab'') (pat ''(?:ab)*'') None) (\<lambda>xs. Inr (length xs \<noteq> 2)))
       (or_else (bindR (split (lit ''.'') (pat ''(.?)(.?)'') None) (\<lambda>xs. Inr (length xs \<noteq> 4)))
       (or_else (bindR (split (lit ''tesst'') (pat ''(s)*'') None) (\<lambda>xs. Inr (length xs > 1 \<and> xs ! 1 = Some (lit ''t''))))
       (or_else (bindR (split (lit ''test'') (pat ''(?:)'') (Some (Fin (-1)))) (\<lambda>xs. Inr (length xs \<noteq> 4)))
       (or_else (bindR (split [] (pat ''.?'') None) (\<lambda>xs. Inr (length xs \<noteq> 0)))
         (bindR (split (lit ''.'') (pat ''()()'') None) (\<lambda>xs. Inr (length xs > 1))))))))"

text \<open>The replacement that the first branch installs, on a separator with this source and no flags.\<close>

definition split_source :: "bool \<Rightarrow> (jsstr \<Rightarrow> separator \<Rightarrow> jsnum option \<Rightarrow> jsstr option list) \<Rightarrow> jsstr \<Rightarrow> jsstr \<Rightarrow> jsnum option \<Rightarrow>
    jsstr option list res" where
  "split_source compliant native s src limit =
     (case parse_re src of
        None \<Rightarrow> Inl (JSError (lit ''SyntaxError''))
      | Some r \<Rightarrow> split_es5 compliant native s (Regex src r False) limit)"

definition hasNegativeSubstrBug :: "(jsstr \<Rightarrow> int \<Rightarrow> int option \<Rightarrow> jsstr) option \<Rightarrow> bool res" where
  "hasNegativeSubstrBug = if_present (\<lambda>substr. Inr (substr (lit ''0b'') (-1) None \<noteq> lit ''b''))"

definition zeroWidth :: jsstr where
  "zeroWidth = [8203]"

definition hasTrimWhitespaceBug :: "(jsstr option \<Rightarrow> jsstr res) option \<Rightarrow> bool res" where
  "hasTrimWhitespaceBug = if_present (\<lambda>trim. or_else (differs (trim (Some ws)) []) (bindR (trim (Some zeroWidth)) (\<lambda>t. Inr (t = []))))"

definition hasLastIndexBug :: "(jsstr option \<Rightarrow> jsstr \<Rightarrow> jsnum option \<Rightarrow> int res) option \<Rightarrow> bool res" where
  "hasLastIndexBug = if_present (\<lambda>lastIndexOf. differs (lastIndexOf (Some (lit ''abc'' @ [12354, 12356])) [12354, 12356] (Some (Fin 2))) (-1))"

definition error_text_bug :: "((jsstr option \<times> jsstr option) option \<Rightarrow> jsstr res) option \<Rightarrow> bool res" where
  "error_text_bug = required (\<lambda>text_of. differs (text_of (Some (Some (lit ''RangeError''), Some (lit ''test'')))) (lit ''RangeError: test''))"

definition regexp_text_bug :: "(regexp_object \<Rightarrow> jsstr) option \<Rightarrow> bool res" where
  "regexp_text_bug =
     required (\<lambda>text_of. Inr (text_of \<lparr>source = lit ''a'', global_flag = True, ignoreCase = True, multiline = True\<rparr> \<noteq> lit ''/a/gim''))"

section \<open>Object.keys\<close>

text \<open>The tests run \<open>Object.keys\<close> on the \<open>arguments\<close> of a call with two arguments and of one with one; the last
  condition compares a name with the number 1.\<close>

definition keysWorksWithArguments :: "'o \<Rightarrow> ('o \<Rightarrow> jsstr list res) \<Rightarrow> bool res" where
  "keysWorksWithArguments arguments2 keys = bindR (keys arguments2) (\<lambda>ks. Inr (length ks = 2))"

definition keysHasArgumentsLengthBug :: "'o \<Rightarrow> ('o \<Rightarrow> jsstr list res) \<Rightarrow> bool res" where
  "keysHasArgumentsLengthBug arguments1 keys =
     bindR (keys arguments1) (\<lambda>argKeys. Inr (length argKeys \<noteq> 1 \<or> PStr (argKeys ! 0) \<noteq> PNum (Fin 1)))"

definition keys_bug :: "'o \<Rightarrow> 'o \<Rightarrow> ('o \<Rightarrow> jsstr list res) option \<Rightarrow> bool res" where
  "keys_bug arguments2 arguments1 =
     required (\<lambda>keys. bindR (keysWorksWithArguments arguments2 keys) (\<lambda>works.
       bindR (keysHasArgumentsLengthBug arguments1 keys) (\<lambda>bug. Inr (\<not> works \<or> bug))))"

section \<open>Dates\<close>

definition aNegativeTestDate :: int where
  "aNegativeTestDate = -1509842289600292"

text \<open>The test of the getters, whose outcome also decides about the printers.\<close>

definition hasNegativeMonthYearBug :: "(int \<Rightarrow> int) option \<Rightarrow> bool res" where
  "hasNegativeMonthYearBug = required (\<lambda>getUTCMonth. Inr (getUTCMonth (-3509827329600292) \<noteq> 0))"

definition hasToUTCStringFormatBug :: "(int \<Rightarrow> jsstr res) option \<Rightarrow> bool res" where
  "hasToUTCStringFormatBug = required (\<lambda>toUTCString. differs (toUTCString aNegativeTestDate) (lit ''Mon, 01 Jan -45875 11:59:59 GMT''))"

text \<open>\<open>toUTCString\<close> is installed for either reason.\<close>

definition toUTCString_bug :: "(int \<Rightarrow> int) option \<Rightarrow> (int \<Rightarrow> jsstr res) option \<Rightarrow> bool res" where
  "toUTCString_bug native_month native =
     bindR (hasNegativeMonthYearBug native_month) (\<lambda>a. bindR (hasToUTCStringFormatBug native) (\<lambda>b. Inr (a \<or> b)))"

definition hasToDateStringFormatBug :: "int \<Rightarrow> (int \<Rightarrow> jsstr res) option \<Rightarrow> bool res" where
  "hasToDateStringFormatBug timeZoneOffset =
     required (\<lambda>toDateString. differs (toDateString aNegativeTestDate)
       (if timeZoneOffset < -720 then lit ''Tue Jan 02 -45875'' else lit ''Mon Jan 01 -45875''))"

definition negativeDate :: int where
  "negativeDate = -62198755200000"

definition hasNegativeDateBug :: "(int \<Rightarrow> jsstr res) option \<Rightarrow> bool res" where
  "hasNegativeDateBug = if_present (\<lambda>toISOString. bindR (toISOString negativeDate) (\<lambda>s. Inr (\<not> contains s (lit ''-000001''))))"

definition hasSafari51DateBug :: "(int \<Rightarrow> jsstr res) option \<Rightarrow> bool res" where
  "hasSafari51DateBug = if_present (\<lambda>toISOString. differs (toISOString (-1)) (lit ''1969-12-31T23:59:59.999Z''))"

text \<open>Both are computed before the method is installed.\<close>

definition toISOString_bug :: "(int \<Rightarrow> jsstr res) option \<Rightarrow> bool res" where
  "toISOString_bug native = bindR (hasNegativeDateBug native) (\<lambda>a. bindR (hasSafari51DateBug native) (\<lambda>b. Inr (a \<or> b)))"

text \<open>A date as an object with a time value, and an object that has no method but \<open>toISOString\<close>, which returns
  true; \<open>toJSON\<close> passes on what that method returns.\<close>

definition date_object :: "jsnum \<Rightarrow> prim jsval" where
  "date_object t = Obj (Some (Inr (Some (PNum t)))) None"

definition generic_object :: "prim jsval" where
  "generic_object = Obj (Some (Inr None)) (Some (Inr (Some (PStr (lit ''[object Object]'')))))"

definition dateToJSONIsSupported :: "(prim jsval \<Rightarrow> jsstr res option \<Rightarrow> jsstr option res) option \<Rightarrow> bool" where
  "dateToJSONIsSupported native =
     (case native of
        None \<Rightarrow> False
      | Some to_json \<Rightarrow>
          to_json (date_object NaN) (Some (Inl RangeError)) = Inr None \<and>
          (case to_json (date_object (Fin (of_int negativeDate))) (Some (toISOString utc_fields (Some negativeDate))) of
             Inr (Some s) \<Rightarrow> contains s (lit ''-000001'')
           | _ \<Rightarrow> False) \<and>
          (case to_json generic_object (Some (Inr (lit ''true''))) of Inr (Some s) \<Rightarrow> s \<noteq> [] | _ \<Rightarrow> False))"

definition toJSON_bug :: "(prim jsval \<Rightarrow> jsstr res option \<Rightarrow> jsstr option res) option \<Rightarrow> bool res" where
  "toJSON_bug native = Inr (\<not> dateToJSONIsSupported native)"

definition supportsExtendedYears :: "(jsstr \<Rightarrow> int option) \<Rightarrow> bool" where
  "supportsExtendedYears parse \<longleftrightarrow> parse (lit ''+033658-09-27T01:46:40.000Z'') = Some (10 ^ 15)"

definition acceptsInvalidDates :: "(jsstr \<Rightarrow> int option) \<Rightarrow> bool" where
  "acceptsInvalidDates parse \<longleftrightarrow>
     parse (lit ''2012-04-04T24:00:00.500Z'') \<noteq> None \<or> parse (lit ''2012-11-31T23:59:59.000Z'') \<noteq> None \<or> parse (lit ''2012-12-31T23:59:60.000Z'') \<noteq> None"

definition doesNotParseY2KNewYear :: "(jsstr \<Rightarrow> int option) \<Rightarrow> bool" where
  "doesNotParseY2KNewYear parse \<longleftrightarrow> parse (lit ''2000-01-01T00:00:00.000Z'') = None"

definition parse_bug :: "(jsstr \<Rightarrow> int option) option \<Rightarrow> bool res" where
  "parse_bug = required (\<lambda>parse. Inr (doesNotParseY2KNewYear parse \<or> acceptsInvalidDates parse \<or> \<not> supportsExtendedYears parse))"

end
