(* ===== verification/ES5_Tests_Laws.thy ===== *)
theory ES5_Tests_Laws
  imports ES5_Tests ES5_Date_Laws
begin

text \<open>
  Each replacement of es5-shim.js passes the tests that decide about it (the locale \<open>self_tested\<close>), so that
  whatever is installed passes them; and the tests that misjudge engines.
\<close>

section \<open>The replacements pass\<close>

definition toFixed_on :: "(jsnum \<Rightarrow> jsstr) \<Rightarrow> rat list \<Rightarrow> jsnum \<Rightarrow> nat \<Rightarrow> jsstr res" where
  "toFixed_on num_text data x digits = fst (toFixedShim num_text (Fin (of_nat digits)) x data)"

text \<open>The value of a literal: a number \<open>N\<close> of units in the last place.\<close>

lemma literal_value:
  fixes x :: rat
  assumes "2 powi (e + 52) \<le> x" "x < 2 powi (e + 53)" "-1000 \<le> e" "e \<le> 900" "\<bar>x / 2 powi e - of_int N\<bar> < 1 / 2" "0 \<le> N" "N < 2 ^ 53"
  shows "fl x = Fin (of_int N * 2 powi e) \<and> representable (of_int N * 2 powi e)"
proof -
  have pos: "0 < x" using assms(1) by (meson less_le_trans zero_less_power_int zero_less_numeral)
  have "fl x = Fin (rfl x)" using fl_error [of x "e + 53"] assms pos by simp
  moreover have n: "rfl x = of_int N * 2 powi e" using fl_near [OF assms(1,2) _ assms(4,5)] assms(3) by simp
  moreover have "fl (of_int N * 2 powi e) = Fin (of_int N * 2 powi e)"
  proof (rule fl_exact)
    have "of_int N * 2 powi e < (2 ^ 53 * 2 powi e :: rat)"
      using assms(7) by (intro mult_strict_right_mono) (auto simp: of_int_less_numeral_power_cancel_iff)
    also have "\<dots> = 2 powi (e + 53)" by (simp add: power_int_add)
    also have "\<dots> \<le> 2 powi 1000" using assms(4) by (intro power_int_increasing) auto
    also have "\<dots> < 2 ^ 1024" by simp
    finally show "\<bar>of_int N * 2 powi e\<bar> < (2 ^ 1024 :: rat)" using assms(6) by simp
  qed (use assms in auto)
  ultimately show ?thesis by (simp add: representable_def)
qed

lemma toFixed_on_text:
  assumes "fl x = Fin v \<and> representable v" "length data = 6" "f \<le> 20" "\<bar>v\<bar> < 10 ^ 21" "0 \<le> v"
  shows "toFixed_on num_text data (fl x) f = Inr (fixed_text f (nat \<lfloor>v * 10 ^ f + 1 / 2\<rfloor>))"
  using toFixed_finite [OF assms(3) conjunct2 [OF assms(1)] assms(4,2), of num_text] assms(1,5) by (auto simp: toFixed_on_def)

lemma literals:
  "fl (8 / 100000) = Fin (of_int 5902958103587057 * 2 powi -66) \<and> representable (of_int 5902958103587057 * 2 powi -66)"
  "fl (9 / 10) = Fin (of_int 8106479329266893 * 2 powi -53) \<and> representable (of_int 8106479329266893 * 2 powi -53)"
  "fl (1255 / 1000) = Fin (of_int 5652017532349972 * 2 powi -52) \<and> representable (of_int 5652017532349972 * 2 powi -52)"
  "fl 1000000000000000128 = Fin (of_int 7812500000000001 * 2 powi 7) \<and> representable (of_int 7812500000000001 * 2 powi 7)"
  by (rule literal_value; simp add: power_int_def power_divide)+

lemma literal_texts:
  "fixed_text 3 (nat \<lfloor>(of_int 5902958103587057 * 2 powi -66) * 10 ^ 3 + 1 / 2 :: rat\<rfloor>) = lit ''0.000''"
  "fixed_text 0 (nat \<lfloor>(of_int 8106479329266893 * 2 powi -53) * 10 ^ 0 + 1 / 2 :: rat\<rfloor>) = lit ''1''"
  "fixed_text 2 (nat \<lfloor>(of_int 5652017532349972 * 2 powi -52) * 10 ^ 2 + 1 / 2 :: rat\<rfloor>) = lit ''1.25''"
proof -
  have "\<lfloor>(of_int 5902958103587057 * 2 powi -66) * 10 ^ 3 + 1 / 2 :: rat\<rfloor> = 0"
    "\<lfloor>(of_int 8106479329266893 * 2 powi -53) * 10 ^ 0 + 1 / 2 :: rat\<rfloor> = 1"
    "\<lfloor>(of_int 5652017532349972 * 2 powi -52) * 10 ^ 2 + 1 / 2 :: rat\<rfloor> = 125"
    by (rule floor_unique; simp add: power_int_def power_divide)+
  moreover have "fixed_text 3 0 = lit ''0.000''" "fixed_text 0 1 = lit ''1''" "fixed_text 2 125 = lit ''1.25''" by code_simp+
  ultimately show "fixed_text 3 (nat \<lfloor>(of_int 5902958103587057 * 2 powi -66) * 10 ^ 3 + 1 / 2 :: rat\<rfloor>) = lit ''0.000''"
    "fixed_text 0 (nat \<lfloor>(of_int 8106479329266893 * 2 powi -53) * 10 ^ 0 + 1 / 2 :: rat\<rfloor>) = lit ''1''"
    "fixed_text 2 (nat \<lfloor>(of_int 5652017532349972 * 2 powi -52) * 10 ^ 2 + 1 / 2 :: rat\<rfloor>) = lit ''1.25''" by simp_all
qed

lemma big_text: "fixed_text 0 1000000000000000128 = lit ''1000000000000000128''"
  by (simp add: fixed_text_def dec.simps lit_def)


lemma toFixed_tests:
  assumes "length data = 6"
  shows "toFixed_on num_text data (fl (8 / 100000)) 3 = Inr (lit ''0.000'')" "toFixed_on num_text data (fl (9 / 10)) 0 = Inr (lit ''1'')"
    "toFixed_on num_text data (fl (1255 / 1000)) 2 = Inr (lit ''1.25'')"
    "toFixed_on num_text data (fl 1000000000000000128) 0 = Inr (lit ''1000000000000000128'')"
proof -
  note shown = toFixed_on_text [OF _ assms]
  show "toFixed_on num_text data (fl (8 / 100000)) 3 = Inr (lit ''0.000'')"
    using shown [OF literals(1), of 3 num_text] unfolding literal_texts by (simp add: power_int_def power_divide)
  show "toFixed_on num_text data (fl (9 / 10)) 0 = Inr (lit ''1'')"
    using shown [OF literals(2), of 0 num_text] unfolding literal_texts by (simp add: power_int_def power_divide)
  show "toFixed_on num_text data (fl (1255 / 1000)) 2 = Inr (lit ''1.25'')"
    using shown [OF literals(3), of 2 num_text] unfolding literal_texts by (simp add: power_int_def power_divide)
  have "\<lfloor>(of_int 7812500000000001 * 2 powi 7) * 10 ^ 0 + 1 / 2 :: rat\<rfloor> = 1000000000000000128"
    by (rule floor_unique; simp add: power_int_def)
  then show "toFixed_on num_text data (fl 1000000000000000128) 0 = Inr (lit ''1000000000000000128'')"
    using shown [OF literals(4), of 0 num_text] big_text by (simp add: power_int_def)
qed

text \<open>The buffer of six limbs may hold anything.\<close>

interpretation toFixed: self_tested hasToFixedBugs "toFixed_on num_text [a, b, c, d, e, f]" for num_text a b c d e f
proof unfold_locales
  have "length [a, b, c, d, e, f] = 6" by simp
  note tests = toFixed_tests [OF this, of num_text]
  show "hasToFixedBugs (Some (toFixed_on num_text [a, b, c, d, e, f])) = Inr False"
    unfolding hasToFixedBugs_def if_present_def option.case tests by simp
qed

interpretation trim: self_tested hasTrimWhitespaceBug trim_es5
proof unfold_locales
  have "trim_string ws = []" "trim_string zeroWidth \<noteq> []" by code_simp+
  then show "hasTrimWhitespaceBug (Some trim_es5) = Inr False" by (simp add: hasTrimWhitespaceBug_def trim_es5_def)
qed

interpretation lastIndexOf: self_tested hasLastIndexBug lastIndexOf_string
  by unfold_locales code_simp

interpretation error_text: self_tested error_text_bug errorToStringShim
  by unfold_locales code_simp

interpretation regexp_text: self_tested regexp_text_bug regexToString
  by unfold_locales code_simp

text \<open>The wrappers of \<open>substr\<close>, \<open>parseInt\<close> and \<open>parseFloat\<close> pass if the native function does on the
  arguments they hand over.\<close>

lemma wrappers_pass:
  assumes "\<And>s. string_substr s 1 None = drop 1 s" "origParseInt (lit ''08'') (Fin 10) = Fin 8" "origParseInt (lit ''0x16'') (Fin 16) = Fin 22"
    and "is_zero (origParseFloat (lit ''-0''))"
  shows "self_tested hasNegativeSubstrBug (substr_es5 string_substr)" "self_tested parseInt_bug (parseInt_es5 origParseInt)"
    "self_tested parseFloat_bug (parseFloat_es5 origParseFloat)"
proof -
  have "trim_string (ws @ lit ''08'') = lit ''08''" "trim_string (ws @ lit ''0x16'') = lit ''0x16''" "trim_string (lit ''-0'') = lit ''-0''"
    "defaultedRadix NaN (lit ''08'') = Fin 10" "defaultedRadix NaN (lit ''0x16'') = Fin 16" "str_slice (lit ''-0'') 0 1 = lit ''-''" "drop 1 (lit ''0b'') = lit ''b''" "length (lit ''0b'') = 2"
    by code_simp+
  then show "self_tested hasNegativeSubstrBug (substr_es5 string_substr)" "self_tested parseInt_bug (parseInt_es5 origParseInt)"
    "self_tested parseFloat_bug (parseFloat_es5 origParseFloat)"
    using assms
    by (simp_all add: self_tested_def hasNegativeSubstrBug_def substr_es5_def parseInt_bug_def parseInt_es5_def parseFloat_bug_def parseFloat_es5_def)
qed

lemma iso_examples:
  "toISOString utc_fields (Some negativeDate) = Inr (lit ''-000001-01-01T00:00:00.000Z'')"
  "toISOString utc_fields (Some (-1)) = Inr (lit ''1969-12-31T23:59:59.999Z'')"
  "contains (lit ''-000001-01-01T00:00:00.000Z'') (lit ''-000001'')"
proof -
  have print: "toISOString utc_fields (Some t) = Inr (iso_text (iso_year (fyear f)) (pad 2 (nat (fmonth f + 1))) (pad 2 (nat (fdate f)))
      (pad 2 (nat (fhours f))) (pad 2 (nat (fminutes f))) (pad 2 (nat (fseconds f))) (pad 3 (nat (fms f))))"
    if "\<bar>t\<bar> \<le> 8640000000000000" "f = utc_fields t" for t f
    unfolding that(2)
    by (rule toISOString_text [OF utc_fields_valid utc_year_bound [OF that(1)], of _ _ 0]) simp_all
  have d: "negativeDate div ms_per_day = -719893" "negativeDate mod ms_per_day = 0" by (simp_all add: negativeDate_def ms_per_day_def)
  have y: "year_of_day (-719893) = -1" "month_of_day (-719893) = 0" by code_simp+
  have f: "(fyear f, fmonth f, fdate f, fhours f, fminutes f, fseconds f, fms f) = (-1, 0, 1, 0, 0, 0, 0)" if "f = utc_fields negativeDate" for f
    unfolding that utc_fields_def Let_def d y by (simp add: month_start_def day_from_year_def)
  have g: "(fyear f, fmonth f, fdate f, fhours f, fminutes f, fseconds f, fms f) = (1969, 11, 31, 23, 59, 59, 999)" if "f = utc_fields (-1)" for f
    unfolding that by code_simp
  have "iso_text (iso_year (-1)) (pad 2 1) (pad 2 1) (pad 2 0) (pad 2 0) (pad 2 0) (pad 3 0) = lit ''-000001-01-01T00:00:00.000Z''"
    "iso_text (iso_year 1969) (pad 2 12) (pad 2 31) (pad 2 23) (pad 2 59) (pad 2 59) (pad 3 999) = lit ''1969-12-31T23:59:59.999Z''" by code_simp+
  then show "toISOString utc_fields (Some negativeDate) = Inr (lit ''-000001-01-01T00:00:00.000Z'')"
    "toISOString utc_fields (Some (-1)) = Inr (lit ''1969-12-31T23:59:59.999Z'')"
    using print [OF _ refl, of negativeDate] f [OF refl] print [OF _ refl, of "-1"] g [OF refl] by (simp_all add: negativeDate_def)
  show "contains (lit ''-000001-01-01T00:00:00.000Z'') (lit ''-000001'')" by (simp add: contains_iff prefix_at_def exI [of _ 0])
qed

interpretation toISOString: self_tested toISOString_bug "\<lambda>t. toISOString utc_fields (Some t)"
  by unfold_locales (simp add: toISOString_bug_def hasNegativeDateBug_def hasSafari51DateBug_def iso_examples del: lit_Nil lit_Cons)

interpretation toJSON: self_tested toJSON_bug toJSON
  by unfold_locales
    (simp add: toJSON_bug_def dateToJSONIsSupported_def toJSON_def date_object_def generic_object_def ToPrimitive_def call_method_def not_finite_def
      iso_examples lit_def [of "''true''"] del: lit_Nil lit_Cons)

interpretation parse: self_tested parse_bug "parseShim hasSafariSignedIntBug NativeDate native_parse" for hasSafariSignedIntBug NativeDate native_parse
proof unfold_locales
  let ?p = "parseShim hasSafariSignedIntBug NativeDate native_parse"
  have texts: "lit ''2000-01-01T00:00:00.000Z'' = iso_text (iso_year 2000) (pad 2 1) (pad 2 1) (pad 2 0) (pad 2 0) (pad 2 0) (pad 3 0)"
    "lit ''2012-04-04T24:00:00.500Z'' = iso_text (iso_year 2012) (pad 2 4) (pad 2 4) (pad 2 24) (pad 2 0) (pad 2 0) (pad 3 500)"
    "lit ''2012-11-31T23:59:59.000Z'' = iso_text (iso_year 2012) (pad 2 11) (pad 2 31) (pad 2 23) (pad 2 59) (pad 2 59) (pad 3 0)"
    "lit ''2012-12-31T23:59:60.000Z'' = iso_text (iso_year 2012) (pad 2 12) (pad 2 31) (pad 2 23) (pad 2 59) (pad 2 60) (pad 3 0)"
    "lit ''+033658-09-27T01:46:40.000Z'' = iso_text (iso_year 33658) (pad 2 9) (pad 2 27) (pad 2 1) (pad 2 46) (pad 2 40) (pad 3 0)"
    by code_simp+
  show "parse_bug (Some ?p) = Inr False"
    unfolding parse_bug_def doesNotParseY2KNewYear_def acceptsInvalidDates_def supportsExtendedYears_def texts
    by (simp add: parseShim_iso valid_date_def valid_time_def time_at_def seconds_at_def month_start_def leap_year_def day_from_year_def)
qed

section \<open>split\<close>

text \<open>A limit that is not reached does not matter.\<close>

lemma split_loop_limit:
  "split_loop sep2 r ml s L q p ll out = (q', p', ll', out') \<Longrightarrow> length out' < L \<Longrightarrow> L \<le> L' \<Longrightarrow>
   split_loop sep2 r ml s L' q p ll out = (q', p', ll', out')"
proof (induction sep2 r ml s L q p ll out rule: split_loop.induct)
  case (1 sep2 r ml s L q p ll out)
  show ?case
  proof (cases "exec_from r ml s q")
    case None
    then show ?thesis using 1 by (simp add: split_loop.simps [of _ _ _ _ _ q])
  next
    case (Some m)
    obtain i j c where m: "m = (i, j, c)" by (cases m)
    note step = split_loop.simps [of sep2 r ml s _ q, unfolded Some m option.case prod.case Let_def]
    show ?thesis
    proof (cases "j > p")
      case True
      let ?c = "npcg_fix sep2 ml (take (j - i) (drop i s)) (reported sep2 c)"
      let ?out = "out @ [Some (str_slice s (int p) (int i))] @ (if length ?c > 1 \<and> i < length s then tl ?c else [])"
      have n: "\<not> L \<le> length ?out" using "1.prems" True by (auto simp: step split: if_splits)
      then have "split_loop sep2 r ml s L (if j = i then Suc j else j) j (j - i) ?out = (q', p', ll', out')"
        using "1.prems"(1) True by (simp add: step)
      from "1.IH"(1) [OF Some [unfolded m] refl refl refl True refl refl n this "1.prems"(2,3)] show ?thesis
        using n True "1.prems"(3) by (simp add: step)
    next
      case False
      then show ?thesis using "1.IH"(2) [OF Some [unfolded m] refl refl refl False _ "1.prems"(2,3)] "1.prems"(1) by (simp add: step)
    qed
  qed
qed

lemma split_regex_limit:
  assumes "length (split_regex sep2 r ml L s) + 1 < L" "L \<le> L'"
  shows "split_regex sep2 r ml L' s = split_regex sep2 r ml L s"
proof -
  obtain q p ll out where l: "split_loop sep2 r ml s L 0 0 0 [] = (q, p, ll, out)" by (cases "split_loop sep2 r ml s L 0 0 0 []")
  then have "length out < L" using assms(1) by (auto simp: split_regex_def Let_def split: if_splits)
  from split_loop_limit [OF l this assms(2)] show ?thesis using l assms by (auto simp: split_regex_def Let_def)
qed

text \<open>The examples, for both kinds of engines.\<close>

definition split_examples :: "bool \<Rightarrow> (jsstr \<times> jsstr \<times> jsstr option list) \<Rightarrow> bool" where
  "split_examples compliant e =
     (case e of (s, src, xs) \<Rightarrow>
        (case (parse_re src, if compliant then Some None else map_option Some (separator2 src)) of
           (Some r, Some sep2) \<Rightarrow> split_regex sep2 r False 20 s = xs
         | _ \<Rightarrow> False))"

lemma examples_split:
  "list_all (split_examples compliant)
     [(lit ''ab'', pat ''(?:ab)*'', [Some [], Some []]), (lit ''.'', pat ''(.?)(.?)'', [Some [], Some (lit ''.''), Some [], Some []]),
      (lit ''tesst'', pat ''(s)*'', [Some (lit ''t''), None, Some (lit ''e''), Some (lit ''s''), Some (lit ''t'')]),
      (lit ''test'', pat ''(?:)'', map (\<lambda>c. Some [c]) (lit ''test'')), ([], pat ''.?'', []), (lit ''.'', pat ''()()'', [Some (lit ''.'')])]"
  by (cases compliant) (simp_all only:, code_simp+)

lemma split_source_example:
  assumes "split_examples compliant (s, src, xs)" "length xs < 19" "limit = None \<or> limit = Some (Fin (-1))"
  shows "split_source compliant native s src limit = Inr xs"
proof -
  obtain r sep2 where r: "parse_re src = Some r" and sep2: "(if compliant then Some None else map_option Some (separator2 src)) = Some sep2"
    and xs: "split_regex sep2 r False 20 s = xs"
    using assms(1) by (auto simp: split_examples_def split: option.splits)
  have "(case limit of None \<Rightarrow> 2 ^ 32 - 1 | Some l \<Rightarrow> ToUint32 l) = 2 ^ 32 - 1" using assms(3) by (auto simp: ToUint32_def ToInteger_def)
  moreover have "split_regex sep2 r False (2 ^ 32 - 1) s = xs" using split_regex_limit [of sep2 r False 20 s "2 ^ 32 - 1"] xs assms(2) by simp
  ultimately show ?thesis
    using sep2 r assms(3) by (auto simp: split_source_def split_es5_def Let_def split: if_splits)
qed

text \<open>The second pattern sees the matched text only: a group inside a look-ahead, which took part in the match, is reported
  as \<open>undefined\<close> on the engines that are repaired.\<close>

lemma split_repair_lookahead:
  "split_source False native (lit ''ab'') (pat ''a(?=(b)?)'') None = Inr [Some [], None, Some (lit ''b'')] \<and>
   split_source True native (lit ''ab'') (pat ''a(?=(b)?)'') None = Inr [Some [], Some (lit ''b''), Some (lit ''b'')]"
proof -
  have "split_examples False (lit ''ab'', pat ''a(?=(b)?)'', [Some [], None, Some (lit ''b'')])"
    "split_examples True (lit ''ab'', pat ''a(?=(b)?)'', [Some [], Some (lit ''b''), Some (lit ''b'')])" by code_simp+
  then show ?thesis by (intro conjI split_source_example) simp_all
qed

interpretation split: self_tested split_bugs "split_source compliant native" for compliant native
proof unfold_locales
  let ?split = "split_source compliant native"
  have "?split (lit ''ab'') (pat ''(?:ab)*'') None = Inr [Some [], Some []]"
    "?split (lit ''.'') (pat ''(.?)(.?)'') None = Inr [Some [], Some (lit ''.''), Some [], Some []]"
    "?split (lit ''tesst'') (pat ''(s)*'') None = Inr [Some (lit ''t''), None, Some (lit ''e''), Some (lit ''s''), Some (lit ''t'')]"
    "?split (lit ''test'') (pat ''(?:)'') (Some (Fin (-1))) = Inr (map (\<lambda>c. Some [c]) (lit ''test''))"
    "?split [] (pat ''.?'') None = Inr []" "?split (lit ''.'') (pat ''()()'') None = Inr [Some (lit ''.'')]"
    using examples_split [of compliant] unfolding list.pred_inject by (intro split_source_example; simp)+
  then show "split_bugs (Some ?split) = Inr False" unfolding split_bugs_def required_def option.case by simp
qed

section \<open>Arrays\<close>

lemma pushShim_undefined:
  assumes "length_of ob = 0"
  shows "\<exists>ob'. pushShim [u] ob = (Inr 1, ob') \<and> olen ob' = Fin 1 \<and> own ob' 0 = Some u"
  using assms by (cases "is_array ob") (simp_all add: pushShim_def set_length_def Let_def)

lemma length_of_empty [simp]: "length_of empty_object = 0" "length_of empty_array = 0"
  by (simp_all add: length_of_def empty_object_def empty_array_def ToUint32_def ToInteger_def)

interpretation push_generic: self_tested "pushIsNotGeneric undef" "push_es5 array_push" for undef array_push
proof unfold_locales
  show "pushIsNotGeneric undef (Some (push_es5 array_push)) = Inr False"
    using pushShim_undefined [of empty_object undef]
    by (auto simp: pushIsNotGeneric_def push_loses_def push_es5_def get_prop_def) (simp add: empty_object_def)
qed

interpretation push_undefined: self_tested "pushUndefinedIsWeird undef" pushShim for undef
proof unfold_locales
  show "pushUndefinedIsWeird undef (Some pushShim) = Inr False"
    using pushShim_undefined [of empty_array undef] by (auto simp: pushUndefinedIsWeird_def push_loses_def get_prop_def)
qed

interpretation indexOf: self_tested hasFirefox2IndexOfBug "indexOf_es5 (=)"
  by unfold_locales code_simp

interpretation lastIndexOf_array: self_tested hasFirefox2LastIndexOfBug "lastIndexOf_es5 (=)"
  by unfold_locales code_simp

interpretation sort: self_tested sort_bug "sort_es5 (\<lambda>ob cmp. Inr (arraySort ob cmp))" for arraySort
  by unfold_locales (simp add: sort_bug_def sort_es5_def throws_def)

text \<open>The arrays with holes.\<close>

lemma large_sparse: "spliceWorksWithLargeSparseArrays (indexOf_es5 (=)) splice_es5 = Inr True"
proof -
  define arr where "arr = set_prop 8 (lit ''x'') (empty_array\<lparr>olen := Fin (10 ^ 5)\<rparr>)"
  have len: "length_of arr = 100000" 
    by (rule length_of_Fin) (simp_all add: arr_def set_prop_def empty_array_def length_of_def ToUint32_def ToInteger_def)
  have own: "own arr = [8 \<mapsto> lit ''x'']" by (simp add: arr_def empty_array_def)
  have ok: "array_ok arr" by (simp add: array_ok_def len own) (simp add: arr_def set_prop_def empty_array_def length_of_def ToUint32_def ToInteger_def)
  have "1 = splice_start (length_of arr) (ToInteger (Fin 1))" "1 = splice_count (length_of arr - 1) (ToInteger (Fin 1))"
    "length_of arr - 1 + length [] < 2 ^ 32"
    by (simp_all add: len splice_start_def splice_count_def ToInteger_def)
  from splice_es5_spec [OF ok this] obtain A r where r: "splice_es5 (Fin 1) (Fin 1) [] arr = (Inr A, r)" "array_ok r" "inherited r = inherited arr"
    "slots r = spliced 1 1 (map Some []) (slots arr)" by blast
  have lr: "length_of r = 99999" using arg_cong [OF r(4), of length] by (simp add: spliced_def len)
  have or: "own r i = own arr (if i = 0 then 0 else Suc i)" if "i < 99999" for i
    using arg_cong [OF r(4), of "\<lambda>xs. xs ! i"] that lr len by (simp add: spliced_def nth_append)
  have inh: "inherited r = Map.empty" using r(3) by (simp add: arr_def empty_array_def set_prop_def)
  have at: "holds_at (=) r (lit ''x'') i \<longleftrightarrow> i = 7" if "i < 99999" for i
    using or [OF that] own inh by (auto simp: holds_at_def get_prop_def split: option.split if_splits)
  have "List.find (holds_at (=) r (lit ''x'')) [0..<99999] = Some 7"
    unfolding find_Some_iff using at by (intro exI [of _ 7]) auto
  then show ?thesis using r(1) unfolding spliceWorksWithLargeSparseArrays_def Let_def arr_def [symmetric]
    by (simp add: indexOf_es5_def lr found_def)
qed

lemma small_sparse: "spliceWorksWithSmallSparseArrays splice_es5 = Inr True"
proof -
  define arr where "arr = set_prop 256 (lit ''a'') (empty_array :: jsstr obj)"
  have len: "length_of arr = 257" by (rule length_of_Fin) (simp_all add: arr_def set_prop_def empty_array_def length_of_def ToUint32_def ToInteger_def)
  have own: "own arr = [256 \<mapsto> lit ''a'']" by (simp add: arr_def empty_array_def)
  have ok: "array_ok arr" by (simp add: array_ok_def len own) (simp add: arr_def set_prop_def empty_array_def length_of_def ToUint32_def ToInteger_def)
  have "257 = splice_start (length_of arr) (ToInteger (Fin 257))" "0 = splice_count (length_of arr - 257) (ToInteger (Fin 0))"
    "length_of arr - 0 + length [lit ''b''] < 2 ^ 32"
    by (simp_all add: len splice_start_def splice_count_def ToInteger_def)
  from splice_es5_spec [OF ok this] obtain A r where r: "splice_es5 (Fin 257) (Fin 0) [lit ''b''] arr = (Inr A, r)"
    "slots r = spliced 257 0 (map Some [lit ''b'']) (slots arr)" by blast
  have lr: "length_of r = 258" using arg_cong [OF r(2), of length] by (simp add: spliced_def len)
  have "own r 256 = own arr 256" using arg_cong [OF r(2), of "\<lambda>xs. xs ! 256"] lr len by (simp add: spliced_def nth_append)
  then show ?thesis using r(1) own unfolding spliceWorksWithSmallSparseArrays_def Let_def arr_def [symmetric]
    by (simp add: get_prop_def)
qed

interpretation splice: self_tested "splice_sparse_bug (indexOf_es5 (=))" splice_es5
  by unfold_locales (simp add: splice_sparse_bug_def large_sparse small_sparse)

text \<open>The wrappers of \<open>unshift\<close> and \<open>join\<close> pass if the native method leaves the right length, or text.\<close>

lemma array_wrappers_pass:
  assumes "\<exists>r ob. array_unshift [0] empty_array = (Inr r, ob) \<and> olen ob = Fin 1" "originalJoin (array_of [1, 2]) (lit '','') = lit ''1,2''"
  shows "self_tested hasUnshiftReturnValueBug (unshift_es5 array_unshift)" "self_tested hasJoinUndefinedBug (join_es5 originalJoin)"
  using assms by (auto simp: self_tested_def hasUnshiftReturnValueBug_def unshift_es5_def hasJoinUndefinedBug_def join_es5_def)

section \<open>Tests that misjudge engines\<close>

text \<open>The day of the test date in a time zone.\<close>

lemma local_days:
  assumes "\<bar>timeZoneOffset\<bar> \<le> 1440"
  shows "(aNegativeTestDate - timeZoneOffset * 60000) div ms_per_day =
    (if timeZoneOffset < -720 then -17475026 else if timeZoneOffset < 720 then -17475027 else -17475028)"
  using assms div_bounds [of ms_per_day "aNegativeTestDate - timeZoneOffset * 60000"]
  unfolding aNegativeTestDate_def ms_per_day_def by (auto split: if_splits)

lemma local_date:
  assumes "d = (aNegativeTestDate - timeZoneOffset * 60000) div ms_per_day" "year_of_day d = y" "month_of_day d = m"
    "d - day_from_year y - month_start (leap_year y) m + 1 = date"
  shows "toDateString True (utc_fields (aNegativeTestDate - timeZoneOffset * 60000)) =
    Inr (entry dayName ((d + 4) mod 7) @ lit '' '' @ entry monthName (int m) @ lit '' '' @ two date @ lit '' '' @ num_str y)"
  unfolding toDateString_def utc_fields_def Let_def assms(1) [symmetric] assms(2-4) by simp

lemma local_texts:
  "entry dayName ((-17475026 + 4) mod 7) @ lit '' '' @ entry monthName (int 0) @ lit '' '' @ two 2 @ lit '' '' @ num_str (-45875) = lit ''Tue Jan 02 -45875''"
  "entry dayName ((-17475027 + 4) mod 7) @ lit '' '' @ entry monthName (int 0) @ lit '' '' @ two 1 @ lit '' '' @ num_str (-45875) = lit ''Mon Jan 01 -45875''"
  "hd (entry dayName ((-17475028 + 4) mod 7)) = 83" "entry dayName ((-17475028 + 4) mod 7) \<noteq> []"
  by code_simp+

lemma days:
  "year_of_day (-17475026) = -45875" "month_of_day (-17475026) = 0" "year_of_day (-17475027) = -45875" "month_of_day (-17475027) = 0"
  by code_simp+

lemma date_string_by_zone:
  assumes "\<bar>timeZoneOffset\<bar> \<le> 1440"
  shows "hasToDateStringFormatBug timeZoneOffset (Some (\<lambda>t. toDateString True (utc_fields (t - timeZoneOffset * 60000)))) = Inr (timeZoneOffset \<ge> 720)"
proof -
  let ?s = "toDateString True (utc_fields (aNegativeTestDate - timeZoneOffset * 60000))"
  note d = local_days [OF assms]
  consider "timeZoneOffset < -720" | "-720 \<le> timeZoneOffset" "timeZoneOffset < 720" | "720 \<le> timeZoneOffset" by linarith
  then show ?thesis
  proof cases
    case 1
    then have "?s = Inr (lit ''Tue Jan 02 -45875'')"
      using local_date [OF d [symmetric], of "-45875" 0 2] days local_texts(1) by (simp add: day_from_year_def month_start_def del: lit_Nil lit_Cons)
    then show ?thesis using 1 by (simp add: hasToDateStringFormatBug_def)
  next
    case 2
    then have "?s = Inr (lit ''Mon Jan 01 -45875'')"
      using local_date [OF d [symmetric], of "-45875" 0 1] days local_texts(2) by (simp add: day_from_year_def month_start_def del: lit_Nil lit_Cons)
    then show ?thesis using 2 by (simp add: hasToDateStringFormatBug_def)
  next
    case 3
    then have "\<exists>rest. ?s = Inr (entry dayName ((-17475028 + 4) mod 7) @ rest)"
      using local_date [OF d [symmetric] refl refl refl] by auto
    then have "\<exists>rest. ?s = Inr (83 # rest)" using local_texts(3,4) by (metis append_Cons list.exhaust_sel)
    then show ?thesis using 3 by (auto simp: hasToDateStringFormatBug_def)
  qed
qed

text \<open>An engine that counts some years of a date as months.\<close>

definition skewed :: "(int \<Rightarrow> int) \<Rightarrow> int \<Rightarrow> fields" where
  "skewed k t = (utc_fields t)\<lparr>fyear := fyear (utc_fields t) - k t, fmonth := fmonth (utc_fields t) + 12 * k t\<rparr>"

lemma skewed_iso:
  assumes "\<bar>t\<bar> \<le> 8640000000000000" "\<bar>k t\<bar> \<le> 1000"
  shows "toISOString (skewed k) (Some t) = toISOString utc_fields (Some t)"
proof -
  let ?f = "utc_fields t"
  have iso: "toISOString native (Some t) = Inr (iso_text (iso_year (fyear ?f)) (pad 2 (nat (fmonth ?f + 1))) (pad 2 (nat (fdate ?f)))
      (pad 2 (nat (fhours ?f))) (pad 2 (nat (fminutes ?f))) (pad 2 (nat (fseconds ?f))) (pad 3 (nat (fms ?f))))"
    if "native t = ?f\<lparr>fyear := fyear ?f - m, fmonth := fmonth ?f + 12 * m\<rparr>" "\<bar>m\<bar> \<le> 1000" for native m
    by (rule toISOString_text [of ?f native t m, OF utc_fields_valid utc_year_bound [OF assms(1)] that])
  show ?thesis using iso [of "skewed k" "k t", OF skewed_def assms(2)] iso [of utc_fields 0] by simp
qed

lemma test_months: "fmonth (utc_fields (-3509827329600292)) = 0"
  by code_simp

lemma test_fields:
  "(fyear f, fmonth f, fdate f, fday f, fhours f, fminutes f, fseconds f) = (-45875, 0, 1, 1, 11, 59, 59)" if "f = utc_fields aNegativeTestDate"
  unfolding that by code_simp

lemma test_texts:
  "entry dayName 1 @ lit '', '' @ two 1 @ lit '' '' = lit ''Mon, 01 ''" "entry monthName 0 = lit ''Jan''"
  "lit '' '' @ num_str (-45875) @ lit '' '' @ two 11 @ lit '':'' @ two 59 @ lit '':'' @ two 59 @ lit '' GMT'' = lit '' -45875 11:59:59 GMT''"
  by code_simp+

lemma utc_string_test: "hasToUTCStringFormatBug (Some (\<lambda>t. toUTCString True (skewed k t))) = Inr (k aNegativeTestDate \<noteq> 0)"
proof -
  let ?k = "k aNegativeTestDate"
  have printed: "toUTCString True (skewed k aNegativeTestDate) =
      Inr ((entry dayName 1 @ lit '', '' @ two 1 @ lit '' '') @ entry monthName (12 * ?k) @ lit '' '' @ num_str (-45875 - ?k) @ lit '' '' @
        two 11 @ lit '':'' @ two 59 @ lit '':'' @ two 59 @ lit '' GMT'')"
    using test_fields [OF refl] by (simp add: toUTCString_def skewed_def clock_def)
  show ?thesis
  proof (cases "?k = 0")
    case True
    then have "toUTCString True (skewed k aNegativeTestDate) = Inr (lit ''Mon, 01 Jan -45875 11:59:59 GMT'')"
      unfolding printed using test_texts by simp
    then show ?thesis using True by (simp add: hasToUTCStringFormatBug_def)
  next
    case False
    then have "entry monthName (12 * ?k) = lit ''undefined''" by (auto simp: entry_def monthName_def)
    then have "toUTCString True (skewed k aNegativeTestDate) \<noteq> Inr (lit ''Mon, 01 Jan -45875 11:59:59 GMT'')"
      unfolding printed test_texts(1) by simp
    then show ?thesis using False unfolding hasToUTCStringFormatBug_def required_def option.case printed by simp
  qed
qed

section \<open>Properties\<close>

text \<open>C17: after \<open>defineProperties\<close> with one of these tests of es5-shim.js, the same test on the method now installed
  is negative, whatever method the engine had, or none; unless the engine's own method threw in the test.  For
  \<open>toFixed\<close> with any contents of its buffer, \<open>split\<close> of the first branch on both kinds of engines, \<open>trim\<close>,
  \<open>lastIndexOf\<close>, \<open>Date.parse\<close>, \<open>push\<close>, \<open>indexOf\<close> and \<open>lastIndexOf\<close> of arrays, \<open>splice\<close> with holes and the printers of
  errors and expressions; for \<open>toISOString\<close> and \<open>toJSON\<close> over getters that follow the language, and for \<open>sort\<close> over a native
  sort that does not throw.\<close>

theorem installed_methods_pass:
  "retest hasToFixedBugs (toFixed_on num_text [a, b, c, d, e, f]) n1 = bindR (hasToFixedBugs n1) (\<lambda>_. Inr False) \<and>
   retest split_bugs (split_source compliant strSplit) n2 = bindR (split_bugs n2) (\<lambda>_. Inr False) \<and>
   retest hasTrimWhitespaceBug trim_es5 n3 = bindR (hasTrimWhitespaceBug n3) (\<lambda>_. Inr False) \<and>
   retest hasLastIndexBug lastIndexOf_string n4 = bindR (hasLastIndexBug n4) (\<lambda>_. Inr False) \<and>
   retest toISOString_bug (\<lambda>t. toISOString utc_fields (Some t)) n6 = bindR (toISOString_bug n6) (\<lambda>_. Inr False) \<and>
   retest toJSON_bug toJSON n7 = Inr False \<and>
   retest parse_bug (parseShim hasSafariSignedIntBug NativeDate native_parse) n8 = bindR (parse_bug n8) (\<lambda>_. Inr False) \<and>
   retest (pushIsNotGeneric undef) (push_es5 array_push) n9 = bindR (pushIsNotGeneric undef n9) (\<lambda>_. Inr False) \<and>
   retest (pushUndefinedIsWeird undef) pushShim n10 = bindR (pushUndefinedIsWeird undef n10) (\<lambda>_. Inr False) \<and>
   retest hasFirefox2IndexOfBug (indexOf_es5 (=)) n11 = bindR (hasFirefox2IndexOfBug n11) (\<lambda>_. Inr False) \<and>
   retest hasFirefox2LastIndexOfBug (lastIndexOf_es5 (=)) n12 = bindR (hasFirefox2LastIndexOfBug n12) (\<lambda>_. Inr False) \<and>
   retest sort_bug (sort_es5 (\<lambda>ob cmp. Inr (arraySort ob cmp))) n13 = Inr False \<and>
   retest (splice_sparse_bug (indexOf_es5 (=))) splice_es5 n14 = bindR (splice_sparse_bug (indexOf_es5 (=)) n14) (\<lambda>_. Inr False) \<and>
   retest error_text_bug errorToStringShim n15 = bindR (error_text_bug n15) (\<lambda>_. Inr False) \<and>
   retest regexp_text_bug regexToString n16 = bindR (regexp_text_bug n16) (\<lambda>_. Inr False)"
  by (intro conjI) (simp_all add: toFixed.retested split.retested trim.retested lastIndexOf.retested toISOString.retested toJSON.retested
      parse.retested push_generic.retested push_undefined.retested indexOf.retested lastIndexOf_array.retested sort.retested splice.retested
      error_text.retested regexp_text.retested toJSON_bug_def sort_bug_def)

text \<open>C36: two tests misjudge engines.  The one of \<open>Object.keys\<close> compares a name with the number 1, so that the
  wrapper is installed whenever the tests return.  The one of \<open>toPrecision\<close> is the wrong way round: a method that
  takes \<open>undefined\<close> as a missing precision is wrapped, and one that gives another text keeps giving it.\<close>

theorem engines_misjudged:
  "install (Some keys) (keys_bug arguments2 arguments1 (Some keys)) (keys_wrapper isArguments arraySlice keys) =
     bindR (keys arguments2) (\<lambda>_. bindR (keys arguments1) (\<lambda>_. Inr (keys_wrapper isArguments arraySlice keys))) \<and>
   install (Some toPrecision) (hasToPrecisionUndefinedBug (Some toPrecision)) (toPrecision_es5 toPrecision) =
     Inr (if \<exists>s. toPrecision (Fin 1) (Given None) = Inr s \<and> s \<noteq> lit ''1'' then toPrecision else toPrecision_es5 toPrecision)"
proof
  show "install (Some keys) (keys_bug arguments2 arguments1 (Some keys)) (keys_wrapper isArguments arraySlice keys) =
     bindR (keys arguments2) (\<lambda>_. bindR (keys arguments1) (\<lambda>_. Inr (keys_wrapper isArguments arraySlice keys)))"
    by (cases "keys arguments2"; cases "keys arguments1")
      (simp_all add: install_def keys_bug_def keysWorksWithArguments_def keysHasArgumentsLengthBug_def)
  show "install (Some toPrecision) (hasToPrecisionUndefinedBug (Some toPrecision)) (toPrecision_es5 toPrecision) =
     Inr (if \<exists>s. toPrecision (Fin 1) (Given None) = Inr s \<and> s \<noteq> lit ''1'' then toPrecision else toPrecision_es5 toPrecision)"
    by (cases "toPrecision (Fin 1) (Given None)") (auto simp: install_def hasToPrecisionUndefinedBug_def)
qed

text \<open>\<open>toUTCString\<close> is installed for engines whose getters count years of old dates as months, but reads the
  getters of the engine: on such an engine the installed method fails its own test exactly if the getters
  are wrong for the date of the test, while \<open>toISOString\<close>, which reads the same getters and carries the months over,
  passes.\<close>

theorem utc_string_not_repaired:
  assumes "\<bar>k negativeDate\<bar> \<le> 1000" "\<bar>k (-1)\<bar> \<le> 1000" "k (-3509827329600292) \<noteq> 0"
  shows "install (Some f) (toUTCString_bug (Some (\<lambda>t. fmonth (skewed k t))) (Some f)) (\<lambda>t. toUTCString True (skewed k t)) =
      bindR (hasToUTCStringFormatBug (Some f)) (\<lambda>_. Inr (\<lambda>t. toUTCString True (skewed k t)))
    \<and> hasToUTCStringFormatBug (Some (\<lambda>t. toUTCString True (skewed k t))) = Inr (k aNegativeTestDate \<noteq> 0)
    \<and> toISOString_bug (Some (\<lambda>t. toISOString (skewed k) (Some t))) = Inr False"
proof (intro conjI)
  have "hasNegativeMonthYearBug (Some (\<lambda>t. fmonth (skewed k t))) = Inr True"
    using assms(3) test_months by (simp add: hasNegativeMonthYearBug_def skewed_def)
  then show "install (Some f) (toUTCString_bug (Some (\<lambda>t. fmonth (skewed k t))) (Some f)) (\<lambda>t. toUTCString True (skewed k t)) =
      bindR (hasToUTCStringFormatBug (Some f)) (\<lambda>_. Inr (\<lambda>t. toUTCString True (skewed k t)))"
    by (cases "hasToUTCStringFormatBug (Some f)") (auto simp: install_def toUTCString_bug_def split: option.split)
  show "hasToUTCStringFormatBug (Some (\<lambda>t. toUTCString True (skewed k t))) = Inr (k aNegativeTestDate \<noteq> 0)" by (rule utc_string_test)
  have "toISOString (skewed k) (Some t) = toISOString utc_fields (Some t)" if "t = negativeDate \<or> t = -1" for t
    using skewed_iso [of t k] assms(1,2) that by (auto simp: negativeDate_def)
  then show "toISOString_bug (Some (\<lambda>t. toISOString (skewed k) (Some t))) = Inr False"
    by (simp add: toISOString_bug_def hasNegativeDateBug_def hasSafari51DateBug_def iso_examples del: lit_Nil lit_Cons)
qed

theorem utc_string_not_repaired_witness:
  "hasToUTCStringFormatBug (Some (\<lambda>t. toUTCString True (skewed (\<lambda>t. if t < 0 then 1 else 0) t))) = Inr True"
  using utc_string_not_repaired [of "\<lambda>t. if t < 0 then 1 else 0"] by (simp add: aNegativeTestDate_def)

text \<open>C37: the test of \<open>toDateString\<close> knows two answers, by the time zone of the engine.  An engine that prints the
  local date correctly passes exactly if its zone is less than twelve hours behind Greenwich: at noon less one
  second the date is the day before from there on.\<close>

theorem date_test_by_zone:
  assumes "\<bar>timeZoneOffset\<bar> \<le> 1440"
  shows "hasToDateStringFormatBug timeZoneOffset (Some (\<lambda>t. toDateString True (utc_fields (t - timeZoneOffset * 60000)))) = Inr (timeZoneOffset \<ge> 720)"
  using date_string_by_zone [OF assms] .

theorem date_test_by_zone_witness:
  "hasToDateStringFormatBug 720 (Some (\<lambda>t. toDateString True (utc_fields (t - 720 * 60000)))) = Inr True"
  using date_test_by_zone [of 720] by simp

end
