(* ===== verification/JS_Regex_Static.thy ===== *)
theory JS_Regex_Static
  imports JS_Regex
begin

text \<open>
  Facts about a pattern that hold for every input, computed from its syntax: the least number of code
  units it consumes, and by how much a match is longer than the text of one of its groups.  Loops that
  cut off what a pattern matched, or that recurse into a group, end because these numbers are positive.
\<close>

primrec min_len :: "re \<Rightarrow> nat" where
  "min_len REmpty = 0"
| "min_len (RSet _ _) = 1"
| "min_len (RSeq a b) = min_len a + min_len b"
| "min_len (RAlt a b) = min (min_len a) (min_len b)"
| "min_len (RRep r mn _ _) = mn * min_len r"
| "min_len (RGroup _ r) = min_len r"
| "min_len (RBack _) = 0"
| "min_len RBol = 0"
| "min_len REol = 0"
| "min_len (RWordB _) = 0"
| "min_len (RLook _ _) = 0"

text \<open>\<open>slack n r\<close>: a match of \<open>r\<close> that sets group \<open>n\<close> is longer than the group by at least this much.  Groups
  inside a look-ahead are not bounded by the match and count as unknown; a pattern without group \<open>n\<close> is
  never asked.\<close>

primrec slack :: "nat \<Rightarrow> re \<Rightarrow> nat" where
  "slack n REmpty = 0"
| "slack n (RSet _ _) = 0"
| "slack n (RSeq a b) =
     (if n \<in> set (groups a) then if n \<in> set (groups b) then 0 else slack n a + min_len b else min_len a + slack n b)"
| "slack n (RAlt a b) =
     (if n \<in> set (groups a) then if n \<in> set (groups b) then min (slack n a) (slack n b) else slack n a else slack n b)"
| "slack n (RRep r _ _ _) = slack n r"
| "slack n (RGroup m r) = (if m = n then 0 else slack n r)"
| "slack n (RBack _) = 0"
| "slack n RBol = 0"
| "slack n REol = 0"
| "slack n (RWordB _) = 0"
| "slack n (RLook _ _) = 0"

text \<open>No look-ahead contains a group.\<close>

primrec look_free :: "nat \<Rightarrow> re \<Rightarrow> bool" where
  "look_free n REmpty = True"
| "look_free n (RSet _ _) = True"
| "look_free n (RSeq a b) = (look_free n a \<and> look_free n b)"
| "look_free n (RAlt a b) = (look_free n a \<and> look_free n b)"
| "look_free n (RRep r _ _ _) = look_free n r"
| "look_free n (RGroup _ r) = look_free n r"
| "look_free n (RBack _) = True"
| "look_free n RBol = True"
| "look_free n REol = True"
| "look_free n (RWordB _) = True"
| "look_free n (RLook _ r) = (n \<notin> set (groups r))"

section \<open>Least length\<close>

lemma ssrep_min:
  assumes m: "\<And>st st'. fst st \<le> n \<Longrightarrow> st' \<in> set (m st) \<Longrightarrow> fst st + k \<le> fst st' \<and> fst st' \<le> n"
    and "fst st \<le> n" "st' \<in> set (ssrep m gs f mn mx g st)" "\<forall>x. mx = Some x \<longrightarrow> mn \<le> x"
  shows "fst st + mn * k \<le> fst st'"
  using assms(2-)
proof (induction f arbitrary: mn mx st)
  case (Suc f)
  show ?case
  proof (cases "st' = st \<and> mn = 0")
    case True
    then show ?thesis by simp
  next
    case False
    have "mx \<noteq> Some 0"
    proof
      assume "mx = Some 0"
      with Suc.prems False show False by simp
    qed
    with Suc.prems(2) False obtain st1 where st1: "st1 \<in> set (m (fst st, clear gs (snd st)))"
        "st' \<in> set (ssrep m gs f (mn - 1) (map_option (\<lambda>n. n - 1) mx) g st1)"
      by (auto simp: Let_def split: if_splits)
    from m [OF _ st1(1)] Suc.prems(1) have b: "fst st + k \<le> fst st1" "fst st1 \<le> n" by simp_all
    have "fst st1 + (mn - 1) * k \<le> fst st'" by (rule Suc.IH [OF b(2) st1(2)]) (use Suc.prems(3) in auto)
    then show ?thesis using b by (cases mn) auto
  qed
qed simp

text \<open>Quantifiers are well formed: the greatest count is not below the least.\<close>

primrec wf_re :: "re \<Rightarrow> bool" where
  "wf_re REmpty = True"
| "wf_re (RSet _ _) = True"
| "wf_re (RSeq a b) = (wf_re a \<and> wf_re b)"
| "wf_re (RAlt a b) = (wf_re a \<and> wf_re b)"
| "wf_re (RRep r mn mx _) = (wf_re r \<and> (case mx of None \<Rightarrow> True | Some x \<Rightarrow> mn \<le> x))"
| "wf_re (RGroup _ r) = wf_re r"
| "wf_re (RBack _) = True"
| "wf_re RBol = True"
| "wf_re REol = True"
| "wf_re (RWordB _) = True"
| "wf_re (RLook _ r) = wf_re r"

lemma ss_min_len:
  "wf_re r \<Longrightarrow> fst st \<le> length s \<Longrightarrow> st' \<in> set (ss r ml s st) \<Longrightarrow> fst st + min_len r \<le> fst st'"
proof (induction r arbitrary: st st')
  case (RSeq a b)
  from RSeq.prems(3) obtain st1 where st1: "st1 \<in> set (ss a ml s st)" "st' \<in> set (ss b ml s st1)" by auto
  from ss_bounds [OF RSeq.prems(2) st1(1)] have "fst st1 \<le> length s" by simp
  from RSeq.IH(2) [OF _ this st1(2)] RSeq.IH(1) [OF _ RSeq.prems(2) st1(1)] RSeq.prems(1) show ?case by simp
next
  case (RAlt a b)
  from RAlt.prems(3) consider "st' \<in> set (ss a ml s st)" | "st' \<in> set (ss b ml s st)" by auto
  then show ?case
  proof cases
    case 1
    from RAlt.IH(1) [OF _ RAlt.prems(2) 1] RAlt.prems(1) show ?thesis by simp
  next
    case 2
    from RAlt.IH(2) [OF _ RAlt.prems(2) 2] RAlt.prems(1) show ?thesis by simp
  qed
next
  case (RRep r mn mx g)
  have "fst st + mn * min_len r \<le> fst st'"
  proof (rule ssrep_min [of "length s" "ss r ml s" "min_len r" st st' "groups r" _ mn mx g])
    show "fst st1 + min_len r \<le> fst st2 \<and> fst st2 \<le> length s" if "fst st1 \<le> length s" "st2 \<in> set (ss r ml s st1)" for st1 st2
      using RRep.IH [OF _ that] ss_bounds [OF that] RRep.prems(1) by simp
    show "st' \<in> set (ssrep (ss r ml s) (groups r) (Suc (mn + (length s - fst st))) mn mx g st)"
      using RRep.prems(3) by (simp only: ss.simps)
  qed (use RRep.prems(1,2) in \<open>auto split: option.splits\<close>)
  then show ?case by simp
next
  case (RGroup n r)
  from RGroup.prems(3) obtain st1 where st1: "st1 \<in> set (ss r ml s st)" "fst st' = fst st1" by auto
  from RGroup.IH [OF _ RGroup.prems(2) st1(1)] RGroup.prems(1) st1(2) show ?case by simp
next
  case (RLook pos r)
  then show ?case by (auto split: list.splits if_splits)
qed (auto simp: prefix_at_def split: if_splits option.splits)

lemma match_min_len:
  assumes "match_at r ml s i = Some (j, c)" "i \<le> length s" "wf_re r"
  shows "i + min_len r \<le> j"
proof -
  have "(j, c) \<in> set (ss r ml s (i, no_caps r))" using assms(1) by (auto simp: match_at_def rm_ss split: list.splits)
  from ss_min_len [OF assms(3) _ this] assms(2) show ?thesis by simp
qed

section \<open>Slack of a group\<close>

text \<open>Whatever a group holds after a match it held before, or it was set by the match and is shorter
  than it by the slack.\<close>

definition cap_bound :: "nat \<Rightarrow> nat \<Rightarrow> mstate \<Rightarrow> mstate \<Rightarrow> bool" where
  "cap_bound n k st st' \<longleftrightarrow>
     (\<forall>t. cap_at (snd st') n = Some t \<longrightarrow> cap_at (snd st) n = Some t \<or> fst st + length t + k \<le> fst st')"

lemma cap_at_clear: "cap_at (clear gs c) n = Some t \<Longrightarrow> cap_at c n = Some t"
proof (induction gs arbitrary: c)
  case (Cons g gs)
  from Cons.IH [of "c[g := None]"] Cons.prems have "cap_at (c[g := None]) n = Some t" by (simp add: clear_simps)
  then show ?case by (cases "g = n") (auto simp: cap_at_def split: if_splits)
qed (simp add: clear_simps)

lemma cap_at_update: "cap_at (c[m := x]) n = (if m = n \<and> n < length c then x else cap_at c n)"
  by (auto simp: cap_at_def nth_list_update)

text \<open>A pattern without the group leaves it alone or clears it.\<close>

lemma ssrep_keeps:
  assumes m: "\<And>st st' t. st' \<in> set (m st) \<Longrightarrow> cap_at (snd st') n = Some t \<Longrightarrow> cap_at (snd st) n = Some t"
    and "st' \<in> set (ssrep m gs f mn mx g st)" "cap_at (snd st') n = Some t"
  shows "cap_at (snd st) n = Some t"
  using assms(2,3)
proof (induction f arbitrary: mn mx st)
  case (Suc f)
  consider "st' = st" | st1 where "st1 \<in> set (m (fst st, clear gs (snd st)))"
      "st' \<in> set (ssrep m gs f (mn - 1) (map_option (\<lambda>n. n - 1) mx) g st1)"
    using Suc.prems(1) by (auto simp: Let_def split: if_splits)
  then show ?case
  proof cases
    case 2
    from m [OF 2(1) Suc.IH [OF 2(2) Suc.prems(2)]] show ?thesis by (auto dest: cap_at_clear)
  qed (use Suc.prems in simp)
qed simp

lemma ss_keeps:
  "n \<notin> set (groups r) \<Longrightarrow> st' \<in> set (ss r ml s st) \<Longrightarrow> cap_at (snd st') n = Some t \<Longrightarrow> cap_at (snd st) n = Some t"
proof (induction r arbitrary: st st' t)
  case (RSeq a b)
  from RSeq.prems(2) obtain st1 where st1: "st1 \<in> set (ss a ml s st)" "st' \<in> set (ss b ml s st1)" by auto
  from RSeq.IH(2) [OF _ st1(2) RSeq.prems(3)] RSeq.IH(1) [OF _ st1(1)] RSeq.prems(1) show ?case by simp
next
  case (RAlt a b)
  from RAlt.prems(2) consider "st' \<in> set (ss a ml s st)" | "st' \<in> set (ss b ml s st)" by auto
  then show ?case
  proof cases
    case 1
    from RAlt.IH(1) [OF _ 1 RAlt.prems(3)] RAlt.prems(1) show ?thesis by simp
  next
    case 2
    from RAlt.IH(2) [OF _ 2 RAlt.prems(3)] RAlt.prems(1) show ?thesis by simp
  qed
next
  case (RRep r mn mx g)
  have "st' \<in> set (ssrep (ss r ml s) (groups r) (Suc (mn + (length s - fst st))) mn mx g st)" using RRep.prems(2) by (simp only: ss.simps)
  from ssrep_keeps [OF _ this RRep.prems(3)] RRep.IH RRep.prems(1) show ?case by (metis groups.simps(5))
next
  case (RGroup m r)
  from RGroup.prems(2) obtain st1 where "st1 \<in> set (ss r ml s st)" "snd st' = (snd st1)[m := Some (take (fst st1 - fst st) (drop (fst st) s))]" by auto
  with RGroup show ?case by (auto simp: cap_at_update)
next
  case (RLook pos r)
  show ?case
  proof (cases "ss r ml s st")
    case (Cons st1 sts)
    with RLook.prems(2) have "snd st' = snd st1" "st1 \<in> set (ss r ml s st)" by (auto split: if_splits)
    with RLook show ?thesis by simp
  qed (use RLook.prems in \<open>auto split: if_splits\<close>)
qed (auto split: if_splits option.splits)

lemma ssrep_cap_bound:
  assumes m: "\<And>st st'. fst st \<le> N \<Longrightarrow> st' \<in> set (m st) \<Longrightarrow> cap_bound n k st st' \<and> fst st \<le> fst st' \<and> fst st' \<le> N"
    and "fst st \<le> N" "st' \<in> set (ssrep m gs f mn mx g st)"
  shows "cap_bound n k st st' \<and> fst st \<le> fst st'"
  using assms(2,3)
proof (induction f arbitrary: mn mx st)
  case (Suc f)
  consider "st' = st" | st1 where "st1 \<in> set (m (fst st, clear gs (snd st)))"
      "st' \<in> set (ssrep m gs f (mn - 1) (map_option (\<lambda>n. n - 1) mx) g st1)"
    using Suc.prems(2) by (auto simp: Let_def split: if_splits)
  then show ?case
  proof cases
    case 1
    then show ?thesis by (simp add: cap_bound_def)
  next
    case 2
    from m [OF _ 2(1)] Suc.prems(1) have a: "cap_bound n k (fst st, clear gs (snd st)) st1" "fst st \<le> fst st1" "fst st1 \<le> N" by simp_all
    from Suc.IH [OF a(3) 2(2)] have b: "cap_bound n k st1 st'" "fst st1 \<le> fst st'" by simp_all
    have "cap_bound n k st st'"
      unfolding cap_bound_def
    proof (intro allI impI)
      fix t assume t: "cap_at (snd st') n = Some t"
      from b(1) t have "cap_at (snd st1) n = Some t \<or> fst st1 + length t + k \<le> fst st'" by (auto simp: cap_bound_def)
      then show "cap_at (snd st) n = Some t \<or> fst st + length t + k \<le> fst st'"
      proof
        assume "cap_at (snd st1) n = Some t"
        with a(1) have "cap_at (clear gs (snd st)) n = Some t \<or> fst st + length t + k \<le> fst st1" by (auto simp: cap_bound_def)
        with b(2) show ?thesis by (auto dest: cap_at_clear)
      qed (use a(2) in linarith)
    qed
    with a(2) b(2) show ?thesis by simp
  qed
qed simp

lemma ss_cap_bound:
  assumes "wf_re r" "look_free n r" "fst st \<le> length s" "st' \<in> set (ss r ml s st)"
  shows "cap_bound n (slack n r) st st'"
  using assms
proof (induction r arbitrary: st st')
  case (RSeq a b)
  from RSeq.prems(4) obtain st1 where st1: "st1 \<in> set (ss a ml s st)" "st' \<in> set (ss b ml s st1)" by auto
  from ss_bounds [OF RSeq.prems(3) st1(1)] have b1: "fst st1 \<le> length s" by simp
  have la: "fst st + min_len a \<le> fst st1" using ss_min_len [OF _ RSeq.prems(3) st1(1)] RSeq.prems(1) by simp
  have lb: "fst st1 + min_len b \<le> fst st'" using ss_min_len [OF _ b1 st1(2)] RSeq.prems(1) by simp
  have ca: "cap_bound n (slack n a) st st1" using RSeq.IH(1) [OF _ _ RSeq.prems(3) st1(1)] RSeq.prems by simp
  have cb: "cap_bound n (slack n b) st1 st'" using RSeq.IH(2) [OF _ _ b1 st1(2)] RSeq.prems by simp
  have ka: "cap_at (snd st1) n = Some t \<Longrightarrow> cap_at (snd st) n = Some t" if "n \<notin> set (groups a)" for t
    using ss_keeps [OF that st1(1)] .
  have kb: "cap_at (snd st') n = Some t \<Longrightarrow> cap_at (snd st1) n = Some t" if "n \<notin> set (groups b)" for t
    using ss_keeps [OF that st1(2)] .
  show ?case
    unfolding cap_bound_def
  proof (intro allI impI)
    fix t assume t: "cap_at (snd st') n = Some t"
    show "cap_at (snd st) n = Some t \<or> fst st + length t + slack n (RSeq a b) \<le> fst st'"
    proof (cases "n \<in> set (groups b)")
      case False
      with kb t have "cap_at (snd st1) n = Some t" by blast
      with ca have "cap_at (snd st) n = Some t \<or> fst st + length t + slack n a \<le> fst st1" by (auto simp: cap_bound_def)
      moreover have "cap_at (snd st) n = Some t" if "n \<notin> set (groups a)" using ka [OF that] \<open>cap_at (snd st1) n = Some t\<close> by blast
      ultimately show ?thesis using False lb by auto
    next
      case True
      from cb t have "cap_at (snd st1) n = Some t \<or> fst st1 + length t + slack n b \<le> fst st'" by (auto simp: cap_bound_def)
      then show ?thesis
      proof
        assume "cap_at (snd st1) n = Some t"
        with ca have "cap_at (snd st) n = Some t \<or> fst st + length t + slack n a \<le> fst st1" by (auto simp: cap_bound_def)
        moreover have "cap_at (snd st) n = Some t" if "n \<notin> set (groups a)" using ka [OF that] \<open>cap_at (snd st1) n = Some t\<close> by blast
        ultimately show ?thesis using True lb by auto
      qed (use True la in auto)
    qed
  qed
next
  case (RAlt a b)
  have keep: "cap_bound n k st st'" if "n \<notin> set (groups r)" "st' \<in> set (ss r ml s st)" for r k
    using ss_keeps [OF that] by (auto simp: cap_bound_def)
  have weaken: "cap_bound n k st st' \<Longrightarrow> k' \<le> k \<Longrightarrow> cap_bound n k' st st'" for k k' by (fastforce simp: cap_bound_def)
  from RAlt.prems(4) consider "st' \<in> set (ss a ml s st)" | "st' \<in> set (ss b ml s st)" by auto
  then show ?case
  proof cases
    case 1
    with RAlt.IH(1) [OF _ _ RAlt.prems(3) 1] RAlt.prems have "cap_bound n (slack n a) st st'" by simp
    then show ?thesis using keep [OF _ 1] by (cases "n \<in> set (groups a)") (auto intro: weaken)
  next
    case 2
    with RAlt.IH(2) [OF _ _ RAlt.prems(3) 2] RAlt.prems have "cap_bound n (slack n b) st st'" by simp
    then show ?thesis using keep [OF _ 2] by (cases "n \<in> set (groups b)") (auto intro: weaken)
  qed
next
  case (RRep r mn mx g)
  have "cap_bound n (slack n r) st st' \<and> fst st \<le> fst st'"
  proof (rule ssrep_cap_bound [of "length s" "ss r ml s"])
    show "cap_bound n (slack n r) st1 st2 \<and> fst st1 \<le> fst st2 \<and> fst st2 \<le> length s"
      if "fst st1 \<le> length s" "st2 \<in> set (ss r ml s st1)" for st1 st2
      using RRep.IH [OF _ _ that] ss_bounds [OF that] RRep.prems by simp
    show "st' \<in> set (ssrep (ss r ml s) (groups r) (Suc (mn + (length s - fst st))) mn mx g st)"
      using RRep.prems(4) by (simp only: ss.simps)
  qed (rule RRep.prems(3))
  then show ?case by simp
next
  case (RGroup m r)
  from RGroup.prems(4) obtain st1 where st1: "st1 \<in> set (ss r ml s st)" "fst st' = fst st1"
    "snd st' = (snd st1)[m := Some (take (fst st1 - fst st) (drop (fst st) s))]" by auto
  from RGroup.IH [OF _ _ RGroup.prems(3) st1(1)] RGroup.prems have c: "cap_bound n (slack n r) st st1" by simp
  have "fst st \<le> fst st1" using ss_bounds [OF RGroup.prems(3) st1(1)] by simp
  then show ?case using c st1 by (cases "m = n") (auto simp: cap_bound_def cap_at_update split: if_splits)
next
  case (RLook pos r)
  have "st' = st \<or> (fst st' = fst st \<and> (\<exists>st1 \<in> set (ss r ml s st). snd st' = snd st1))"
    using RLook.prems(4) by (auto split: list.splits if_splits)
  then show ?case using ss_keeps [of n r] RLook.prems(2) by (fastforce simp: cap_bound_def)
qed (auto simp: cap_bound_def split: if_splits option.splits)

lemma match_slack:
  assumes "match_at r ml s i = Some (j, c)" "i \<le> length s" "wf_re r" "look_free n r" "cap_at c n = Some t"
  shows "i + length t + slack n r \<le> j"
proof -
  have "(j, c) \<in> set (ss r ml s (i, no_caps r))" using assms(1) by (auto simp: match_at_def rm_ss split: list.splits)
  moreover have "cap_at (no_caps r) n = None" by (simp add: cap_at_def no_caps_def del: replicate_Suc)
  ultimately show ?thesis
    using ss_cap_bound [OF assms(3,4), of "(i, no_caps r)" s "(j, c)" ml] assms(2,5) by (simp add: cap_bound_def)
qed

section \<open>Ways to match\<close>

text \<open>The ways to match the parts of a pattern, and where the first of them ends.\<close>

lemma ssrep_set_iff:
  "i \<le> length s \<Longrightarrow> mn + (length s - i) < f \<Longrightarrow> st' \<in> set (ssrep (ss (RSet pos rs) ml s) [] f mn None g (i, c)) \<longleftrightarrow>
     (\<exists>k. st' = (k, c) \<and> i + mn \<le> k \<and> k \<le> length s \<and> (\<forall>x. i \<le> x \<and> x < k \<longrightarrow> in_ranges rs (s ! x) = pos))"
proof (induction f arbitrary: i mn)
  case (Suc f)
  let ?R = "\<lambda>i mn. \<exists>k. st' = (k, c) \<and> i + mn \<le> k \<and> k \<le> length s \<and> (\<forall>x. i \<le> x \<and> x < k \<longrightarrow> in_ranges rs (s ! x) = pos)"
  show ?case
  proof (cases "i < length s \<and> in_ranges rs (s ! i) = pos")
    case True
    have ih: "st' \<in> set (ssrep (ss (RSet pos rs) ml s) [] f (mn - 1) None g (Suc i, c)) \<longleftrightarrow> ?R (Suc i) (mn - 1)"
      using Suc.prems True by (intro Suc.IH) auto
    have m1: "ss (RSet pos rs) ml s (i, c) = [(Suc i, c)]" using True by simp
    have all: "(\<forall>x. i \<le> x \<and> x < k \<longrightarrow> in_ranges rs (s ! x) = pos) \<longleftrightarrow> (\<forall>x. Suc i \<le> x \<and> x < k \<longrightarrow> in_ranges rs (s ! x) = pos)" for k
      using True by (metis Suc_leD le_antisym not_less_eq_eq)
    have "st' \<in> set (ssrep (ss (RSet pos rs) ml s) [] (Suc f) mn None g (i, c)) \<longleftrightarrow> ?R (Suc i) (mn - 1) \<or> (mn = 0 \<and> st' = (i, c))"
      using ih m1 by (cases mn; cases g) (auto simp: Let_def clear_def simp del: ss.simps)
    also have "\<dots> \<longleftrightarrow> ?R i mn"
      unfolding all using True by (cases mn) (auto simp: Suc_le_eq le_less)
    finally show ?thesis .
  next
    case False
    have "ss (RSet pos rs) ml s (i, c) = []" using False by simp
    then have "st' \<in> set (ssrep (ss (RSet pos rs) ml s) [] (Suc f) mn None g (i, c)) \<longleftrightarrow> mn = 0 \<and> st' = (i, c)"
      by (simp add: Let_def clear_def del: ss.simps)
    also have "\<dots> \<longleftrightarrow> ?R i mn" using False Suc.prems(1) by (auto simp: le_less) 
    finally show ?thesis .
  qed
qed simp

lemma ss_rep_set_iff:
  "i \<le> length s \<Longrightarrow> st' \<in> set (ss (RRep (RSet pos rs) mn None g) ml s (i, c)) \<longleftrightarrow>
     (\<exists>k. st' = (k, c) \<and> i + mn \<le> k \<and> k \<le> length s \<and> (\<forall>x. i \<le> x \<and> x < k \<longrightarrow> in_ranges rs (s ! x) = pos))"
  unfolding ss.simps(5) groups.simps fst_conv by (rule ssrep_set_iff) simp_all

lemma ss_RSeq_iff: "st' \<in> set (ss (RSeq a b) ml s st) \<longleftrightarrow> (\<exists>st1 \<in> set (ss a ml s st). st' \<in> set (ss b ml s st1))"
  by auto

lemma ss_bol: "ss (RSeq RBol r) ml s st = (if at_bol ml s (fst st) then ss r ml s st else [])"
  by simp

lemma ss_RSet_iff: "st' \<in> set (ss (RSet pos rs) ml s (i, c)) \<longleftrightarrow> st' = (Suc i, c) \<and> i < length s \<and> in_ranges rs (s ! i) = pos"
  by auto

lemma ss_RGroup_iff: "st' \<in> set (ss (RGroup n r) ml s (i, c)) \<longleftrightarrow> (\<exists>k c'. (k, c') \<in> set (ss r ml s (i, c)) \<and> st' = (k, c'[n := Some (take (k - i) (drop i s))]))"
  by force

lemma match_at_ss: "match_at r ml s i = None \<longleftrightarrow> ss r ml s (i, no_caps r) = []"
  by (auto simp: match_at_def rm_ss split: list.splits)

lemma match_at_hd: "match_at r ml s i = Some st \<Longrightarrow> ss r ml s (i, no_caps r) \<noteq> [] \<and> st = hd (ss r ml s (i, no_caps r))"
  by (auto simp: match_at_def rm_ss split: list.splits)

lemma match_at_in: "match_at r ml s i = Some st \<Longrightarrow> st \<in> set (ss r ml s (i, no_caps r))"
  using match_at_hd by (metis list.set_sel(1))

text \<open>The first way to match ends where its last part ends.\<close>

lemma hd_concat_map: "concat (map f xs) \<noteq> [] \<Longrightarrow> \<exists>x \<in> set xs. f x \<noteq> [] \<and> hd (concat (map f xs)) = hd (f x)"
  by (induction xs) (auto simp: hd_append)

definition first_ends :: "(nat \<Rightarrow> bool) \<Rightarrow> re \<Rightarrow> bool \<Rightarrow> jsstr \<Rightarrow> bool" where
  "first_ends P r ml s \<longleftrightarrow> (\<forall>st. fst st \<le> length s \<longrightarrow> ss r ml s st \<noteq> [] \<longrightarrow> P (fst (hd (ss r ml s st))))"

lemma first_endsD: "first_ends P r ml s \<Longrightarrow> fst st \<le> length s \<Longrightarrow> ss r ml s st \<noteq> [] \<Longrightarrow> P (fst (hd (ss r ml s st)))"
  unfolding first_ends_def by blast

lemma first_ends_seq:
  assumes "first_ends P b ml s"
  shows "first_ends P (RSeq a b) ml s"
  unfolding first_ends_def
proof (intro allI impI)
  fix st assume st: "fst st \<le> length s" "ss (RSeq a b) ml s st \<noteq> []"
  then obtain st1 where "st1 \<in> set (ss a ml s st)" "ss b ml s st1 \<noteq> []" "hd (ss (RSeq a b) ml s st) = hd (ss b ml s st1)"
    using hd_concat_map [of "ss b ml s" "ss a ml s st"] by auto
  with st ss_bounds [of st s st1 a ml] first_endsD [OF assms, of st1] show "P (fst (hd (ss (RSeq a b) ml s st)))" by simp
qed

lemma first_ends_star:
  assumes m: "first_ends P r ml s" and pos: "wf_re r" "0 < min_len r"
    and st: "fst st \<le> length s" "P (fst st)"
  shows "ss (rstar r) ml s st \<noteq> [] \<and> P (fst (hd (ss (rstar r) ml s st)))"
proof -
  have "ssrep (ss r ml s) (groups r) f 0 None True st \<noteq> [] \<and> P (fst (hd (ssrep (ss r ml s) (groups r) f 0 None True st)))"
    if "length s - fst st < f" "fst st \<le> length s" "P (fst st)" for f st
    using that
  proof (induction f arbitrary: st)
    case (Suc f)
    let ?st = "(fst st, clear (groups r) (snd st))"
    show ?case
    proof (cases "ss r ml s ?st")
      case Nil
      then show ?thesis using Suc.prems by (simp add: Let_def)
    next
      case (Cons st1 sts)
      then have "st1 \<in> set (ss r ml s ?st)" by simp
      then have b: "fst st + min_len r \<le> fst st1" "fst st1 \<le> length s" using ss_min_len [of r ?st s st1 ml] ss_bounds [of ?st s st1 r ml] pos Suc.prems by auto
      have "P (fst st1)" using first_endsD [OF m, of ?st] Cons Suc.prems by simp
      then have "ssrep (ss r ml s) (groups r) f 0 None True st1 \<noteq> [] \<and> P (fst (hd (ssrep (ss r ml s) (groups r) f 0 None True st1)))"
        using Suc.prems b pos by (intro Suc.IH) auto
      moreover have "fst st1 \<noteq> fst st" using b pos by simp
      ultimately show ?thesis using Cons by (simp add: Let_def hd_append)
    qed
  qed simp
  from this [of st "Suc (0 + (length s - fst st))"] st show ?thesis by simp
qed

lemma first_ends_class: "first_ends (\<lambda>k. k = length s \<or> in_ranges rs (s ! k) \<noteq> pos) (RRep (RSet pos rs) mn None True) ml s"
proof -
  let ?rep = "\<lambda>f mn. ssrep (ss (RSet pos rs) ml s) [] f mn None True"
  have nonempty: "?rep (Suc f) 0 st \<noteq> []" for f st by (simp add: Let_def del: ss.simps)
  have *: "fst (hd (?rep f mn st)) = length s \<or> in_ranges rs (s ! fst (hd (?rep f mn st))) \<noteq> pos"
    if "mn + (length s - fst st) < f" "fst st \<le> length s" "?rep f mn st \<noteq> []" for f mn st
    using that
  proof (induction f arbitrary: st mn)
    case (Suc f)
    show ?case
    proof (cases "fst st < length s \<and> in_ranges rs (s ! fst st) = pos")
      case True
      then have m: "ss (RSet pos rs) ml s (fst st, clear [] (snd st)) = [(Suc (fst st), snd st)]" by (simp add: clear_def)
      have f: "mn - 1 + (length s - fst (Suc (fst st), snd st)) < f" "fst (Suc (fst st), snd st) \<le> length s" using Suc.prems True by auto
      have ne: "?rep f (mn - 1) (Suc (fst st), snd st) \<noteq> []"
      proof (cases mn)
        case 0
        with f nonempty [of "f - 1"] show ?thesis by simp
      qed (use Suc.prems(3) m in \<open>simp add: Let_def del: ss.simps\<close>)
      have h: "hd (?rep (Suc f) mn st) = hd (?rep f (mn - 1) (Suc (fst st), snd st))"
        using m ne by (cases mn) (simp_all add: Let_def hd_append del: ss.simps)
      show ?thesis unfolding h by (rule Suc.IH [OF f ne])
    next
      case False
      then have "ss (RSet pos rs) ml s (fst st, clear [] (snd st)) = []" by simp
      then show ?thesis using False Suc.prems by (cases mn) (auto simp: Let_def simp del: ss.simps)
    qed
  qed simp
  show ?thesis
    unfolding first_ends_def ss.simps(5) groups.simps by (intro allI impI *) simp_all
qed

lemma first_ends_seq_star:
  assumes a: "first_ends P a ml s" and r: "first_ends P r ml s" "wf_re r" "0 < min_len r"
  shows "first_ends P (RSeq a (rstar r)) ml s"
  unfolding first_ends_def
proof (intro allI impI)
  fix st assume st: "fst st \<le> length s" "ss (RSeq a (rstar r)) ml s st \<noteq> []"
  then obtain st1 sts where c: "ss a ml s st = st1 # sts" by (cases "ss a ml s st") auto
  with st first_endsD [OF a, of st] have "P (fst st1)" by simp
  moreover have "fst st1 \<le> length s" using ss_bounds [of st s st1 a ml] st c by simp
  ultimately show "P (fst (hd (ss (RSeq a (rstar r)) ml s st)))"
    using first_ends_star [OF r, of st1] c by (simp add: hd_append del: ss.simps(5))
qed

lemma ss_plus_first:
  assumes "st' \<in> set (ss (rplus r) ml s st)" "fst st \<le> length s"
  obtains st1 where "st1 \<in> set (ss r ml s (fst st, clear (groups r) (snd st)))" "fst st1 \<le> fst st'"
proof -
  from assms(1) have "st' \<in> set (ssrep (ss r ml s) (groups r) (Suc (Suc (length s - fst st))) 1 None True st)" by (simp only: ss.simps) simp
  then obtain st1 where st1: "st1 \<in> set (ss r ml s (fst st, clear (groups r) (snd st)))"
      "st' \<in> set (ssrep (ss r ml s) (groups r) (Suc (length s - fst st)) 0 None True st1)"
    by (subst (asm) ssrep.simps) (auto simp: Let_def simp del: ssrep.simps)
  have "fst st1 \<le> length s" using ss_bounds [OF _ st1(1)] assms(2) by simp
  have "fst st1 \<le> fst st' \<and> fst st' \<le> length s \<and> length (snd st') = length (snd st1)"
    by (rule ssrep_bounds [OF _ \<open>fst st1 \<le> length s\<close> st1(2)]) (rule ss_bounds)
  with st1(1) that show thesis by blast
qed

end
