(* ===== verification/Marked_Text.thy ===== *)
theory Marked_Text
  imports JS_Regex_Static JS_Num JS_URI
begin

text \<open>
  The text functions and the renderer of marked.js: \<open>escape\<close>, \<open>unescape\<close>, \<open>smartypants\<close>, \<open>mangle\<close> and the methods
  of \<open>Renderer\<close>.  The renderer is the one the file defines; \<open>highlight\<close>, when it is set, is a parameter.
\<close>

section \<open>Options\<close>

text \<open>The options, and two functions of the engine: \<open>toLowerCase\<close>, which depends on the tables of Unicode, and
  the outcomes of \<open>Math.random() > 0.5\<close>, numbered by the calls.\<close>

record options =
  gfm :: bool
  gfm_tables :: bool
  breaks :: bool
  pedantic :: bool
  sanitize :: bool
  smartLists :: bool
  silent :: bool
  highlight :: "(jsstr \<Rightarrow> jsstr option \<Rightarrow> jsstr option) option"
  langPrefix :: jsstr
  use_smartypants :: bool
  headerPrefix :: jsstr
  xhtml :: bool
  toLowerCase :: "jsstr \<Rightarrow> jsstr"
  random :: "nat \<Rightarrow> bool"

definition defaults :: "(jsstr \<Rightarrow> jsstr) \<Rightarrow> (nat \<Rightarrow> bool) \<Rightarrow> options" where
  "defaults lower rnd =
     \<lparr>gfm = True, gfm_tables = True, breaks = False, pedantic = False, sanitize = False, smartLists = False, silent = False,
      highlight = None, langPrefix = lit ''lang-'', use_smartypants = False, headerPrefix = [], xhtml = False,
      toLowerCase = lower, random = rnd\<rparr>"

section \<open>Escaping\<close>

definition const :: "jsstr \<Rightarrow> jsstr \<Rightarrow> caps \<Rightarrow> jsstr" where
  "const t m c = t"

text \<open>An ampersand that does not begin an entity.\<close>

definition amp_re :: re where
  "amp_re = RSeq (rchr CHR ''&'') (RLook False (rseq [ropt (rchr CHR ''#''), rplus rword, rchr CHR '';'']))"

definition escape :: "jsstr \<Rightarrow> bool \<Rightarrow> jsstr" where
  "escape html encode =
     (let s = replace_all (if encode then rchr CHR ''&'' else amp_re) False html (const (lit ''&amp;''));
          s = replace_all (rchr CHR ''<'') False s (const (lit ''&lt;''));
          s = replace_all (rchr CHR ''>'') False s (const (lit ''&gt;''));
          s = replace_all (runit 34) False s (const (lit ''&quot;''))
      in replace_all (runit 39) False s (const (lit ''&#39;'')))"

text \<open>\<open>String.fromCharCode\<close> of a number, \<open>parseInt(s, 16)\<close> and \<open>+s\<close>.\<close>

definition fromCharCode :: "jsnum \<Rightarrow> cu" where
  "fromCharCode n = (case n of Fin q \<Rightarrow> nat ((if q \<ge> 0 then \<lfloor>q\<rfloor> else - \<lfloor>- q\<rfloor>) mod 65536) | _ \<Rightarrow> 0)"

definition hex_value :: "jsstr \<Rightarrow> nat" where
  "hex_value s = foldl (\<lambda>a c. 16 * a + the (hex_digit c)) 0 s"

definition is_hex :: "cu \<Rightarrow> bool" where
  "is_hex c \<longleftrightarrow> hex_digit c \<noteq> None"

definition parseInt16 :: "jsstr \<Rightarrow> jsnum" where
  "parseInt16 s =
     (let s = (if take 1 s = [48] \<and> (take 1 (tl s) = [120] \<or> take 1 (tl s) = [88]) then drop 2 s else s);
          ds = takeWhile is_hex s
      in if ds = [] then NaN else fl (of_nat (hex_value ds)))"

text \<open>\<open>+s\<close> on strings of word characters: digits, perhaps with an exponent, or a hexadecimal number, as
  ECMAScript 5 reads them (no binary and octal ones).\<close>

definition toNumber :: "jsstr \<Rightarrow> jsnum" where
  "toNumber s =
     (if s = [] then Fin 0
      else if take 2 s = lit ''0x'' then if drop 2 s \<noteq> [] \<and> list_all is_hex (drop 2 s) then fl (of_nat (hex_value (drop 2 s))) else NaN
      else let ds = takeWhile is_digit s; r = drop (length ds) s
           in if ds = [] then NaN
              else if r = [] then fl (of_nat (undec ds))
              else if hd r = 101 \<and> tl r \<noteq> [] \<and> list_all is_digit (tl r) then fl (of_nat (undec ds * 10 ^ undec (tl r))) else NaN)"

definition entity_re :: re where
  "entity_re = rseq [rchr CHR ''&'', RGroup 1 (rplus (RSet True ((35, 35) # word_ranges))), rchr CHR '';'']"

definition entity_text :: "(jsstr \<Rightarrow> jsstr) \<Rightarrow> jsstr \<Rightarrow> jsstr" where
  "entity_text lower n =
     (let n = lower n
      in if n = lit ''colon'' then lit '':''
         else if take 1 n = lit ''#'' then
           if take 1 (drop 1 n) = lit ''x'' then [fromCharCode (parseInt16 (drop 2 n))] else [fromCharCode (toNumber (drop 1 n))]
         else [])"

definition unescape :: "(jsstr \<Rightarrow> jsstr) \<Rightarrow> jsstr \<Rightarrow> jsstr" where
  "unescape lower html = replace_all entity_re False html (\<lambda>_ c. entity_text lower (case cap_at c 1 of Some n \<Rightarrow> n | None \<Rightarrow> []))"

section \<open>Typography and mangling\<close>

definition first_group :: "cu \<Rightarrow> jsstr \<Rightarrow> caps \<Rightarrow> jsstr" where
  "first_group u m c = (case cap_at c 1 of Some t \<Rightarrow> t | None \<Rightarrow> []) @ [u]"

definition opening_re :: "(nat \<times> nat) list \<Rightarrow> cu \<Rightarrow> re" where
  "opening_re extra quote =
     RSeq (RGroup 1 (RAlt RBol (RSet True ([(45, 45), (8212, 8212), (47, 47), (40, 40), (91, 91), (123, 123)] @ extra @ space_ranges)))) (runit quote)"

definition smartypants :: "options \<Rightarrow> jsstr \<Rightarrow> jsstr" where
  "smartypants opt text =
     (if \<not> use_smartypants opt then text
      else let s = replace_all (rstr ''--'') False text (const [8212]);
               s = replace_all (opening_re [(34, 34)] 39) False s (first_group 8216);
               s = replace_all (runit 39) False s (const [8217]);
               s = replace_all (opening_re [(8216, 8216)] 34) False s (first_group 8220);
               s = replace_all (runit 34) False s (const [8221])
           in replace_all (rtimes (rchr CHR ''.'') 3) False s (const [8230]))"

fun hex_text :: "nat \<Rightarrow> jsstr" where
  "hex_text n = (let d = (if n mod 16 < 10 then 48 + n mod 16 else 87 + n mod 16) in if n < 16 then [d] else hex_text (n div 16) @ [d])"

declare hex_text.simps [simp del]

text \<open>\<open>mangle\<close> starts at the \<open>k\<close>-th call of \<open>Math.random\<close> and makes one call for each code unit.\<close>

fun mangle :: "(nat \<Rightarrow> bool) \<Rightarrow> nat \<Rightarrow> jsstr \<Rightarrow> jsstr" where
  "mangle rnd k [] = []"
| "mangle rnd k (ch # text) =
     lit ''&#'' @ (if rnd k then lit ''x'' @ hex_text ch else dec ch) @ lit '';'' @ mangle rnd (Suc k) text"

section \<open>The renderer\<close>

definition render_code :: "options \<Rightarrow> jsstr \<Rightarrow> jsstr option \<Rightarrow> bool \<Rightarrow> jsstr" where
  "render_code opt code lang escaped =
     (let (code, escaped) =
            (case highlight opt of
               None \<Rightarrow> (code, escaped)
             | Some f \<Rightarrow> (case f code lang of Some out \<Rightarrow> if out \<noteq> code then (out, True) else (code, escaped) | None \<Rightarrow> (code, escaped)));
          body = (if escaped then code else escape code True)
      in case lang of
           Some (l # ls) \<Rightarrow> lit ''<pre><code class='' @ [34] @ langPrefix opt @ escape (l # ls) True @ [34] @ lit ''>'' @ body @ [10] @ lit ''</code></pre>'' @ [10]
         | _ \<Rightarrow> lit ''<pre><code>'' @ body @ [10] @ lit ''</code></pre>'')"

definition render_blockquote :: "jsstr \<Rightarrow> jsstr" where
  "render_blockquote quote = lit ''<blockquote>'' @ [10] @ quote @ lit ''</blockquote>'' @ [10]"

definition render_html :: "jsstr \<Rightarrow> jsstr" where
  "render_html html = html"

definition render_heading :: "options \<Rightarrow> jsstr \<Rightarrow> nat \<Rightarrow> jsstr \<Rightarrow> jsstr" where
  "render_heading opt text level raw =
     lit ''<h'' @ dec level @ lit '' id='' @ [34] @ headerPrefix opt @
     replace_all (rplus (RSet False word_ranges)) False (toLowerCase opt raw) (const (lit ''-'')) @ [34] @ lit ''>'' @ text @
     lit ''</h'' @ dec level @ lit ''>'' @ [10]"

definition render_hr :: "options \<Rightarrow> jsstr" where
  "render_hr opt = (if xhtml opt then lit ''<hr/>'' else lit ''<hr>'') @ [10]"

definition render_list :: "jsstr \<Rightarrow> bool \<Rightarrow> jsstr" where
  "render_list body ordered =
     (let type = (if ordered then lit ''ol'' else lit ''ul'')
      in lit ''<'' @ type @ lit ''>'' @ [10] @ body @ lit ''</'' @ type @ lit ''>'' @ [10])"

definition render_listitem :: "jsstr \<Rightarrow> jsstr" where
  "render_listitem text = lit ''<li>'' @ text @ lit ''</li>'' @ [10]"

definition render_paragraph :: "jsstr \<Rightarrow> jsstr" where
  "render_paragraph text = lit ''<p>'' @ text @ lit ''</p>'' @ [10]"

definition render_table :: "jsstr \<Rightarrow> jsstr \<Rightarrow> jsstr" where
  "render_table header body =
     lit ''<table>'' @ [10] @ lit ''<thead>'' @ [10] @ header @ lit ''</thead>'' @ [10] @ lit ''<tbody>'' @ [10] @ body @
     lit ''</tbody>'' @ [10] @ lit ''</table>'' @ [10]"

definition render_tablerow :: "jsstr \<Rightarrow> jsstr" where
  "render_tablerow content = lit ''<tr>'' @ [10] @ content @ lit ''</tr>'' @ [10]"

definition render_tablecell :: "jsstr \<Rightarrow> bool \<Rightarrow> jsstr option \<Rightarrow> jsstr" where
  "render_tablecell content header align =
     (let type = (if header then lit ''th'' else lit ''td'');
          tag = (case align of
                   Some a \<Rightarrow> lit ''<'' @ type @ lit '' style='' @ [34] @ lit ''text-align:'' @ a @ [34] @ lit ''>''
                 | None \<Rightarrow> lit ''<'' @ type @ lit ''>'')
      in tag @ content @ lit ''</'' @ type @ lit ''>'' @ [10])"

definition render_strong :: "jsstr \<Rightarrow> jsstr" where
  "render_strong text = lit ''<strong>'' @ text @ lit ''</strong>''"

definition render_em :: "jsstr \<Rightarrow> jsstr" where
  "render_em text = lit ''<em>'' @ text @ lit ''</em>''"

definition render_codespan :: "jsstr \<Rightarrow> jsstr" where
  "render_codespan text = lit ''<code>'' @ text @ lit ''</code>''"

definition render_br :: "options \<Rightarrow> jsstr" where
  "render_br opt = (if xhtml opt then lit ''<br/>'' else lit ''<br>'')"

definition render_del :: "jsstr \<Rightarrow> jsstr" where
  "render_del text = lit ''<del>'' @ text @ lit ''</del>''"

text \<open>The protocol of a link, for the check against scripts.\<close>

definition link_protocol :: "options \<Rightarrow> jsstr \<Rightarrow> jsstr res" where
  "link_protocol opt href =
     bindR (decodeURIComponent (unescape (toLowerCase opt) href)) (\<lambda>s.
       Inr (toLowerCase opt (replace_all (RSet False (word_ranges @ [(58, 58)])) False s (const []))))"

definition title_attr :: "jsstr option \<Rightarrow> jsstr" where
  "title_attr title = (case title of Some (c # cs) \<Rightarrow> lit '' title='' @ [34] @ (c # cs) @ [34] | _ \<Rightarrow> [])"

definition render_link :: "options \<Rightarrow> jsstr \<Rightarrow> jsstr option \<Rightarrow> jsstr \<Rightarrow> jsstr" where
  "render_link opt href title text =
     (let out = lit ''<a href='' @ [34] @ href @ [34] @ title_attr title @ lit ''>'' @ text @ lit ''</a>''
      in if sanitize opt then
           case link_protocol opt href of
             Inl _ \<Rightarrow> []
           | Inr prot \<Rightarrow> if index_of prot (lit ''javascript:'') = Some 0 then [] else out
         else out)"

definition render_image :: "options \<Rightarrow> jsstr \<Rightarrow> jsstr option \<Rightarrow> jsstr \<Rightarrow> jsstr" where
  "render_image opt href title text =
     lit ''<img src='' @ [34] @ href @ [34] @ lit '' alt='' @ [34] @ text @ [34] @ title_attr title @ (if xhtml opt then lit ''/>'' else lit ''>'')"

end
