(* ===== verification/Marked_Inline.thy ===== *)
theory Marked_Inline
  imports Marked_Text
begin

text \<open>
  The inline lexer of marked.js: the patterns of the four grammars and \<open>InlineLexer.output\<close>, which cuts the
  text with the first pattern that matches and renders what it cut.  The loop and its recursion into
  groups end because every pattern consumes at least one code unit and every group it recurses into is
  shorter than the match; both are computed from the patterns.
\<close>

section \<open>The grammars\<close>

abbreviation rlazy :: "re \<Rightarrow> re" where "rlazy r \<equiv> RRep r 0 None False"
abbreviation rlazyp :: "re \<Rightarrow> re" where "rlazyp r \<equiv> RRep r 1 None False"
abbreviation rany :: re where "rany \<equiv> RSet False []"
abbreviation rnospace :: re where "rnospace \<equiv> RSet False space_ranges"
abbreviation rone :: "nat list \<Rightarrow> re" where "rone us \<equiv> RSet True (map (\<lambda>u. (u, u)) us)"
abbreviation rnot :: "nat list \<Rightarrow> re" where "rnot us \<equiv> RSet False (map (\<lambda>u. (u, u)) us)"

text \<open>\<open>inline.breaks\<close> extends \<open>inline.gfm\<close>, which extends \<open>inline.normal\<close>, as does \<open>inline.pedantic\<close>.  A rule that is
  \<open>noop\<close> is \<open>None\<close>.\<close>

datatype grammar = Normal | Pedantic | Gfm | Breaks

definition is_gfm :: "grammar \<Rightarrow> bool" where
  "is_gfm g \<longleftrightarrow> g = Gfm \<or> g = Breaks"

definition escape_rule :: "grammar \<Rightarrow> re" where
  "escape_rule g = rseq [RBol, runit 92, RGroup 1 (rone ([92, 96, 42, 123, 125, 91, 93, 40, 41, 35, 43, 45, 46, 33, 95, 62] @ (if is_gfm g then [126, 124] else [])))]"

definition autolink_rule :: re where
  "autolink_rule = rseq [RBol, rchr CHR ''<'', RGroup 1 (rseq [rplus (rnot [32, 62]), RGroup 2 (RAlt (rchr CHR ''@'') (rstr '':/'')), rplus (rnot [32, 62])]), rchr CHR ''>'']"

definition url_rule :: "grammar \<Rightarrow> re option" where
  "url_rule g =
     (if is_gfm g
      then Some (RSeq RBol (RGroup 1 (rseq [rstr ''http'', ropt (rchr CHR ''s''), rstr ''://'', rplus (RSet False (space_ranges @ [(60, 60)])),
        RSet False (map (\<lambda>u. (u, u)) [60, 46, 44, 58, 59, 34, 39, 41, 93] @ space_ranges)])))
      else None)"

definition attributes_re :: re where
  "attributes_re = rlazy (ralts [rseq [runit 34, rstar (rnot [34]), runit 34], rseq [runit 39, rstar (rnot [39]), runit 39], rnot [39, 34, 62]])"

definition tag_rule :: re where
  "tag_rule = RAlt (rseq [RBol, rstr ''<!--'', rlazy rany, rstr ''-->''])
     (rseq [RBol, rchr CHR ''<'', ropt (rchr CHR ''/''), rplus rword, attributes_re, rchr CHR ''>''])"

definition inside_re :: re where
  "inside_re = rstar (ralts [rseq [runit 91, rstar (rnot [93]), runit 93], rnot [91, 93], RSeq (runit 93) (RLook True (RSeq (rstar (rnot [91])) (runit 93)))])"

definition href_re :: re where
  "href_re = rseq [rstar rspace, ropt (rchr CHR ''<''), RGroup 2 (rlazy rany), ropt (rchr CHR ''>''),
     ropt (rseq [rplus rspace, rone [39, 34], RGroup 3 (rlazy rany), rone [39, 34]]), rstar rspace]"

definition link_rule :: re where
  "link_rule = rseq [RBol, ropt (rchr CHR ''!''), runit 91, RGroup 1 inside_re, runit 93, runit 40, href_re, runit 41]"

definition reflink_rule :: re where
  "reflink_rule = rseq [RBol, ropt (rchr CHR ''!''), runit 91, RGroup 1 inside_re, runit 93, rstar rspace, runit 91, RGroup 2 (rstar (rnot [93])), runit 93]"

definition nolink_rule :: re where
  "nolink_rule = rseq [RBol, ropt (rchr CHR ''!''), runit 91, RGroup 1 (rstar (RAlt (rseq [runit 91, rstar (rnot [93]), runit 93]) (rnot [91, 93]))), runit 93]"

definition strong_rule :: "grammar \<Rightarrow> re" where
  "strong_rule g =
     (if g = Pedantic
      then RAlt (rseq [RBol, rstr ''__'', RLook True rnospace, RGroup 1 (RSeq (rlazy rany) rnospace), rstr ''__'', RLook False (rchr CHR ''_'')])
                (rseq [RBol, rstr ''**'', RLook True rnospace, RGroup 2 (RSeq (rlazy rany) rnospace), rstr ''**'', RLook False (rchr CHR ''*'')])
      else RAlt (rseq [RBol, rstr ''__'', RGroup 1 (rlazyp rany), rstr ''__'', RLook False (rchr CHR ''_'')])
                (rseq [RBol, rstr ''**'', RGroup 2 (rlazyp rany), rstr ''**'', RLook False (rchr CHR ''*'')]))"

definition em_rule :: "grammar \<Rightarrow> re" where
  "em_rule g =
     (if g = Pedantic
      then RAlt (rseq [RBol, rchr CHR ''_'', RLook True rnospace, RGroup 1 (RSeq (rlazy rany) rnospace), rchr CHR ''_'', RLook False (rchr CHR ''_'')])
                (rseq [RBol, rchr CHR ''*'', RLook True rnospace, RGroup 2 (RSeq (rlazy rany) rnospace), rchr CHR ''*'', RLook False (rchr CHR ''*'')])
      else RAlt (rseq [RBol, RWordB True, rchr CHR ''_'', RGroup 1 (rlazyp (RAlt (rstr ''__'') rany)), rchr CHR ''_'', RWordB True])
                (rseq [RBol, rchr CHR ''*'', RGroup 2 (rlazyp (RAlt (rstr ''**'') rany)), rchr CHR ''*'', RLook False (rchr CHR ''*'')]))"

definition code_rule :: re where
  "code_rule = rseq [RBol, RGroup 1 (rplus (runit 96)), rstar rspace, RGroup 2 (RSeq (rlazy rany) (rnot [96])), rstar rspace, RBack 1, RLook False (runit 96)]"

definition break_spaces :: "grammar \<Rightarrow> re" where
  "break_spaces g = RSeq (if g = Breaks then rstar (runit 32) else RRep (runit 32) 2 None True) (runit 10)"

definition br_rule :: "grammar \<Rightarrow> re" where
  "br_rule g = rseq [RBol, break_spaces g, RLook False (RSeq (rstar rspace) REol)]"

definition del_rule :: "grammar \<Rightarrow> re option" where
  "del_rule g =
     (if is_gfm g then Some (rseq [RBol, rstr ''~~'', RLook True rnospace, RGroup 1 (RSeq (rlazy rany) rnospace), rstr ''~~'']) else None)"

definition text_rule :: "grammar \<Rightarrow> re" where
  "text_rule g = rseq [RBol, rlazyp rany, RLook True (ralts
     ([rone ([92, 60, 33, 91, 95, 42, 96] @ (if is_gfm g then [126] else []))] @
      (if is_gfm g then [rseq [rstr ''http'', ropt (rchr CHR ''s''), rstr ''://'']] else []) @
      [break_spaces g, REol]))]"

section \<open>Cutting\<close>

text \<open>\<open>cap = rule.exec(src)\<close>: the text of the match and the groups.\<close>

definition cut :: "re \<Rightarrow> jsstr \<Rightarrow> (jsstr \<times> caps) option" where
  "cut r src = (case exec_from r False src 0 of None \<Rightarrow> None | Some (i, j, c) \<Rightarrow> Some (take (j - i) (drop i src), c))"

definition cut_opt :: "re option \<Rightarrow> jsstr \<Rightarrow> (jsstr \<times> caps) option" where
  "cut_opt r src = (case r of None \<Rightarrow> None | Some r \<Rightarrow> cut r src)"

text \<open>A group as a string; \<open>a || b\<close> on groups.\<close>

definition grp :: "caps \<Rightarrow> nat \<Rightarrow> jsstr" where
  "grp c n = (case cap_at c n of Some t \<Rightarrow> t | None \<Rightarrow> [])"

definition grp_or :: "caps \<Rightarrow> nat \<Rightarrow> nat \<Rightarrow> jsstr" where
  "grp_or c m n = (if grp c m \<noteq> [] then grp c m else grp c n)"

lemma cut_bounds:
  assumes "cut r src = Some (m, c)" "wf_re r"
  shows "min_len r \<le> length m" "length m \<le> length src" "\<And>n. look_free n r \<Longrightarrow> slack n r \<le> min_len r \<Longrightarrow> length (grp c n) + slack n r \<le> length m"
proof -
  obtain i j where e: "exec_from r False src 0 = Some (i, j, c)" "m = take (j - i) (drop i src)"
    using assms(1) by (auto simp: cut_def split: option.splits)
  from exec_from_bounds [OF e(1)] have b: "i \<le> j" "j \<le> length src" "match_at r False src i = Some (j, c)" by auto
  have m: "length m = j - i" using e(2) b by simp
  have "i + min_len r \<le> j" using match_min_len [OF b(3) _ assms(2)] b by simp
  with m show min: "min_len r \<le> length m" and "length m \<le> length src" using b by auto
  show "length (grp c n) + slack n r \<le> length m" if "look_free n r" "slack n r \<le> min_len r" for n
  proof (cases "cap_at c n")
    case None
    then show ?thesis using min that by (simp add: grp_def)
  next
    case (Some t)
    then show ?thesis using match_slack [OF b(3) _ assms(2) that(1) Some] b m by (simp add: grp_def)
  qed
qed

section \<open>One round of the loop\<close>

text \<open>The state between rounds: whether the text is inside a link, and the number of calls of
  \<open>Math.random\<close> so far.\<close>

record istate =
  inLink :: bool
  calls :: nat

text \<open>What a round does: it adds a piece to the output and goes on, or it first renders an inner text.\<close>

datatype istep =
    Piece jsstr istate jsstr
  | Strong jsstr jsstr
  | Em jsstr jsstr
  | Del jsstr jsstr
  | LinkTo jsstr "jsstr option" jsstr jsstr
  | Stuck

type_synonym links = "jsstr \<rightharpoonup> jsstr \<times> jsstr option"

definition grammar_of :: "options \<Rightarrow> grammar" where
  "grammar_of opt = (if gfm opt then if breaks opt then Breaks else Gfm else if pedantic opt then Pedantic else Normal)"

definition open_a_re :: re where
  "open_a_re = rseq [RBol, rchr CHR ''<'', rone [97, 65], runit 32]"

definition close_a_re :: re where
  "close_a_re = rseq [RBol, rstr ''</'', rone [97, 65], rchr CHR ''>'']"

definition autolink_step :: "options \<Rightarrow> caps \<Rightarrow> istate \<Rightarrow> jsstr \<Rightarrow> istep" where
  "autolink_step opt c st rest =
     (if grp c 2 = lit ''@'' then
        let addr = (if take 1 (drop 6 (grp c 1)) = lit '':'' then drop 7 (grp c 1) else grp c 1);
            text = mangle (random opt) (calls st) addr;
            href = mangle (random opt) (calls st + length addr) (lit ''mailto:'') @ text
        in Piece (render_link opt href None text) (st\<lparr>calls := calls st + length addr + 7\<rparr>) rest
      else
        let text = escape (grp c 1) False in Piece (render_link opt text None text) st rest)"

definition tag_step :: "options \<Rightarrow> jsstr \<Rightarrow> istate \<Rightarrow> jsstr \<Rightarrow> istep" where
  "tag_step opt m st rest =
     (let st' = (if \<not> inLink st \<and> re_test open_a_re m then st\<lparr>inLink := True\<rparr>
                 else if inLink st \<and> re_test close_a_re m then st\<lparr>inLink := False\<rparr> else st)
      in Piece (if sanitize opt then escape m False else m) st' rest)"

text \<open>\<open>outputLink\<close>: an image when the text begins with an exclamation mark.  A title that is missing or
  empty is \<open>null\<close>.\<close>

definition outputLink :: "options \<Rightarrow> jsstr \<Rightarrow> caps \<Rightarrow> jsstr \<Rightarrow> jsstr option \<Rightarrow> istate \<Rightarrow> jsstr \<Rightarrow> istep" where
  "outputLink opt m c href title st rest =
     (let href' = escape href False;
          title' = (case title of Some (t # ts) \<Rightarrow> Some (escape (t # ts) False) | _ \<Rightarrow> None)
      in if take 1 m \<noteq> lit ''!'' then LinkTo href' title' (grp c 1) rest
         else Piece (render_image opt href' title' (escape (grp c 1) False)) (st\<lparr>inLink := False\<rparr>) rest)"

definition reflink_step :: "options \<Rightarrow> links \<Rightarrow> jsstr \<Rightarrow> caps \<Rightarrow> istate \<Rightarrow> jsstr \<Rightarrow> istep" where
  "reflink_step opt links m c st rest =
     (case links (toLowerCase opt (replace_all (rplus rspace) False (grp_or c 2 1) (const (lit '' '')))) of
        Some (h # hs, title) \<Rightarrow> outputLink opt m c (h # hs) title st rest
      | _ \<Rightarrow> Piece (take 1 m) st (drop 1 m @ rest))"

text \<open>The rules in the order of the code.\<close>

definition inline_step :: "options \<Rightarrow> links \<Rightarrow> jsstr \<Rightarrow> istate \<Rightarrow> istep" where
  "inline_step opt links src st =
     (let g = grammar_of opt; rest = (\<lambda>m. drop (length m) src)
      in case cut (escape_rule g) src of Some (m, c) \<Rightarrow> Piece (grp c 1) st (rest m)
       | None \<Rightarrow> (case cut autolink_rule src of Some (m, c) \<Rightarrow> autolink_step opt c st (rest m)
       | None \<Rightarrow> (case if inLink st then None else cut_opt (url_rule g) src of
           Some (m, c) \<Rightarrow> let text = escape (grp c 1) False in Piece (render_link opt text None text) st (rest m)
       | None \<Rightarrow> (case cut tag_rule src of Some (m, c) \<Rightarrow> tag_step opt m st (rest m)
       | None \<Rightarrow> (case cut link_rule src of Some (m, c) \<Rightarrow> outputLink opt m c (grp c 2) (cap_at c 3) st (rest m)
       | None \<Rightarrow> (case cut reflink_rule src of Some (m, c) \<Rightarrow> reflink_step opt links m c st (rest m)
       | None \<Rightarrow> (case cut nolink_rule src of Some (m, c) \<Rightarrow> reflink_step opt links m c st (rest m)
       | None \<Rightarrow> (case cut (strong_rule g) src of Some (m, c) \<Rightarrow> Strong (grp_or c 2 1) (rest m)
       | None \<Rightarrow> (case cut (em_rule g) src of Some (m, c) \<Rightarrow> Em (grp_or c 2 1) (rest m)
       | None \<Rightarrow> (case cut code_rule src of Some (m, c) \<Rightarrow> Piece (render_codespan (escape (grp c 2) True)) st (rest m)
       | None \<Rightarrow> (case cut (br_rule g) src of Some (m, c) \<Rightarrow> Piece (render_br opt) st (rest m)
       | None \<Rightarrow> (case cut_opt (del_rule g) src of Some (m, c) \<Rightarrow> Del (grp c 1) (rest m)
       | None \<Rightarrow> (case cut (text_rule g) src of Some (m, c) \<Rightarrow> Piece (escape (smartypants opt m) False) st (rest m)
       | None \<Rightarrow> Stuck)))))))))))))"

section \<open>The loop\<close>

lemmas rule_defs = escape_rule_def autolink_rule_def url_rule_def attributes_re_def tag_rule_def inside_re_def href_re_def link_rule_def
  reflink_rule_def nolink_rule_def strong_rule_def em_rule_def code_rule_def break_spaces_def br_rule_def del_rule_def text_rule_def is_gfm_def

text \<open>Every rule consumes something, and the groups that are rendered in turn are shorter than the match.\<close>

lemma rules_consume:
  "wf_re (escape_rule g) \<and> 0 < min_len (escape_rule g)" "wf_re autolink_rule \<and> 0 < min_len autolink_rule"
  "url_rule g = Some r \<Longrightarrow> wf_re r \<and> 0 < min_len r" "wf_re tag_rule \<and> 0 < min_len tag_rule"
  "wf_re link_rule \<and> 0 < min_len link_rule" "wf_re reflink_rule \<and> 0 < min_len reflink_rule"
  "wf_re nolink_rule \<and> 0 < min_len nolink_rule" "wf_re (strong_rule g) \<and> 0 < min_len (strong_rule g)"
  "wf_re (em_rule g) \<and> 0 < min_len (em_rule g)" "wf_re code_rule \<and> 0 < min_len code_rule"
  "wf_re (br_rule g) \<and> 0 < min_len (br_rule g)" "del_rule g = Some r \<Longrightarrow> wf_re r \<and> 0 < min_len r"
  "wf_re (text_rule g) \<and> 0 < min_len (text_rule g)"
  by (auto simp: rule_defs split: if_splits)

lemma groups_shorter:
  "look_free 1 link_rule \<and> slack 1 link_rule = 4 \<and> 4 \<le> min_len link_rule"
  "look_free 1 reflink_rule \<and> slack 1 reflink_rule = 4 \<and> 4 \<le> min_len reflink_rule"
  "look_free 1 nolink_rule \<and> slack 1 nolink_rule = 2 \<and> 2 \<le> min_len nolink_rule"
  "n \<in> {1, 2} \<Longrightarrow> look_free n (strong_rule g) \<and> slack n (strong_rule g) = 4 \<and> 4 \<le> min_len (strong_rule g)"
  "n \<in> {1, 2} \<Longrightarrow> look_free n (em_rule g) \<and> slack n (em_rule g) = 2 \<and> 2 \<le> min_len (em_rule g)"
  "del_rule g = Some r \<Longrightarrow> look_free 1 r \<and> slack 1 r = 4 \<and> 4 \<le> min_len r"
  by (auto simp: rule_defs split: if_splits)

lemma cut_rest:
  assumes "cut r src = Some (m, c)" "wf_re r \<and> 0 < min_len r"
  shows "length (drop (length m) src) < length src" "0 < length m" "length m \<le> length src"
  using cut_bounds(1,2) [OF assms(1)] assms(2) by auto

lemma cut_group:
  assumes "cut r src = Some (m, c)" "wf_re r \<and> 0 < min_len r" "look_free n r \<and> slack n r = k \<and> k \<le> min_len r" "0 < k"
  shows "length (grp c n) < length src"
  using cut_bounds [OF assms(1)] assms(2-4) by fastforce

primrec step_shrinks :: "nat \<Rightarrow> istep \<Rightarrow> bool" where
  "step_shrinks n (Piece o' st rest) = (length rest < n)"
| "step_shrinks n (Strong t rest) = (length t < n \<and> length rest < n)"
| "step_shrinks n (Em t rest) = (length t < n \<and> length rest < n)"
| "step_shrinks n (Del t rest) = (length t < n \<and> length rest < n)"
| "step_shrinks n (LinkTo h ti t rest) = (length t < n \<and> length rest < n)"
| "step_shrinks n Stuck = True"

lemma step_shrinks_parts:
  "step_shrinks n (autolink_step opt c st rest) \<longleftrightarrow> length rest < n"
  "step_shrinks n (tag_step opt m st rest) \<longleftrightarrow> length rest < n"
  "length (grp c 1) < n \<Longrightarrow> length rest < n \<Longrightarrow> step_shrinks n (outputLink opt m c h ti st rest)"
  "length (grp c 1) < n \<Longrightarrow> length rest < n \<Longrightarrow> length m - 1 + length rest < n \<Longrightarrow> step_shrinks n (reflink_step opt links m c st rest)"
  by (auto simp: autolink_step_def tag_step_def outputLink_def reflink_step_def Let_def split: option.split list.split)

lemma step_shrinks_case:
  assumes "\<And>m c. x = Some (m, c) \<Longrightarrow> step_shrinks n (f m c)" "step_shrinks n k"
  shows "step_shrinks n (case x of Some (m, c) \<Rightarrow> f m c | None \<Rightarrow> k)"
  using assms by (auto split: option.split)

lemma length_grp_or: "length (grp c m) < n \<Longrightarrow> length (grp c m') < n \<Longrightarrow> length (grp_or c m m') < n"
  by (simp add: grp_or_def)

lemma inline_step_shrinks: "step_shrinks (length src) (inline_step opt links src st)"
proof -
  define g where "g = grammar_of opt"
  have ref: "step_shrinks (length src) (reflink_step opt links m c st (drop (length m) src))"
    if "cut r src = Some (m, c)" "wf_re r \<and> 0 < min_len r" "look_free 1 r \<and> slack 1 r = k \<and> k \<le> min_len r" "0 < k" for r m c k
    using cut_rest [OF that(1,2)] cut_group [OF that] by (intro step_shrinks_parts) auto
  have piece: "step_shrinks (length src) (Piece x y (drop (length m) src))" if "cut r src = Some (m, c)" "wf_re r \<and> 0 < min_len r" for r m c x y
    using cut_rest [OF that] by simp
  have opt: "\<exists>r. x = Some r \<and> cut r src = Some (m, c)" if "cut_opt x src = Some (m, c)" for x m c
    using that by (auto simp: cut_opt_def split: option.splits)
  show ?thesis
    unfolding inline_step_def Let_def g_def [symmetric]
  proof (intro step_shrinks_case, goal_cases)
    case (1 m c) then show ?case using piece rules_consume(1) by blast
  next
    case (2 m c) then show ?case using cut_rest(1) [OF 2 rules_consume(2)] by (simp add: step_shrinks_parts)
  next
    case (3 m c) then show ?case using opt piece rules_consume(3) by (metis option.distinct(1))
  next
    case (4 m c) then show ?case using cut_rest(1) [OF 4 rules_consume(4)] by (simp add: step_shrinks_parts)
  next
    case (5 m c) then show ?case
      using cut_rest(1) [OF 5 rules_consume(5)] cut_group [OF 5 rules_consume(5) groups_shorter(1)] by (intro step_shrinks_parts(3)) simp_all
  next
    case (6 m c) then show ?case by (rule ref [OF _ rules_consume(6) groups_shorter(2)]) simp
  next
    case (7 m c) then show ?case by (rule ref [OF _ rules_consume(7) groups_shorter(3)]) simp
  next
    case (8 m c) then show ?case
      using cut_rest(1) [OF 8 rules_consume(8)] cut_group [OF 8 rules_consume(8) groups_shorter(4), of 1] cut_group [OF 8 rules_consume(8) groups_shorter(4), of 2]
      by (simp add: length_grp_or)
  next
    case (9 m c) then show ?case
      using cut_rest(1) [OF 9 rules_consume(9)] cut_group [OF 9 rules_consume(9) groups_shorter(5), of 1] cut_group [OF 9 rules_consume(9) groups_shorter(5), of 2]
      by (simp add: length_grp_or)
  next
    case (10 m c) then show ?case using piece rules_consume(10) by blast
  next
    case (11 m c) then show ?case using piece rules_consume(11) by blast
  next
    case (12 m c)
    then obtain r where r: "del_rule g = Some r" "cut r src = Some (m, c)" using opt by blast
    show ?case using cut_rest(1) [OF r(2) rules_consume(12) [OF r(1)]] cut_group [OF r(2) rules_consume(12) [OF r(1)] groups_shorter(6) [OF r(1)]] by simp
  next
    case (13 m c) then show ?case using piece rules_consume(13) by blast
  qed simp
qed

lemma inline_step_lengths:
  "inline_step opt links src st = Piece o' st' rest \<Longrightarrow> length rest < length src"
  "inline_step opt links src st = Strong t rest \<Longrightarrow> length t < length src \<and> length rest < length src"
  "inline_step opt links src st = Em t rest \<Longrightarrow> length t < length src \<and> length rest < length src"
  "inline_step opt links src st = Del t rest \<Longrightarrow> length t < length src \<and> length rest < length src"
  "inline_step opt links src st = LinkTo h ti t rest \<Longrightarrow> length t < length src \<and> length rest < length src"
  using inline_step_shrinks [of src opt links st] by simp_all

text \<open>The loop of \<open>output\<close>.  A link is rendered with \<open>inLink\<close> set.\<close>

function inline_output :: "options \<Rightarrow> links \<Rightarrow> jsstr \<Rightarrow> istate \<Rightarrow> (jsstr \<times> istate) res" where
  "inline_output opt links src st =
     (if src = [] then Inr ([], st)
      else case inline_step opt links src st of
        Piece o' st rest \<Rightarrow> bindR (inline_output opt links rest st) (\<lambda>(out, st). Inr (o' @ out, st))
      | Strong text rest \<Rightarrow>
          bindR (inline_output opt links text st) (\<lambda>(t, st). bindR (inline_output opt links rest st) (\<lambda>(out, st). Inr (render_strong t @ out, st)))
      | Em text rest \<Rightarrow>
          bindR (inline_output opt links text st) (\<lambda>(t, st). bindR (inline_output opt links rest st) (\<lambda>(out, st). Inr (render_em t @ out, st)))
      | Del text rest \<Rightarrow>
          bindR (inline_output opt links text st) (\<lambda>(t, st). bindR (inline_output opt links rest st) (\<lambda>(out, st). Inr (render_del t @ out, st)))
      | LinkTo href title text rest \<Rightarrow>
          bindR (inline_output opt links text (st\<lparr>inLink := True\<rparr>)) (\<lambda>(t, st).
            bindR (inline_output opt links rest (st\<lparr>inLink := False\<rparr>)) (\<lambda>(out, st). Inr (render_link opt href title t @ out, st)))
      | Stuck \<Rightarrow> Inl (JSError (lit ''Infinite loop on byte: '' @ dec (hd src))))"
  by pat_completeness auto
termination
  by (relation "measure (\<lambda>(opt, links, src, st). length src)") (auto dest: inline_step_lengths)

declare inline_output.simps [simp del]

end
