(* ===== verification/Marked_Block.thy ===== *)
theory Marked_Block
  imports Marked_Inline
begin

text \<open>
  The block lexer of marked.js: the patterns of the three grammars and \<open>Lexer.token\<close>, which cuts the text
  into tokens and calls itself on the inside of quotes and list items.
\<close>

section \<open>The grammars\<close>

text \<open>\<open>block.tables\<close> extends \<open>block.gfm\<close>, which extends \<open>block.normal\<close>.\<close>

datatype block_grammar = BNormal | BGfm | BTables

abbreviation rsp :: re where "rsp \<equiv> runit 32"
abbreviation rnl :: re where "rnl \<equiv> runit 10"
abbreviation rline :: re where "rline \<equiv> rnot [10]"
abbreviation rnls_end :: re where "rnls_end \<equiv> RAlt (rplus rnl) REol"
abbreviation rspaces_end :: re where "rspaces_end \<equiv> RSeq (rstar rspace) REol"

definition newline_rule :: re where
  "newline_rule = RSeq RBol (rplus rnl)"

definition code_block_rule :: re where
  "code_block_rule = RSeq RBol (rplus (RGroup 1 (rseq [rtimes rsp 4, rplus rline, rstar rnl])))"

text \<open>Patterns that \<open>replace\<close> copies into others take the number of their first group as an argument.\<close>

definition hr_re :: "nat \<Rightarrow> re" where
  "hr_re n = rseq [RRep (RGroup n (RSeq (rstar rsp) (rone [45, 42, 95]))) 3 None True, rstar rsp, rnls_end]"

definition heading_re :: "nat \<Rightarrow> re" where
  "heading_re n = rseq [rstar rsp, RGroup n (RRep (runit 35) 1 (Some 6) True), rstar rsp, RGroup (n + 1) (rlazyp rline), rstar rsp, rstar (runit 35), rstar rsp, rnls_end]"

definition lheading_re :: "nat \<Rightarrow> re" where
  "lheading_re n = rseq [RGroup n (rplus rline), rnl, rstar rsp, RRep (RGroup (n + 1) (RAlt (runit 61) (runit 45))) 2 None True, rstar rsp, rnls_end]"

definition def_re :: "nat \<Rightarrow> re" where
  "def_re n = rseq [rstar rsp, runit 91, RGroup n (rplus (rnot [93])), runit 93, runit 58, rstar rsp, ropt (runit 60),
     RGroup (n + 1) (rplus (RSet False (space_ranges @ [(62, 62)]))), ropt (runit 62),
     ropt (rseq [rplus rsp, rone [34, 40], RGroup (n + 2) (rplus rline), rone [34, 41]]), rstar rsp, rnls_end]"

definition blockquote_re :: "nat \<Rightarrow> re" where
  "blockquote_re n = rplus (RGroup n (rseq [rstar rsp, runit 62, rplus rline,
     rstar (RGroup (n + 1) (rseq [rnl, RLook False (def_re (n + 2)), rplus rline])), rstar rnl]))"

definition bullet_re :: re where
  "bullet_re = RAlt (rone [42, 43, 45]) (RSeq (rplus rdigit) (runit 46))"

definition fences_re :: "nat \<Rightarrow> re" where
  "fences_re n = rseq [rstar rsp, RGroup n (RAlt (RRep (runit 96) 3 None True) (RRep (runit 126) 3 None True)), rstar rsp, ropt (RGroup (n + 1) (rplus rnospace)), rstar rsp, rnl,
     RGroup (n + 2) (rlazyp rany), rstar rspace, RBack n, rstar rsp, rnls_end]"

text \<open>The back references of the pattern for lists are arguments too: the copy in the paragraph of the
  grammar \<open>gfm\<close> has only the first of them changed.\<close>

definition list_re :: "nat \<Rightarrow> nat \<Rightarrow> nat \<Rightarrow> re" where
  "list_re n back1 back2 = rseq [RGroup n (rstar rsp), RGroup (n + 1) bullet_re, rsp, rlazyp rany, ralts
     [RSeq (rplus rnl) (RLook True (rseq [ropt (RBack back1), RRep (RSeq (rone [45, 42, 95]) (rstar rsp)) 3 None True, rnls_end])),
      RSeq (rplus rnl) (RLook True (def_re (n + 2))),
      rseq [RRep rnl 2 None True, RLook False rsp, RLook False (rseq [RBack back2, bullet_re, rsp]), rstar rnl],
      rspaces_end]]"

definition hr_rule :: re where "hr_rule = RSeq RBol (hr_re 1)"
definition heading_rule :: re where "heading_rule = RSeq RBol (heading_re 1)"
definition lheading_rule :: re where "lheading_rule = RSeq RBol (lheading_re 1)"
definition def_rule :: re where "def_rule = RSeq RBol (def_re 1)"
definition blockquote_rule :: re where "blockquote_rule = RSeq RBol (blockquote_re 1)"
definition list_rule :: re where "list_rule = RSeq RBol (list_re 1 1 1)"

definition fences_rule :: "block_grammar \<Rightarrow> re option" where
  "fences_rule g = (if g = BNormal then None else Some (RSeq RBol (fences_re 1)))"

definition item_rule :: re where
  "item_rule = rseq [RBol, RGroup 1 (rstar rsp), RGroup 2 bullet_re, rsp, rstar rline,
     rstar (rseq [rnl, RLook False (rseq [RBack 1, bullet_re, rsp]), rstar rline])]"

definition inline_tags :: "string list" where
  "inline_tags = [''a'', ''em'', ''strong'', ''small'', ''s'', ''cite'', ''q'', ''dfn'', ''abbr'', ''data'', ''time'', ''code'',
     ''var'', ''samp'', ''kbd'', ''sub'', ''sup'', ''i'', ''b'', ''u'', ''mark'', ''ruby'', ''rt'', ''rp'', ''bdi'', ''bdo'',
     ''span'', ''br'', ''wbr'', ''ins'', ''del'', ''img'']"

definition tag_re :: re where
  "tag_re = rseq [RLook False (RSeq (ralts (map rstr inline_tags)) (RWordB True)), rplus rword,
     RLook False (RAlt (rstr '':/'') (RSeq (rstar (RSet False (word_ranges @ space_ranges @ [(64, 64)]))) (runit 64))), RWordB True]"

definition html_rule :: re where
  "html_rule = rseq [RBol, rstar rsp, ralts
     [rseq [rstr ''<!--'', rlazy rany, rstr ''-->'', rstar rsp, RAlt rnl rspaces_end],
      rseq [runit 60, RGroup 1 tag_re, rlazyp rany, rstr ''</'', RBack 1, runit 62, rstar rsp, RAlt (RRep rnl 2 None True) rspaces_end],
      rseq [runit 60, tag_re, attributes_re, runit 62, rstar rsp, RAlt (RRep rnl 2 None True) rspaces_end]]]"

definition paragraph_rule :: "block_grammar \<Rightarrow> re" where
  "paragraph_rule g =
     (let n = (if g = BNormal then 2 else 10)
      in rseq [RBol, RGroup 1 (rplus (rseq [rplus rline, ropt rnl, RLook False (ralts
           ((if g = BNormal then [] else [fences_re 2, list_re 5 3 1]) @
            [hr_re n, heading_re (n + 1), lheading_re (n + 3), blockquote_re (n + 5), RSeq (runit 60) tag_re, def_re (n + 10)]))])), rstar rnl])"

definition text_block_rule :: re where
  "text_block_rule = RSeq RBol (rplus rline)"

definition nptable_rule :: "block_grammar \<Rightarrow> re option" where
  "nptable_rule g =
     (if g = BTables
      then Some (rseq [RBol, rstar rsp, RGroup 1 (rseq [rnospace, rstar rdot, runit 124, rstar rdot]), rnl, rstar rsp,
        RGroup 2 (rseq [rplus (rone [45, 58]), rstar rsp, runit 124, rstar (rone [45, 124, 32, 58])]), rnl,
        RGroup 3 (rstar (rseq [rstar rdot, runit 124, rstar rdot, RAlt rnl REol])), rstar rnl])
      else None)"

definition table_rule :: "block_grammar \<Rightarrow> re option" where
  "table_rule g =
     (if g = BTables
      then Some (rseq [RBol, rstar rsp, runit 124, RGroup 1 (rplus rdot), rnl, rstar rsp, runit 124,
        RGroup 2 (rseq [rstar rsp, rplus (rone [45, 58]), rstar (rone [45, 124, 32, 58])]), rnl,
        RGroup 3 (rstar (rseq [rstar rsp, runit 124, rstar rdot, RAlt rnl REol])), rstar rnl])
      else None)"

definition block_grammar_of :: "options \<Rightarrow> block_grammar" where
  "block_grammar_of opt = (if gfm opt then if gfm_tables opt then BTables else BGfm else BNormal)"

section \<open>Tokens\<close>

text \<open>The last argument of \<open>Code\<close> is the flag \<open>escaped\<close>, which a highlighter sets.\<close>

datatype token =
    Space
  | Code jsstr "jsstr option" bool
  | Heading nat jsstr
  | Table "jsstr list" "jsstr option list" "jsstr list list"
  | Hr
  | BlockquoteStart
  | BlockquoteEnd
  | ListStart bool
  | LooseItemStart
  | ListItemStart
  | ListItemEnd
  | ListEnd
  | Html bool jsstr
  | Paragraph jsstr
  | TextTok jsstr

section \<open>Tables\<close>

abbreviation remove :: "re \<Rightarrow> bool \<Rightarrow> jsstr \<Rightarrow> jsstr" where
  "remove r ml s \<equiv> replace_all r ml s (const [])"

definition split_at :: "re \<Rightarrow> jsstr \<Rightarrow> jsstr list" where
  "split_at r s = map (\<lambda>x. case x of Some t \<Rightarrow> t | None \<Rightarrow> []) (split_standard r False s)"

definition bar_re :: re where
  "bar_re = rseq [rstar rsp, runit 124, rstar rsp]"

definition header_edges_re :: re where
  "header_edges_re = RAlt (RSeq RBol (rstar rsp)) (RSeq bar_re REol)"

definition align_edges_re :: re where
  "align_edges_re = RAlt (RSeq RBol (rstar rsp)) (rseq [runit 124, rstar rsp, REol])"

definition row_edges_re :: re where
  "row_edges_re = RAlt (RSeq RBol bar_re) (RSeq bar_re REol)"

definition dashes_re :: "bool \<Rightarrow> bool \<Rightarrow> re" where
  "dashes_re left right =
     rseq ([RBol, rstar rsp] @ (if left then [runit 58] else []) @ [rplus (runit 45)] @ (if right then [runit 58] else []) @ [rstar rsp, REol])"

definition align_of :: "jsstr \<Rightarrow> jsstr option" where
  "align_of a =
     (if re_test (dashes_re False True) a then Some (lit ''right'')
      else if re_test (dashes_re True True) a then Some (lit ''center'')
      else if re_test (dashes_re True False) a then Some (lit ''left'')
      else None)"

text \<open>The table without and the table with a bar at the beginning of each line.\<close>

definition table_token :: "re \<Rightarrow> (jsstr \<Rightarrow> jsstr) \<Rightarrow> caps \<Rightarrow> token" where
  "table_token tail row c =
     Table (split_at bar_re (remove header_edges_re False (grp c 1)))
       (map align_of (split_at bar_re (remove align_edges_re False (grp c 2))))
       (map (\<lambda>r. split_at bar_re (row r)) (split_at rnl (replace_first tail (grp c 3) (const []))))"

definition nptable_token :: "caps \<Rightarrow> token" where
  "nptable_token = table_token (RSeq rnl REol) (\<lambda>r. r)"

definition bar_table_token :: "caps \<Rightarrow> token" where
  "bar_table_token = table_token (rseq [ropt bar_re, rnl, REol]) (remove row_edges_re False)"

section \<open>Lists\<close>

definition bullet_prefix_re :: re where
  "bullet_prefix_re = rseq [RBol, rstar rsp, RGroup 1 bullet_re, rplus rsp]"

definition outdent_re :: "nat \<Rightarrow> re" where
  "outdent_re n = RSeq RBol (RRep rsp 1 (Some n) True)"

text \<open>An item without its bullet, moved to the left.\<close>

definition item_text :: "options \<Rightarrow> jsstr \<Rightarrow> jsstr" where
  "item_text opt raw =
     (let item = replace_first bullet_prefix_re raw (const []); space = length raw - length item
      in if index_of item [10, 32] \<noteq> None then remove (outdent_re (if pedantic opt then 4 else space)) True item else item)"

definition loose_re :: re where
  "loose_re = rseq [rnl, rnl, RLook False rspaces_end]"

fun join_lines :: "jsstr list \<Rightarrow> jsstr" where
  "join_lines [] = []"
| "join_lines [x] = x"
| "join_lines (x # xs) = x @ [10] @ join_lines xs"

text \<open>With \<open>smartLists\<close> an item with another kind of bullet ends the list: it and what follows goes back to
  the text.\<close>

definition backpedal :: "options \<Rightarrow> jsstr \<Rightarrow> jsstr list \<Rightarrow> jsstr \<Rightarrow> (jsstr list \<times> jsstr) res" where
  "backpedal opt bull others src =
     (if smartLists opt \<and> others \<noteq> [] then
        case exec bullet_re (hd others) of
          None \<Rightarrow> Inl TypeError
        | Some (i, j, c) \<Rightarrow>
            if take (j - i) (drop i (hd others)) \<noteq> bull \<and> \<not> (length bull > 1 \<and> j - i > 1)
            then Inr ([], join_lines others @ src) else Inr (others, src)
      else Inr (others, src))"

text \<open>The items that are left, with the flag \<open>loose\<close> and the text of each, and the text after the list.\<close>

function list_items :: "options \<Rightarrow> jsstr \<Rightarrow> bool \<Rightarrow> jsstr list \<Rightarrow> jsstr \<Rightarrow> ((bool \<times> jsstr) list \<times> jsstr) res" where
  "list_items opt bull next items src =
     (case items of
        [] \<Rightarrow> Inr ([], src)
      | raw # others \<Rightarrow>
          let item = item_text opt raw
          in bindR (backpedal opt bull others src) (\<lambda>(others', src').
               let loose = next \<or> re_test loose_re item;
                   ends = others' \<noteq> [] \<and> item \<noteq> [] \<and> last item = 10
               in bindR (list_items opt bull ends others' src') (\<lambda>(rest, src'').
                    Inr ((loose \<or> ends, item) # rest, src''))))"
  by pat_completeness auto
termination
  by (relation "measure (\<lambda>(opt, bull, next, items, src). length items)") (auto simp: backpedal_def split: if_splits option.splits)

declare list_items.simps [simp del]

section \<open>Items of a list\<close>

text \<open>Removing matches makes a text shorter.\<close>

lemma length_remove_from: "length (replace_from r ml s (const []) p) \<le> length s - p"
proof (induction r ml s "const []" p rule: replace_from.induct)
  case (1 r ml s p)
  show ?case
  proof (cases "exec_from r ml s p")
    case None
    then show ?thesis by (subst replace_from.simps) simp
  next
    case (Some x)
    obtain i j c where x: "x = (i, j, c)" by (cases x)
    note b = exec_from_bounds [OF Some [unfolded x]]
    show ?thesis
    proof (cases "j = i")
      case True
      have "length (replace_from r ml s (const []) (Suc j)) \<le> length s - Suc j" using 1(1) [OF Some x [symmetric] refl True] by simp
      then show ?thesis using Some x True b by (subst replace_from.simps) (auto simp: const_def min_def)
    next
      case False
      have "length (replace_from r ml s (const []) j) \<le> length s - j" using 1(2) [OF Some x [symmetric] refl False] by simp
      then show ?thesis using Some x False b by (subst replace_from.simps) (auto simp: const_def)
    qed
  qed
qed

lemma length_remove: "length (remove r ml s) \<le> length s"
  using length_remove_from [of r ml s 0] by (simp add: replace_all_def)

lemma length_remove_less:
  assumes "match_at r ml s 0 = Some (j, c)" "0 < j"
  shows "length (remove r ml s) < length s"
proof -
  have e: "exec_from r ml s 0 = Some (0, j, c)" using prefix_search [OF assms(1)] .
  have "j \<le> length s" using exec_from_bounds [OF e] by simp
  moreover have "remove r ml s = replace_from r ml s (const []) j"
    unfolding replace_all_def using assms e by (subst replace_from.simps) (simp add: const_def)
  ultimately show ?thesis using length_remove_from [of r ml s j] assms(2) by simp
qed

lemma length_remove_first: 
  assumes "match_at r False s 0 = Some (j, c)"
  shows "length (replace_first r s (const [])) + j = length s"
  using prefix_search [OF assms] exec_from_bounds [of r False s 0 0 j c] by (auto simp: replace_first_def const_def)

lemma cut_bol:
  assumes "cut (RSeq RBol r) src = Some (m, c)"
  obtains j where "match_at (RSeq RBol r) False src 0 = Some (j, c)" "m = take j src" "j \<le> length src"
proof -
  obtain i j where e: "exec_from (RSeq RBol r) False src 0 = Some (i, j, c)" "m = take (j - i) (drop i src)"
    using assms by (auto simp: cut_def split: option.splits)
  from exec_from_bounds [OF e(1)] have b: "i \<le> j" "j \<le> length src" "match_at (RSeq RBol r) False src i = Some (j, c)" by auto
  then have "i = 0" by (auto simp: match_at_def at_bol_def split: if_splits)
  with b e that show thesis by simp
qed

text \<open>Where a bullet is, and where an item starts: blanks, a bullet and a blank at place \<open>j\<close>.\<close>

definition bullet_at :: "jsstr \<Rightarrow> nat \<Rightarrow> nat \<Rightarrow> bool" where
  "bullet_at s k j \<longleftrightarrow>
     (k < length s \<and> s ! k \<in> {42, 43, 45} \<and> j = Suc k) \<or>
     (\<exists>d. k < d \<and> d < length s \<and> (\<forall>x. k \<le> x \<and> x < d \<longrightarrow> is_digit (s ! x)) \<and> s ! d = 46 \<and> j = Suc d)"

definition item_start :: "jsstr \<Rightarrow> nat \<Rightarrow> nat \<Rightarrow> bool" where
  "item_start s i j \<longleftrightarrow> (\<exists>k. i \<le> k \<and> (\<forall>x. i \<le> x \<and> x < k \<longrightarrow> s ! x = 32) \<and> bullet_at s k j \<and> j < length s \<and> s ! j = 32)"

lemma bullet_at_bounds: "bullet_at s k j \<Longrightarrow> k < j \<and> j \<le> length s"
  by (auto simp: bullet_at_def)

lemma item_start_bounds: "item_start s i j \<Longrightarrow> i < j \<and> j < length s"
  by (auto simp: item_start_def dest: bullet_at_bounds)

lemma ss_bullet_iff: "k \<le> length s \<Longrightarrow> st' \<in> set (ss bullet_re ml s (k, c)) \<longleftrightarrow> (\<exists>j. st' = (j, c) \<and> bullet_at s k j)"
proof -
  assume k: "k \<le> length s"
  have one: "st' \<in> set (ss (rone [42, 43, 45]) ml s (k, c)) \<longleftrightarrow> st' = (Suc k, c) \<and> k < length s \<and> s ! k \<in> {42, 43, 45}"
    by (auto simp: in_ranges_def)
  have "st' \<in> set (ss (RSeq (rplus rdigit) (runit 46)) ml s (k, c)) \<longleftrightarrow>
      (\<exists>d. st' = (Suc d, c) \<and> k < d \<and> d < length s \<and> (\<forall>x. k \<le> x \<and> x < d \<longrightarrow> is_digit (s ! x)) \<and> s ! d = 46)"
    unfolding ss_RSeq_iff ss_rep_set_iff [OF k] Bex_def in_digit_ranges by (auto simp: in_unit_range)
  with one show ?thesis unfolding bullet_re_def ss.simps(4) set_append Un_iff by (auto simp: bullet_at_def)
qed

lemma item_prefix_sound:
  assumes "st' \<in> set (ss (rseq [RGroup a (rstar rsp), RGroup b bullet_re, rsp, r, r']) ml s (i, c))" "i \<le> length s"
  obtains j c' where "item_start s i j" "st' \<in> set (ss (RSeq r r') ml s (Suc j, c'))"
proof -
  from assms(1) obtain st1 st2 st3 where st: "st1 \<in> set (ss (RGroup a (rstar rsp)) ml s (i, c))" "st2 \<in> set (ss (RGroup b bullet_re) ml s st1)"
      "st3 \<in> set (ss rsp ml s st2)" "st' \<in> set (ss (RSeq r r') ml s st3)"
    unfolding rseq.simps ss_RSeq_iff by blast
  from st(1) obtain k c1 where k: "st1 = (k, c1)" "i \<le> k" "k \<le> length s" "\<forall>x. i \<le> x \<and> x < k \<longrightarrow> s ! x = 32"
    unfolding ss_RGroup_iff ss_rep_set_iff [OF assms(2)] by (auto simp: in_unit_range)
  from st(2) obtain j c2 where j: "st2 = (j, c2)" "bullet_at s k j"
    unfolding k(1) ss_RGroup_iff ss_bullet_iff [OF k(3)] by auto
  from st(3) have 3: "st3 = (Suc j, c2)" "j < length s" "s ! j = 32" unfolding j(1) ss_RSet_iff by (auto simp: in_unit_range)
  show thesis by (rule that [of j c2]) (use k j 3 st(4) in \<open>auto simp: item_start_def\<close>)
qed

lemma item_prefix_complete:
  assumes "item_start s i j"
  shows "\<exists>c'. \<forall>st' \<in> set (ss (RSeq r r') ml s (Suc j, c')). st' \<in> set (ss (rseq [RGroup a (rstar rsp), RGroup b bullet_re, rsp, r, r']) ml s (i, c))"
proof -
  from assms obtain k where k: "i \<le> k" "\<forall>x. i \<le> x \<and> x < k \<longrightarrow> s ! x = 32" "bullet_at s k j" "j < length s" "s ! j = 32"
    by (auto simp: item_start_def)
  have b: "k \<le> length s" "i \<le> length s" using bullet_at_bounds [OF k(3)] k(1) by auto
  let ?c1 = "c[a := Some (take (k - i) (drop i s))]"
  let ?c2 = "?c1[b := Some (take (j - k) (drop k s))]"
  have 1: "(k, ?c1) \<in> set (ss (RGroup a (rstar rsp)) ml s (i, c))"
    unfolding ss_RGroup_iff ss_rep_set_iff [OF b(2)] using k b by (auto simp: in_unit_range)
  have 2: "(j, ?c2) \<in> set (ss (RGroup b bullet_re) ml s (k, ?c1))"
    unfolding ss_RGroup_iff ss_bullet_iff [OF b(1)] using k(3) by auto
  have 3: "(Suc j, ?c2) \<in> set (ss rsp ml s (j, ?c2))"
    unfolding ss_RSet_iff using k by (auto simp: in_unit_range)
  show ?thesis unfolding rseq.simps ss_RSeq_iff [of _ "RGroup a _"] ss_RSeq_iff [of _ "RGroup b _"] ss_RSeq_iff [of _ rsp] using 1 2 3 by blast
qed

lemma item_start_part:
  assumes "item_start s i j" "j < e" "e \<le> length s"
  shows "item_start (take (e - i) (drop i s)) 0 (j - i)"
proof -
  from assms obtain k where k: "i \<le> k" "\<forall>x. i \<le> x \<and> x < k \<longrightarrow> s ! x = 32" "bullet_at s k j" "j < length s" "s ! j = 32"
    by (auto simp: item_start_def)
  let ?t = "take (e - i) (drop i s)"
  have nth: "?t ! x = s ! (i + x)" if "i + x < e" for x using that assms(3) by simp
  have len: "length ?t = e - i" using assms(3) by simp
  have kj: "k < j" using bullet_at_bounds [OF k(3)] by simp
  have b: "bullet_at ?t (k - i) (j - i)"
    using k(3) unfolding bullet_at_def
  proof (elim disjE exE conjE)
    assume "k < length s" "s ! k \<in> {42, 43, 45}" "j = Suc k"
    then show "k - i < length ?t \<and> ?t ! (k - i) \<in> {42, 43, 45} \<and> j - i = Suc (k - i) \<or> (\<exists>d>k - i. d < length ?t \<and> (\<forall>x. k - i \<le> x \<and> x < d \<longrightarrow> is_digit (?t ! x)) \<and> ?t ! d = 46 \<and> j - i = Suc d)"
      using k(1) kj assms(2) nth [of "k - i"] len by auto
  next
    fix d assume d: "k < d" "d < length s" "\<forall>x. k \<le> x \<and> x < d \<longrightarrow> is_digit (s ! x)" "s ! d = 46" "j = Suc d"
    have "is_digit (?t ! x)" if "k - i \<le> x" "x < d - i" for x
    proof -
      have "k \<le> i + x" "i + x < d" using that k(1) by auto
      then show ?thesis using d assms(2) nth [of x] by simp
    qed
    then show "k - i < length ?t \<and> ?t ! (k - i) \<in> {42, 43, 45} \<and> j - i = Suc (k - i) \<or> (\<exists>d>k - i. d < length ?t \<and> (\<forall>x. k - i \<le> x \<and> x < d \<longrightarrow> is_digit (?t ! x)) \<and> ?t ! d = 46 \<and> j - i = Suc d)"
      using d k(1) kj assms(2) nth [of "d - i"] len by (intro disjI2 exI [of _ "d - i"]) auto
  qed
  have "\<forall>x. 0 \<le> x \<and> x < k - i \<longrightarrow> ?t ! x = 32" using k kj assms(2) nth by auto
  moreover have "?t ! (j - i) = 32" using nth [of "j - i"] k kj assms(2) by simp
  ultimately show ?thesis unfolding item_start_def using b assms(2) len kj k(1) by (intro exI [of _ "k - i"]) auto
qed


lemma list_starts_item:
  assumes "cut list_rule src = Some (m, c)"
  shows "\<exists>j. item_start m 0 j"
proof -
  from assms obtain e where e: "match_at list_rule False src 0 = Some (e, c)" "m = take e src" "e \<le> length src"
    unfolding list_rule_def by (rule cut_bol)
  from match_at_in [OF e(1)] have "(e, c) \<in> set (ss (list_re 1 1 1) False src (0, no_caps list_rule))"
    by (auto simp: list_rule_def at_bol_def)
  then obtain j c' where j: "item_start src 0 j" "(e, c) \<in> set (ss (RSeq (rlazyp rany) (ralts
     [RSeq (rplus rnl) (RLook True (rseq [ropt (RBack 1), RRep (RSeq (rone [45, 42, 95]) (rstar rsp)) 3 None True, rnls_end])),
      RSeq (rplus rnl) (RLook True (def_re (1 + 2))),
      rseq [RRep rnl 2 None True, RLook False rsp, RLook False (rseq [RBack 1, bullet_re, rsp]), rstar rnl],
      rspaces_end])) False src (Suc j, c'))"
    unfolding list_re_def by (rule item_prefix_sound) simp
  have "Suc j \<le> e" using ss_bounds [OF _ j(2)] item_start_bounds [OF j(1)] by simp
  then show ?thesis using item_start_part [OF j(1), of e] e by auto
qed

lemma item_rule_match:
  assumes "match_at item_rule True s i = Some (e, c)" "i \<le> length s"
  shows "\<exists>j. item_start s i j \<and> j < e" "e = length s \<or> s ! e = 10" "e \<le> length s"
proof -
  let ?body = "rseq [rnl, RLook False (rseq [RBack 1, bullet_re, rsp]), rstar rline]"
  have ir: "item_rule = RSeq RBol (rseq [RGroup 1 (rstar rsp), RGroup 2 bullet_re, rsp, rstar rline, rstar ?body])" by (simp add: item_rule_def)
  from match_at_in [OF assms(1)] have "(e, c) \<in> set (ss (rseq [RGroup 1 (rstar rsp), RGroup 2 bullet_re, rsp, rstar rline, rstar ?body]) True s (i, no_caps item_rule))"
    unfolding ir [THEN arg_cong, of "\<lambda>r. ss r"] ss_bol by (auto split: if_splits simp del: rseq.simps ss.simps)
  then obtain j c' where j: "item_start s i j" "(e, c) \<in> set (ss (RSeq (rstar rline) (rstar ?body)) True s (Suc j, c'))"
    by (rule item_prefix_sound) (use assms in simp)
  have "Suc j \<le> e" "e \<le> length s" using ss_bounds [OF _ j(2)] item_start_bounds [OF j(1)] by auto
  with j(1) show "\<exists>j. item_start s i j \<and> j < e" "e \<le> length s" by auto
  define P where "P k \<longleftrightarrow> k = length s \<or> in_ranges (map (\<lambda>u. (u, u)) [10]) (s ! k) \<noteq> False" for k
  have l: "first_ends P (rstar rline) True s" unfolding P_def by (rule first_ends_class)
  have b: "first_ends P ?body True s" unfolding rseq.simps by (intro first_ends_seq l)
  have "first_ends P item_rule True s"
    unfolding ir rseq.simps by (rule first_ends_seq, rule first_ends_seq, rule first_ends_seq, rule first_ends_seq, rule first_ends_seq_star [OF l b [unfolded rseq.simps]]) (simp_all add: bullet_re_def)
  from first_endsD [OF this, of "(i, no_caps item_rule)"] match_at_hd [OF assms(1)] assms(2) have "P e" by (metis fst_conv)
  then show "e = length s \<or> s ! e = 10" by (auto simp: P_def in_unit_range)
qed

lemma item_rule_matches:
  assumes "item_start s i j" "at_bol True s i"
  shows "match_at item_rule True s i \<noteq> None"
proof -
  let ?body = "rseq [rnl, RLook False (rseq [RBack 1, bullet_re, rsp]), rstar rline]"
  have ir: "item_rule = RSeq RBol (rseq [RGroup 1 (rstar rsp), RGroup 2 bullet_re, rsp, rstar rline, rstar ?body])" by (simp add: item_rule_def)
  have total: "ss (rstar r) True s st \<noteq> []" for r st by (auto simp: Let_def)
  obtain c' where c': "\<forall>st' \<in> set (ss (RSeq (rstar rline) (rstar ?body)) True s (Suc j, c')).
      st' \<in> set (ss (rseq [RGroup 1 (rstar rsp), RGroup 2 bullet_re, rsp, rstar rline, rstar ?body]) True s (i, no_caps item_rule))"
    using item_prefix_complete [OF assms(1)] by blast
  have "ss (RSeq (rstar rline) (rstar ?body)) True s (Suc j, c') \<noteq> []"
    using total [of rline "(Suc j, c')"] total [of ?body] by (cases "ss (rstar rline) True s (Suc j, c')") (simp_all del: ss.simps(5))
  then obtain st' where "st' \<in> set (ss (RSeq (rstar rline) (rstar ?body)) True s (Suc j, c'))" by (meson list.set_sel(1))
  with c' have "st' \<in> set (ss (rseq [RGroup 1 (rstar rsp), RGroup 2 bullet_re, rsp, rstar rline, rstar ?body]) True s (i, no_caps item_rule))" by blast
  then have "ss item_rule True s (i, no_caps item_rule) \<noteq> []"
    unfolding ir [THEN arg_cong, of "\<lambda>r. ss r"] ss_bol using assms(2) by (auto simp del: rseq.simps ss.simps)
  then show ?thesis by (simp add: match_at_ss)
qed


lemma item_start_unit: "item_start s i j \<Longrightarrow> i < length s \<and> s ! i \<noteq> 10"
proof -
  assume "item_start s i j"
  then obtain k where k: "i \<le> k" "\<forall>x. i \<le> x \<and> x < k \<longrightarrow> s ! x = 32" "bullet_at s k j" by (auto simp: item_start_def)
  show ?thesis
  proof (cases "i = k")
    case True
    with k(3) show ?thesis by (auto simp: bullet_at_def is_digit_def)
  next
    case False
    with k bullet_at_bounds [OF k(3)] show ?thesis by auto
  qed
qed

lemma matches_items:
  "p \<le> length s \<Longrightarrow> (\<forall>(i, e) \<in> set (matches_from item_rule True s p). e \<le> length s \<and> (\<exists>j. item_start s i j \<and> j < e)) \<and>
     sum_list (map (\<lambda>(i, e). Suc (e - i)) (matches_from item_rule True s p)) \<le> Suc (length s) - (if p = length s \<or> s ! p = 10 then Suc p else p)"
proof (induction item_rule True s p rule: matches_from.induct)
  case (1 s p)
  show ?case
  proof (cases "exec_from item_rule True s p")
    case None
    then show ?thesis by (subst (1 2) matches_from.simps) simp
  next
    case (Some x)
    obtain i e c where x: "x = (i, e, c)" by (cases x)
    note b = exec_from_bounds [OF Some [unfolded x]]
    have il: "i \<le> length s" using b by linarith
    note im = item_rule_match [OF conjunct2 [OF conjunct2 [OF conjunct2 [OF b]]] il]
    from im(1) obtain j where j: "item_start s i j" "j < e" by blast
    note jb = item_start_bounds [OF j(1)] item_start_unit [OF j(1)]
    have ie: "e \<noteq> i" using j jb by linarith
    have rec: "matches_from item_rule True s p = (i, e) # matches_from item_rule True s e"
      using Some x ie by (subst matches_from.simps) simp
    have ih: "(\<forall>(i, e) \<in> set (matches_from item_rule True s e). e \<le> length s \<and> (\<exists>j. item_start s i j \<and> j < e)) \<and>
       sum_list (map (\<lambda>(i, e). Suc (e - i)) (matches_from item_rule True s e)) \<le> Suc (length s) - (if e = length s \<or> s ! e = 10 then Suc e else e)"
      using "1.hyps" [OF Some x [symmetric] refl] im(3) unfolding if_not_P [OF ie] by blast
    then have sum: "sum_list (map (\<lambda>(i, e). Suc (e - i)) (matches_from item_rule True s e)) \<le> length s - e" using im(2) by auto
    have "i \<noteq> p" if "p = length s \<or> s ! p = 10" using that jb by auto
    then have "Suc (e - i) + (length s - e) \<le> Suc (length s) - (if p = length s \<or> s ! p = 10 then Suc p else p)" using b im(3) by auto
    with sum ih j im(3) show ?thesis unfolding rec by auto
  qed
qed

text \<open>The items of a list, as \<open>match\<close> returns them.\<close>

definition is_item :: "jsstr \<Rightarrow> bool" where
  "is_item t \<longleftrightarrow> (\<exists>j. item_start t 0 j)"

lemma match_all_items:
  assumes "is_item m"
  shows "\<exists>items. match_all item_rule True m = Some items \<and> items \<noteq> [] \<and> list_all is_item items \<and> sum_list (map (\<lambda>t. Suc (length t)) items) \<le> Suc (length m)"
proof -
  from assms obtain j where j: "item_start m 0 j" by (auto simp: is_item_def)
  have "match_at item_rule True m 0 \<noteq> None" by (rule item_rule_matches [OF j]) (simp add: at_bol_def)
  then obtain st where "exec_from item_rule True m 0 = Some (0, st)" using prefix_search by blast
  then have ne: "matches_from item_rule True m 0 \<noteq> []" by (subst matches_from.simps) (auto split: prod.split)
  then have eq: "match_all item_rule True m = Some (map (\<lambda>(i, j). take (j - i) (drop i m)) (matches_from item_rule True m 0))"
    by (simp add: match_all_def split: list.split)
  note it = matches_items [of 0 m]
  have all: "list_all is_item (map (\<lambda>(i, j). take (j - i) (drop i m)) (matches_from item_rule True m 0))"
    unfolding list_all_iff
  proof
    fix t assume "t \<in> set (map (\<lambda>(i, j). take (j - i) (drop i m)) (matches_from item_rule True m 0))"
    then obtain i e where t: "(i, e) \<in> set (matches_from item_rule True m 0)" "t = take (e - i) (drop i m)" by auto
    with it obtain j where "e \<le> length m" "item_start m i j" "j < e" by auto
    then show "is_item t" using item_start_part [of m i j e] t by (auto simp: is_item_def)
  qed
  have lens: "map (\<lambda>t. Suc (length t)) (map (\<lambda>(i, j). take (j - i) (drop i m)) (matches_from item_rule True m 0)) =
      map (\<lambda>(i, e). Suc (e - i)) (matches_from item_rule True m 0)"
    unfolding map_map using it by (intro map_cong refl) fastforce
  have sum: "sum_list (map (\<lambda>t. Suc (length t)) (map (\<lambda>(i, j). take (j - i) (drop i m)) (matches_from item_rule True m 0))) \<le> Suc (length m)"
    unfolding lens using it by (auto split: if_splits)
  show ?thesis by (rule exI, intro conjI, rule eq, use ne in simp, rule all, rule sum)
qed

lemma bullet_prefix_matches:
  assumes "is_item t"
  shows "\<exists>k c. match_at bullet_prefix_re False t 0 = Some (k, c) \<and> 2 \<le> k"
proof -
  from assms obtain k j where k: "\<forall>x. 0 \<le> x \<and> x < k \<longrightarrow> t ! x = 32" "bullet_at t k j" "j < length t" "t ! j = 32"
    by (auto simp: is_item_def item_start_def)
  have b: "k \<le> length t" using bullet_at_bounds [OF k(2)] by simp
  let ?c = "no_caps bullet_prefix_re" and ?c1 = "(no_caps bullet_prefix_re)[1 := Some (take (j - k) (drop k t))]"
  have 1: "(k, ?c) \<in> set (ss (rstar rsp) False t (0, ?c))" using k b by (subst ss_rep_set_iff) (auto simp: in_unit_range)
  have 2: "(j, ?c1) \<in> set (ss (RGroup 1 bullet_re) False t (k, ?c))" unfolding ss_RGroup_iff ss_bullet_iff [OF b] using k(2) by auto
  have 3: "(Suc j, ?c1) \<in> set (ss (rplus rsp) False t (j, ?c1))"
    using k by (subst ss_rep_set_iff) (auto simp: in_unit_range le_less_Suc_eq)
  have "(Suc j, ?c1) \<in> set (ss bullet_prefix_re False t (0, ?c))"
    unfolding bullet_prefix_re_def [THEN arg_cong, of "\<lambda>r. ss r"] rseq.simps ss_bol using 1 2 3 by (auto simp: at_bol_def ss_RSeq_iff simp del: ss.simps)
  then have "match_at bullet_prefix_re False t 0 \<noteq> None" by (auto simp: match_at_ss)
  then obtain k c where "match_at bullet_prefix_re False t 0 = Some (k, c)" by auto
  moreover from match_min_len [OF this] have "2 \<le> k" by (simp add: bullet_prefix_re_def bullet_re_def)
  ultimately show ?thesis by blast
qed

lemma item_text_shorter: "is_item t \<Longrightarrow> length (item_text opt t) < length t"
proof -
  assume "is_item t"
  then obtain k c where k: "match_at bullet_prefix_re False t 0 = Some (k, c)" "2 \<le> k" using bullet_prefix_matches by blast
  have "length (replace_first bullet_prefix_re t (const [])) < length t" using length_remove_first [OF k(1)] k(2) by simp
  then show ?thesis using length_remove by (auto simp: item_text_def Let_def intro: le_less_trans)
qed

lemma bullet_found: "is_item t \<Longrightarrow> exec bullet_re t \<noteq> None"
proof -
  assume "is_item t"
  then obtain k j where k: "bullet_at t k j" by (auto simp: is_item_def item_start_def)
  have "k \<le> length t" using bullet_at_bounds [OF k] by simp
  then have "ss bullet_re False t (k, no_caps bullet_re) \<noteq> []" using ss_bullet_iff [of k t _ False "no_caps bullet_re"] k by force
  then have "match_at bullet_re False t k \<noteq> None" by (simp add: match_at_ss)
  then show ?thesis using \<open>k \<le> length t\<close> by (auto simp: exec_def exec_from_None)
qed

end
