(* ===== verification/Marked_Lexer.thy ===== *)
theory Marked_Lexer
  imports Marked_Block
begin

text \<open>
  The loop of the block lexer.  Every round consumes something and the inner texts of quotes and items are
  shorter than the match, so that the mutual recursion ends; it never throws.
\<close>

section \<open>The items of a list\<close>

text \<open>No item makes \<open>list_items\<close> throw; the texts are shorter than the items, and what goes back to the text
  is at most all but the first item.\<close>

lemma list_items_ok:
  "list_all is_item items \<Longrightarrow> \<exists>its src'. list_items opt bull nxt items src = Inr (its, src') \<and>
     (\<forall>it \<in> set its. \<exists>raw \<in> set items. length (snd it) < length raw) \<and>
     (src' = src \<or> (\<exists>k. 0 < k \<and> k < length items \<and> src' = join_lines (drop k items) @ src))"
proof (induction items arbitrary: nxt src)
  case Nil
  then show ?case by (simp add: list_items.simps [of _ _ _ "[]"])
next
  case (Cons raw others)
  have bp: "backpedal opt bull others src = Inr (others, src) \<or> others \<noteq> [] \<and> backpedal opt bull others src = Inr ([], join_lines others @ src)"
    using Cons.prems bullet_found [of "hd others"] by (cases others) (auto simp: backpedal_def split: option.splits)
  have short: "length (item_text opt raw) < length raw" using Cons.prems item_text_shorter by simp
  from bp show ?case
  proof
    assume b: "backpedal opt bull others src = Inr (others, src)"
    let ?ends = "others \<noteq> [] \<and> item_text opt raw \<noteq> [] \<and> last (item_text opt raw) = 10"
    obtain its src' where r: "list_items opt bull ?ends others src = Inr (its, src')" "\<forall>it \<in> set its. \<exists>raw \<in> set others. length (snd it) < length raw"
        "src' = src \<or> (\<exists>k. 0 < k \<and> k < length others \<and> src' = join_lines (drop k others) @ src)"
      using Cons.IH [of ?ends src] Cons.prems by auto
    have "list_items opt bull nxt (raw # others) src = Inr (((nxt \<or> re_test loose_re (item_text opt raw)) \<or> ?ends, item_text opt raw) # its, src')"
      using b r(1) by (subst list_items.simps) (simp add: Let_def)
    moreover have "src' = src \<or> (\<exists>k. 0 < k \<and> k < length (raw # others) \<and> src' = join_lines (drop k (raw # others)) @ src)"
      using r(3) by (metis Suc_less_eq drop_Suc_Cons length_Cons zero_less_Suc)
    ultimately show ?thesis using r(2) short by auto
  next
    assume b: "others \<noteq> [] \<and> backpedal opt bull others src = Inr ([], join_lines others @ src)"
    have "list_items opt bull nxt (raw # others) src = Inr ([(nxt \<or> re_test loose_re (item_text opt raw), item_text opt raw)], join_lines others @ src)"
      using b by (subst list_items.simps) (simp add: Let_def list_items.simps [of _ _ _ "[]"])
    moreover have "\<exists>k. 0 < k \<and> k < length (raw # others) \<and> join_lines others @ src = join_lines (drop k (raw # others)) @ src"
      using b by (intro exI [of _ 1]) auto
    ultimately show ?thesis using short by auto
  qed
qed

lemma length_join_lines: "xs \<noteq> [] \<Longrightarrow> Suc (length (join_lines xs)) = sum_list (map (\<lambda>t. Suc (length t)) xs)"
  by (induction xs rule: join_lines.induct) auto

lemma join_rest_shorter:
  assumes "sum_list (map (\<lambda>t. Suc (length t)) items) \<le> Suc n" "0 < k" "k < length items"
  shows "length (join_lines (drop k items)) < n"
proof -
  have "sum_list (map (\<lambda>t. Suc (length t)) items) = sum_list (map (\<lambda>t. Suc (length t)) (take k items)) + sum_list (map (\<lambda>t. Suc (length t)) (drop k items))"
    by (metis append_take_drop_id map_append sum_list_append)
  moreover have "0 < sum_list (map (\<lambda>t. Suc (length t)) (take k items))" using assms(2,3) by (cases items; cases k) auto
  moreover have "Suc (length (join_lines (drop k items))) = sum_list (map (\<lambda>t. Suc (length t)) (drop k items))" using assms(3) by (intro length_join_lines) simp
  ultimately show ?thesis using assms(1) by linarith
qed

lemma item_length: "t \<in> set items \<Longrightarrow> sum_list (map (\<lambda>t. Suc (length t)) items) \<le> Suc n \<Longrightarrow> length t \<le> n"
  using member_le_sum_list [of "Suc (length t)" "map (\<lambda>t. Suc (length t)) items"] by simp

section \<open>One round of the loop\<close>

text \<open>What a round does after the newlines: it adds tokens, defines a link, or has an inner text for another
  call of the lexer.\<close>

datatype bstep =
    Tokens "token list" jsstr
  | Define jsstr "jsstr \<times> jsstr option" jsstr
  | Quote jsstr jsstr
  | Items bool "(bool \<times> jsstr) list" jsstr
  | Fail exn
  | Finish

definition code_text :: "options \<Rightarrow> jsstr \<Rightarrow> jsstr" where
  "code_text opt m =
     (let cap = remove (RSeq RBol (rtimes rsp 4)) True m
      in if pedantic opt then cap else replace_first (RSeq (rplus rnl) REol) cap (const []))"

definition quote_re :: re where
  "quote_re = rseq [RBol, rstar rsp, runit 62, ropt rsp]"

definition list_step :: "options \<Rightarrow> jsstr \<Rightarrow> caps \<Rightarrow> jsstr \<Rightarrow> bstep" where
  "list_step opt m c src =
     (case match_all item_rule True m of
        None \<Rightarrow> Fail TypeError
      | Some items \<Rightarrow>
          (case list_items opt (grp c 2) False items src of
             Inl e \<Rightarrow> Fail e
           | Inr (its, src') \<Rightarrow> Items (length (grp c 2) > 1) its src'))"

definition html_token :: "options \<Rightarrow> jsstr \<Rightarrow> caps \<Rightarrow> token" where
  "html_token opt m c =
     (if sanitize opt then Paragraph m else Html (cap_at c 1 \<in> Some ` {lit ''pre'', lit ''script'', lit ''style''}) m)"

definition paragraph_text :: "jsstr \<Rightarrow> jsstr" where
  "paragraph_text t = (if t \<noteq> [] \<and> last t = 10 then butlast t else t)"

text \<open>The rules after lists.\<close>

definition late_step :: "options \<Rightarrow> bool \<Rightarrow> bool \<Rightarrow> jsstr \<Rightarrow> bstep" where
  "late_step opt toplevel bq src =
     (let g = block_grammar_of opt; rest = (\<lambda>m. drop (length m) src)
      in case cut html_rule src of Some (m, c) \<Rightarrow> Tokens [html_token opt m c] (rest m)
       | None \<Rightarrow> (case if \<not> bq \<and> toplevel then cut def_rule src else None of Some (m, c) \<Rightarrow> Define (toLowerCase opt (grp c 1)) (grp c 2, cap_at c 3) (rest m)
       | None \<Rightarrow> (case if toplevel then cut_opt (table_rule g) src else None of Some (m, c) \<Rightarrow> Tokens [bar_table_token c] (rest m)
       | None \<Rightarrow> (case if toplevel then cut (paragraph_rule g) src else None of Some (m, c) \<Rightarrow> Tokens [Paragraph (paragraph_text (grp c 1))] (rest m)
       | None \<Rightarrow> (case cut text_block_rule src of Some (m, c) \<Rightarrow> Tokens [TextTok m] (rest m)
       | None \<Rightarrow> if src = [] then Finish else Fail (JSError (lit ''Infinite loop on byte: '' @ dec (hd src))))))))"

definition block_step :: "options \<Rightarrow> bool \<Rightarrow> bool \<Rightarrow> jsstr \<Rightarrow> bstep" where
  "block_step opt toplevel bq src =
     (let g = block_grammar_of opt; rest = (\<lambda>m. drop (length m) src)
      in case cut code_block_rule src of Some (m, c) \<Rightarrow> Tokens [Code (code_text opt m) None False] (rest m)
       | None \<Rightarrow> (case cut_opt (fences_rule g) src of Some (m, c) \<Rightarrow> Tokens [Code (grp c 3) (cap_at c 2) False] (rest m)
       | None \<Rightarrow> (case cut heading_rule src of Some (m, c) \<Rightarrow> Tokens [Heading (length (grp c 1)) (grp c 2)] (rest m)
       | None \<Rightarrow> (case if toplevel then cut_opt (nptable_rule g) src else None of Some (m, c) \<Rightarrow> Tokens [nptable_token c] (rest m)
       | None \<Rightarrow> (case cut lheading_rule src of Some (m, c) \<Rightarrow> Tokens [Heading (if grp c 2 = lit ''='' then 1 else 2) (grp c 1)] (rest m)
       | None \<Rightarrow> (case cut hr_rule src of Some (m, c) \<Rightarrow> Tokens [Hr] (rest m)
       | None \<Rightarrow> (case cut blockquote_rule src of Some (m, c) \<Rightarrow> Quote (remove quote_re True m) (rest m)
       | None \<Rightarrow> (case cut list_rule src of Some (m, c) \<Rightarrow> list_step opt m c (rest m)
       | None \<Rightarrow> late_step opt toplevel bq src))))))))"

lemmas block_rule_defs = newline_rule_def code_block_rule_def hr_re_def heading_re_def lheading_re_def def_re_def blockquote_re_def bullet_re_def fences_re_def list_re_def
  hr_rule_def heading_rule_def lheading_rule_def def_rule_def blockquote_rule_def list_rule_def fences_rule_def item_rule_def html_rule_def
  text_block_rule_def nptable_rule_def table_rule_def

lemma wf_ralts: "rs \<noteq> [] \<Longrightarrow> wf_re (ralts rs) \<longleftrightarrow> list_all wf_re rs"
  by (induction rs rule: ralts.induct) auto

lemma wf_rstr: "wf_re (rstr w)"
  by (induction w rule: induct_list012) auto

lemma wf_tag_re: "wf_re tag_re"
  by (simp add: tag_re_def wf_ralts wf_rstr list_all_iff inline_tags_def del: rstr.simps ralts.simps)

lemma block_rules_consume:
  "wf_re newline_rule \<and> 0 < min_len newline_rule" "wf_re code_block_rule \<and> 0 < min_len code_block_rule"
  "fences_rule g = Some r \<Longrightarrow> wf_re r \<and> 0 < min_len r" "wf_re heading_rule \<and> 0 < min_len heading_rule"
  "nptable_rule g = Some r \<Longrightarrow> wf_re r \<and> 0 < min_len r" "wf_re lheading_rule \<and> 0 < min_len lheading_rule"
  "wf_re hr_rule \<and> 0 < min_len hr_rule" "wf_re blockquote_rule \<and> 0 < min_len blockquote_rule"
  "wf_re list_rule \<and> 0 < min_len list_rule" "wf_re def_rule \<and> 0 < min_len def_rule"
  "table_rule g = Some r \<Longrightarrow> wf_re r \<and> 0 < min_len r" "wf_re text_block_rule \<and> 0 < min_len text_block_rule"
  by (auto simp: block_rule_defs split: if_splits)

lemma html_rule_consumes: "wf_re html_rule \<and> 0 < min_len html_rule"
  by (simp add: html_rule_def wf_tag_re attributes_re_def tag_re_def [THEN arg_cong, of min_len])

lemma paragraph_rule_consumes: "wf_re (paragraph_rule g) \<and> 0 < min_len (paragraph_rule g)"
  by (simp add: paragraph_rule_def Let_def wf_tag_re hr_re_def heading_re_def lheading_re_def def_re_def blockquote_re_def bullet_re_def fences_re_def list_re_def)

text \<open>What is left to do after a round is shorter than the text.\<close>

primrec bstep_shrinks :: "nat \<Rightarrow> bstep \<Rightarrow> bool" where
  "bstep_shrinks n (Tokens ts rest) = (length rest < n)"
| "bstep_shrinks n (Define k l rest) = (length rest < n)"
| "bstep_shrinks n (Quote t rest) = (length t < n \<and> length rest < n)"
| "bstep_shrinks n (Items ord its rest) = ((\<forall>it \<in> set its. length (snd it) < n) \<and> length rest < n)"
| "bstep_shrinks n (Fail e) = True"
| "bstep_shrinks n Finish = True"

lemma bstep_shrinks_case:
  assumes "\<And>m c. x = Some (m, c) \<Longrightarrow> bstep_shrinks n (f m c)" "bstep_shrinks n k"
  shows "bstep_shrinks n (case x of Some (m, c) \<Rightarrow> f m c | None \<Rightarrow> k)"
  using assms by (auto split: option.split)


lemma quote_shorter:
  assumes "cut blockquote_rule src = Some (m, c)"
  shows "length (remove quote_re True m) < length m"
proof -
  from assms obtain e where e: "match_at blockquote_rule False src 0 = Some (e, c)" "m = take e src" "e \<le> length src"
    unfolding blockquote_rule_def by (rule cut_bol)
  let ?g = "\<lambda>r. RSeq (rstar rsp) (RSeq (runit 62) r)"
  obtain r where r: "blockquote_re 1 = rplus (RGroup 1 (?g r))" by (simp add: blockquote_re_def)
  from match_at_in [OF e(1)] have "(e, c) \<in> set (ss (rplus (RGroup 1 (?g r))) False src (0, no_caps blockquote_rule))"
    unfolding blockquote_rule_def [THEN arg_cong, of "\<lambda>r. ss r"] ss_bol r by (auto split: if_splits simp del: ss.simps)
  then obtain k c1 c2 where k: "(k, c1) \<in> set (ss (?g r) False src (0, c2))" "k \<le> e"
    by (rule ss_plus_first) (auto simp: ss_RGroup_iff simp del: ss.simps)
  then obtain a c3 where a: "\<forall>x. x < a \<longrightarrow> src ! x = 32" "a < length src" "src ! a = 62" "(k, c1) \<in> set (ss r False src (Suc a, c3))"
    unfolding ss_RSeq_iff Bex_def ss_rep_set_iff [OF le0] by (auto simp: in_unit_range)
  from ss_bounds [OF _ a(4)] a(2) k(2) have "a < e" by simp
  then have m: "a < length m" "m ! a = 62" "\<forall>x. x < a \<longrightarrow> m ! x = 32" using e a by auto
  have total: "ss (ropt rsp) True m st \<noteq> []" for st by (auto simp: Let_def)
  have "(a, no_caps quote_re) \<in> set (ss (rstar rsp) True m (0, no_caps quote_re))" using m by (subst ss_rep_set_iff) (auto simp: in_unit_range)
  moreover have "(Suc a, no_caps quote_re) \<in> set (ss (runit 62) True m (a, no_caps quote_re))" using m by (simp add: in_unit_range)
  moreover obtain st' where "st' \<in> set (ss (ropt rsp) True m (Suc a, no_caps quote_re))" using total by (meson list.set_sel(1))
  ultimately have "st' \<in> set (ss quote_re True m (0, no_caps quote_re))"
    unfolding quote_re_def [THEN arg_cong, of "\<lambda>r. ss r"] rseq.simps ss_bol by (auto simp: at_bol_def ss_RSeq_iff simp del: ss.simps)
  then have "match_at quote_re True m 0 \<noteq> None" by (auto simp: match_at_ss)
  then obtain j c where "match_at quote_re True m 0 = Some (j, c)" by auto
  moreover from match_min_len [OF this] have "0 < j" by (simp add: quote_re_def)
  ultimately show ?thesis by (rule length_remove_less)
qed

lemma list_step_shrinks:
  assumes "cut list_rule src = Some (m, c)"
  shows "\<exists>ord its rest. list_step opt m c (drop (length m) src) = Items ord its rest \<and> (\<forall>it \<in> set its. length (snd it) < length src) \<and> length rest < length src"
proof -
  from list_starts_item [OF assms] have "is_item m" by (simp add: is_item_def)
  then obtain items where it: "match_all item_rule True m = Some items" "list_all is_item items" "sum_list (map (\<lambda>t. Suc (length t)) items) \<le> Suc (length m)"
    using match_all_items by blast
  obtain its rest where li: "list_items opt (grp c 2) False items (drop (length m) src) = Inr (its, rest)"
     "\<forall>it \<in> set its. \<exists>raw \<in> set items. length (snd it) < length raw"
     "rest = drop (length m) src \<or> (\<exists>k. 0 < k \<and> k < length items \<and> rest = join_lines (drop k items) @ drop (length m) src)"
    using list_items_ok [OF it(2)] by blast
  note b = cut_rest [OF assms block_rules_consume(9)]
  have "length rest < length src" using li(3)
  proof (elim disjE exE conjE)
    fix k assume "0 < k" "k < length items" "rest = join_lines (drop k items) @ drop (length m) src"
    with join_rest_shorter [OF it(3), of k] b(3) show ?thesis by simp
  qed (use b in simp)
  moreover have "\<forall>it \<in> set its. length (snd it) < length src" using li(2) item_length [OF _ it(3)] b by fastforce
  ultimately show ?thesis using it(1) li(1) by (simp add: list_step_def)
qed

lemma block_step_shrinks: "bstep_shrinks (length src) (block_step opt toplevel bq src)"
proof -
  define g where "g = block_grammar_of opt"
  have tok: "bstep_shrinks (length src) (Tokens ts (drop (length m) src))" if "cut r src = Some (m, c)" "wf_re r \<and> 0 < min_len r" for r m c ts
    using cut_rest [OF that] by simp
  have tok_opt: "bstep_shrinks (length src) (Tokens ts (drop (length m) src))"
    if "cut_opt x src = Some (m, c)" "\<And>r. x = Some r \<Longrightarrow> wf_re r \<and> 0 < min_len r" for x m c ts
    using that tok by (auto simp: cut_opt_def split: option.splits)
  show ?thesis
    unfolding block_step_def late_step_def Let_def g_def [symmetric]
  proof (intro bstep_shrinks_case, goal_cases)
    case (1 m c) then show ?case by (rule tok [OF _ block_rules_consume(2)])
  next
    case (2 m c) then show ?case by (rule tok_opt [OF _ block_rules_consume(3)])
  next
    case (3 m c) then show ?case by (rule tok [OF _ block_rules_consume(4)])
  next
    case (4 m c) then show ?case by (intro tok_opt [OF _ block_rules_consume(5)]) (auto split: if_splits)
  next
    case (5 m c) then show ?case by (rule tok [OF _ block_rules_consume(6)])
  next
    case (6 m c) then show ?case by (rule tok [OF _ block_rules_consume(7)])
  next
    case (7 m c) then show ?case using cut_rest [OF 7 block_rules_consume(8)] quote_shorter [OF 7] by simp
  next
    case (8 m c) then show ?case using list_step_shrinks [OF 8, of opt] by auto
  next
    case (9 m c) then show ?case by (rule tok [OF _ html_rule_consumes])
  next
    case (10 m c) then show ?case using cut_rest [OF _ block_rules_consume(10)] by (auto split: if_splits)
  next
    case (11 m c) then show ?case by (intro tok_opt [OF _ block_rules_consume(11)]) (auto split: if_splits)
  next
    case (12 m c) then show ?case by (intro tok [OF _ paragraph_rule_consumes]) (auto split: if_splits)
  next
    case (13 m c) then show ?case by (rule tok [OF _ block_rules_consume(12)])
  qed simp
qed

section \<open>The lexer\<close>

text \<open>\<open>this.tokens\<close> and \<open>this.tokens.links\<close>.\<close>

record lexer =
  tokens :: "token list"
  tokens_links :: links

abbreviation push :: "token list \<Rightarrow> lexer \<Rightarrow> lexer" where
  "push ts lx \<equiv> lx\<lparr>tokens := tokens lx @ ts\<rparr>"

definition blank_line_re :: re where
  "blank_line_re = rseq [RBol, rplus rsp, REol]"

definition skip_newlines :: "jsstr \<Rightarrow> token list \<times> jsstr" where
  "skip_newlines src =
     (case cut newline_rule src of
        Some (m, c) \<Rightarrow> (if length m > 1 then [Space] else [], drop (length m) src)
      | None \<Rightarrow> ([], src))"

lemma skip_newlines_shorter: "skip_newlines src = (ts, src') \<Longrightarrow> length src' \<le> length src"
  by (auto simp: skip_newlines_def split: option.splits)

lemma block_step_lengths:
  "block_step opt toplevel bq src = Tokens ts rest \<Longrightarrow> length rest < length src"
  "block_step opt toplevel bq src = Define k l rest \<Longrightarrow> length rest < length src"
  "block_step opt toplevel bq src = Quote t rest \<Longrightarrow> length t < length src \<and> length rest < length src"
  "block_step opt toplevel bq src = Items ord its rest \<Longrightarrow> (\<forall>it \<in> set its. length (snd it) < length src) \<and> length rest < length src"
  using block_step_shrinks [of src opt toplevel bq] by simp_all

definition longest :: "(bool \<times> jsstr) list \<Rightarrow> nat" where
  "longest its = foldr (\<lambda>it n. max (length (snd it)) n) its 0"

lemma longest_less: "0 < n \<Longrightarrow> longest its < n \<longleftrightarrow> (\<forall>it \<in> set its. length (snd it) < n)"
  by (induction its) (auto simp: longest_def)

text \<open>\<open>lex_token\<close> is a call of \<open>Lexer.token\<close>, \<open>lex_loop\<close> its loop, and \<open>lex_items\<close> the calls for the items of a list.\<close>

function lex_token :: "options \<Rightarrow> bool \<Rightarrow> bool \<Rightarrow> jsstr \<Rightarrow> lexer \<Rightarrow> lexer res"
  and lex_loop :: "options \<Rightarrow> bool \<Rightarrow> bool \<Rightarrow> jsstr \<Rightarrow> lexer \<Rightarrow> lexer res"
  and lex_items :: "options \<Rightarrow> bool \<Rightarrow> (bool \<times> jsstr) list \<Rightarrow> lexer \<Rightarrow> lexer res" where
  "lex_token opt toplevel bq src lx = lex_loop opt toplevel bq (remove blank_line_re True src) lx"
| "lex_loop opt toplevel bq src lx =
     (if src = [] then Inr lx
      else case skip_newlines src of (ts, src) \<Rightarrow>
        (case block_step opt toplevel bq src of
           Tokens ts' rest \<Rightarrow> lex_loop opt toplevel bq rest (push (ts @ ts') lx)
         | Define k l rest \<Rightarrow> lex_loop opt toplevel bq rest (push ts lx\<lparr>tokens_links := (tokens_links lx)(k \<mapsto> l)\<rparr>)
         | Quote t rest \<Rightarrow>
             bindR (lex_token opt toplevel True t (push (ts @ [BlockquoteStart]) lx)) (\<lambda>lx. lex_loop opt toplevel bq rest (push [BlockquoteEnd] lx))
         | Items ord its rest \<Rightarrow>
             bindR (lex_items opt bq its (push (ts @ [ListStart ord]) lx)) (\<lambda>lx. lex_loop opt toplevel bq rest (push [ListEnd] lx))
         | Fail e \<Rightarrow> Inl e
         | Finish \<Rightarrow> Inr (push ts lx)))"
| "lex_items opt bq its lx =
     (case its of
        [] \<Rightarrow> Inr lx
      | (loose, t) # its' \<Rightarrow>
          bindR (lex_token opt False bq t (push [if loose then LooseItemStart else ListItemStart] lx)) (\<lambda>lx.
            lex_items opt bq its' (push [ListItemEnd] lx)))"
  by pat_completeness auto
termination
proof (relation "inv_image (less_than <*lex*> less_than <*lex*> less_than)
    (\<lambda>x. case x of Inl (_, _, _, src, _) \<Rightarrow> (length src, 1, 0) | Inr (Inl (_, _, _, src, _)) \<Rightarrow> (length src, 0, 0) | Inr (Inr (_, _, its, _)) \<Rightarrow> (longest its, 2, length its))", goal_cases)
  case (2 opt toplevel bq src lx)
  then show ?case using length_remove [of blank_line_re True src] by (auto simp: le_less)
next
  case (9 opt bq its lx a its' loose t)
  then show ?case by (auto simp: longest_def max_def)
next
  case (10 opt bq its lx a its' loose t lx')
  then show ?case by (auto simp: longest_def max_def)
qed (auto dest!: skip_newlines_shorter [OF sym] block_step_lengths simp: longest_less)

declare lex_token.simps [simp del] lex_loop.simps [simp del] lex_items.simps [simp del]

text \<open>\<open>Lexer.lex\<close>: line ends, tabs and blanks are made uniform first.\<close>

definition preprocess :: "jsstr \<Rightarrow> jsstr" where
  "preprocess src =
     (let s = replace_all (RAlt (RSeq (runit 13) rnl) (runit 13)) False src (const [10]);
          s = replace_all (runit 9) False s (const (replicate 4 32));
          s = replace_all (runit 160) False s (const [32])
      in replace_all (runit 9252) False s (const [10]))"

definition lex :: "options \<Rightarrow> jsstr \<Rightarrow> lexer res" where
  "lex opt src = lex_token opt True False (preprocess src) \<lparr>tokens = [], tokens_links = Map.empty\<rparr>"

section \<open>Totality\<close>

lemma class_rule_matches:
  assumes "src \<noteq> []" "in_ranges rs (hd src) = pos"
  shows "cut (RSeq RBol (rplus (RSet pos rs))) src \<noteq> None"
proof -
  have "(1, c) \<in> set (ss (rplus (RSet pos rs)) False src (0, c))" for c
    unfolding ss_rep_set_iff [OF le0] using assms by (cases src) auto
  then have "match_at (RSeq RBol (rplus (RSet pos rs))) False src 0 \<noteq> None"
    unfolding match_at_ss ss_bol by (metis at_bol_0 empty_iff empty_set fst_conv)
  then show ?thesis by (auto simp: cut_def dest: prefix_search)
qed

lemma newlines_skipped:
  assumes "skip_newlines src = (ts, src')"
  shows "src' = [] \<or> hd src' \<noteq> 10"
proof (cases "cut newline_rule src")
  case None
  then show ?thesis using assms class_rule_matches [of src "[(10, 10)]" True] by (auto simp: skip_newlines_def newline_rule_def in_unit_range)
next
  case (Some x)
  then obtain m c where x: "cut newline_rule src = Some (m, c)" by (cases x) auto
  then obtain j where j: "match_at newline_rule False src 0 = Some (j, c)" "m = take j src" "j \<le> length src" unfolding newline_rule_def by (rule cut_bol)
  have "first_ends (\<lambda>k. k = length src \<or> in_ranges [(10, 10)] (src ! k) \<noteq> True) newline_rule False src"
    unfolding newline_rule_def by (intro first_ends_seq first_ends_class)
  from first_endsD [OF this, of "(0, no_caps newline_rule)"] match_at_hd [OF j(1)] have "j = length src \<or> src ! j \<noteq> 10"
    by (metis in_unit_range fst_conv le0)
  moreover have "src' = drop j src" using assms x j by (simp add: skip_newlines_def)
  ultimately show ?thesis using j(3) by (auto simp: hd_drop_conv_nth)
qed

lemma block_step_no_fail:
  assumes "src = [] \<or> hd src \<noteq> 10"
  shows "block_step opt toplevel bq src \<noteq> Fail e"
proof -
  have t: "cut text_block_rule src \<noteq> None" if "src \<noteq> []"
    unfolding text_block_rule_def using that assms by (intro class_rule_matches) (auto simp: in_unit_range)
  have c: "(case x of Some (m, c) \<Rightarrow> f m c | None \<Rightarrow> k) \<noteq> Fail e" if "\<And>m c. x = Some (m, c) \<Longrightarrow> f m c \<noteq> Fail e" "x = None \<Longrightarrow> k \<noteq> Fail e" for x f k
    using that by (auto split: option.split)
  have l: "list_step opt m c (drop (length m) src) \<noteq> Fail e" if "cut list_rule src = Some (m, c)" for m c
    using list_step_shrinks [OF that, of opt] by auto
  show ?thesis
    unfolding block_step_def late_step_def Let_def by (intro c; (rule bstep.distinct | rule l, assumption)?) (use t in auto)
qed

section \<open>Blocks\<close>

text \<open>The structure that the tokens write down: a tree of quotes, lists and items over leaves.\<close>

datatype block = Leaf token | Quoted "block list" | Listed bool "block list" | Item bool "block list"

fun flatten :: "block \<Rightarrow> token list" where
  "flatten (Leaf t) = [t]"
| "flatten (Quoted bs) = [BlockquoteStart] @ concat (map flatten bs) @ [BlockquoteEnd]"
| "flatten (Listed ordered bs) = [ListStart ordered] @ concat (map flatten bs) @ [ListEnd]"
| "flatten (Item loose bs) = [if loose then LooseItemStart else ListItemStart] @ concat (map flatten bs) @ [ListItemEnd]"

fun is_leaf :: "token \<Rightarrow> bool" where
  "is_leaf BlockquoteStart = False"
| "is_leaf BlockquoteEnd = False"
| "is_leaf (ListStart ordered) = False"
| "is_leaf ListEnd = False"
| "is_leaf LooseItemStart = False"
| "is_leaf ListItemStart = False"
| "is_leaf ListItemEnd = False"
| "is_leaf t = True"

fun wf_block :: "block \<Rightarrow> bool" where
  "wf_block (Leaf t) = is_leaf t"
| "wf_block (Quoted bs) = list_all wf_block bs"
| "wf_block (Listed ordered bs) = list_all wf_block bs"
| "wf_block (Item loose bs) = list_all wf_block bs"

abbreviation flatten_all :: "block list \<Rightarrow> token list" where "flatten_all bs \<equiv> concat (map flatten bs)"



text \<open>The lexer adds blocks behind what is there.\<close>

definition adds_blocks :: "lexer \<Rightarrow> lexer \<Rightarrow> bool" where
  "adds_blocks lx lx' \<longleftrightarrow> (\<exists>bs. list_all wf_block bs \<and> tokens lx' = tokens lx @ flatten_all bs)"

lemma adds_blocks_refl [simp]: "adds_blocks lx lx"
  by (auto simp: adds_blocks_def intro: exI [of _ "[]"])

lemma adds_blocks_trans: "adds_blocks lx lx' \<Longrightarrow> adds_blocks lx' lx'' \<Longrightarrow> adds_blocks lx lx''"
  unfolding adds_blocks_def by (metis append.assoc concat_append list_all_append map_append)

lemma adds_leaves: "list_all is_leaf ts \<Longrightarrow> adds_blocks lx (push ts lx)"
proof -
  have "concat (map flatten (map Leaf ts)) = ts" by (induction ts) auto
  then show "list_all is_leaf ts \<Longrightarrow> adds_blocks lx (push ts lx)" by (auto simp: adds_blocks_def list_all_iff intro!: exI [of _ "map Leaf ts"])
qed

lemma adds_node:
  assumes "adds_blocks (push [t] lx) lx'" "\<And>bs. list_all wf_block bs \<Longrightarrow> \<exists>b. wf_block b \<and> flatten b = [t] @ flatten_all bs @ [e]"
  shows "adds_blocks lx (push [e] lx')"
proof -
  from assms(1) obtain bs where bs: "list_all wf_block bs" "tokens lx' = tokens lx @ [t] @ flatten_all bs" by (auto simp: adds_blocks_def)
  with assms(2) obtain b where "wf_block b" "flatten b = [t] @ flatten_all bs @ [e]" by blast
  with bs show ?thesis by (auto simp: adds_blocks_def intro!: exI [of _ "[b]"])
qed

lemma adds_quote: "adds_blocks (push [BlockquoteStart] lx) lx' \<Longrightarrow> adds_blocks lx (push [BlockquoteEnd] lx')"
proof (erule adds_node)
  fix bs assume "list_all wf_block bs"
  then show "\<exists>b. wf_block b \<and> flatten b = [BlockquoteStart] @ flatten_all bs @ [BlockquoteEnd]" by (intro exI [of _ "Quoted bs"]) simp
qed

lemma adds_list: "adds_blocks (push [ListStart ordered] lx) lx' \<Longrightarrow> adds_blocks lx (push [ListEnd] lx')"
proof (erule adds_node)
  fix bs assume "list_all wf_block bs"
  then show "\<exists>b. wf_block b \<and> flatten b = [ListStart ordered] @ flatten_all bs @ [ListEnd]" by (intro exI [of _ "Listed ordered bs"]) simp
qed

lemma adds_item: "adds_blocks (push [if loose then LooseItemStart else ListItemStart] lx) lx' \<Longrightarrow> adds_blocks lx (push [ListItemEnd] lx')"
proof (erule adds_node)
  fix bs assume "list_all wf_block bs"
  then show "\<exists>b. wf_block b \<and> flatten b = [if loose then LooseItemStart else ListItemStart] @ flatten_all bs @ [ListItemEnd]" by (intro exI [of _ "Item loose bs"]) simp
qed

lemma block_step_leaves: "block_step opt toplevel bq src = Tokens ts rest \<Longrightarrow> list_all is_leaf ts"
proof -
  let ?P = "\<lambda>x. \<forall>ts rest. x = Tokens ts rest \<longrightarrow> list_all is_leaf ts"
  have c: "?P (case x of Some (m, c) \<Rightarrow> f m c | None \<Rightarrow> k)" if "\<And>m c. ?P (f m c)" "?P k" for x f k
    using that by (auto split: option.split)
  have "?P (block_step opt toplevel bq src)"
    unfolding block_step_def late_step_def Let_def
    by (intro c) (auto simp: list_step_def html_token_def nptable_token_def bar_table_token_def table_token_def split: option.splits sum.splits)
  then show "block_step opt toplevel bq src = Tokens ts rest \<Longrightarrow> list_all is_leaf ts" by blast
qed

lemma skip_newlines_leaves: "skip_newlines src = (ts, src') \<Longrightarrow> list_all is_leaf ts"
  by (auto simp: skip_newlines_def split: option.splits if_splits)

text \<open>Every call of the lexer returns and adds blocks.\<close>

lemma lex_adds_blocks:
  "\<exists>lx'. lex_token opt toplevel bq src lx = Inr lx' \<and> adds_blocks lx lx'"
  "\<exists>lx'. lex_loop opt toplevel bq src lx = Inr lx' \<and> adds_blocks lx lx'"
  "\<exists>lx'. lex_items opt bq its lx = Inr lx' \<and> adds_blocks lx lx'"
proof (induction opt toplevel bq src lx and opt toplevel bq src lx and opt bq its lx rule: lex_token_lex_loop_lex_items.induct)
  case (1 opt toplevel bq src lx)
  then show ?case by (subst lex_token.simps)
next
  case (2 opt toplevel bq src lx)
  show ?case
  proof (cases "src = []")
    case False
    obtain ts src' where s: "skip_newlines src = (ts, src')" by (cases "skip_newlines src")
    have nf: "block_step opt toplevel bq src' \<noteq> Fail e" for e by (rule block_step_no_fail [OF newlines_skipped [OF s]])
    have sp: "adds_blocks lx (push ts lx)" by (rule adds_leaves [OF skip_newlines_leaves [OF s]])
    note IH = 2 [OF False s [symmetric]]
    show ?thesis
    proof (cases "block_step opt toplevel bq src'")
      case (Tokens ts' rest)
      have "adds_blocks lx (push (ts @ ts') lx)"
        using skip_newlines_leaves [OF s] block_step_leaves [OF Tokens] by (intro adds_leaves) simp
      with IH(1) [OF Tokens] Tokens False s show ?thesis by (subst lex_loop.simps) (auto intro: adds_blocks_trans)
    next
      case (Define k l rest)
      have "adds_blocks lx (push ts lx\<lparr>tokens_links := (tokens_links lx)(k \<mapsto> l)\<rparr>)" using sp by (simp add: adds_blocks_def)
      with IH(2) [OF Define] Define False s show ?thesis by (subst lex_loop.simps) (auto intro: adds_blocks_trans)
    next
      case (Quote t rest)
      from IH(3) [OF Quote] obtain lx1 where 1: "lex_token opt toplevel True t (push (ts @ [BlockquoteStart]) lx) = Inr lx1" "adds_blocks (push (ts @ [BlockquoteStart]) lx) lx1" by blast
      then have "adds_blocks lx (push [BlockquoteEnd] lx1)" using adds_quote [where lx = "push ts lx" and lx' = lx1] sp by (auto intro: adds_blocks_trans)
      with IH(4) [OF Quote 1(1)] 1 False s Quote show ?thesis by (subst lex_loop.simps) (auto intro: adds_blocks_trans)
    next
      case (Items ord its rest)
      from IH(5) [OF Items] obtain lx1 where 1: "lex_items opt bq its (push (ts @ [ListStart ord]) lx) = Inr lx1" "adds_blocks (push (ts @ [ListStart ord]) lx) lx1" by blast
      then have "adds_blocks lx (push [ListEnd] lx1)" using adds_list [where ordered = ord and lx = "push ts lx" and lx' = lx1] sp by (auto intro: adds_blocks_trans)
      with IH(6) [OF Items 1(1)] 1 False s Items show ?thesis by (subst lex_loop.simps) (auto intro: adds_blocks_trans)
    next
      case Finish
      with sp False s show ?thesis by (subst lex_loop.simps) simp
    qed (use nf in blast)
  qed (simp add: lex_loop.simps)
next
  case (3 opt bq its lx)
  show ?case
  proof (cases its)
    case (Cons it its')
    obtain loose t where it: "it = (loose, t)" by (cases it)
    with 3(1) [OF Cons it [symmetric]] obtain lx1 where 1: "lex_token opt False bq t (push [if loose then LooseItemStart else ListItemStart] lx) = Inr lx1"
        "adds_blocks (push [if loose then LooseItemStart else ListItemStart] lx) lx1" by blast
    have "adds_blocks lx (push [ListItemEnd] lx1)" by (rule adds_item [OF 1(2)])
    with 3(2) [OF Cons it [symmetric] 1(1)] 1 Cons it show ?thesis by (subst lex_items.simps) (auto intro: adds_blocks_trans)
  qed (simp add: lex_items.simps)
qed

lemma lex_blocks: "\<exists>lx bs. lex opt src = Inr lx \<and> list_all wf_block bs \<and> tokens lx = flatten_all bs"
  using lex_adds_blocks(1) [of opt True False "preprocess src"] by (force simp: lex_def adds_blocks_def)

text \<open>What the parser relies on: a source of tokens always returns, and its tokens are those of a tree.\<close>

locale token_source =
  fixes source :: "options \<Rightarrow> jsstr \<Rightarrow> lexer res"
  assumes source_blocks: "\<exists>lx bs. source opt src = Inr lx \<and> list_all wf_block bs \<and> tokens lx = flatten_all bs"

interpretation block_lexer: token_source lex
  by unfold_locales (rule lex_blocks)

end
