(* ===== verification/Marked_Inline_Laws.thy ===== *)
theory Marked_Inline_Laws
  imports Marked_Inline
begin

text \<open>
  What the text functions and the inline lexer of marked.js guarantee: escaping removes every character
  that has a meaning in markup and loses nothing, and the inline lexer returns for every text.
\<close>

section \<open>Escaping\<close>

lemma replace_unit: "replace_all (runit u) False s (const t) = concat (map (\<lambda>c. if c = u then t else [c]) s)"
  by (simp add: replace_all_RSet in_unit_range const_def cong: if_cong)

definition is_markup :: "cu \<Rightarrow> bool" where
  "is_markup c \<longleftrightarrow> c \<in> {60, 62, 34, 39}"

lemma escape_no_markup: "c \<in> set (escape s e) \<Longrightarrow> \<not> is_markup c"
proof -
  assume c: "c \<in> set (escape s e)"
  define s1 where "s1 = replace_all (if e then rchr CHR ''&'' else amp_re) False s (const (lit ''&amp;''))"
  have "escape s e = concat (map (\<lambda>c. if c = 39 then lit ''&#39;'' else [c]) (concat (map (\<lambda>c. if c = 34 then lit ''&quot;'' else [c])
      (concat (map (\<lambda>c. if c = 62 then lit ''&gt;'' else [c]) (concat (map (\<lambda>c. if c = 60 then lit ''&lt;'' else [c]) s1)))))))"
    by (simp add: escape_def Let_def replace_unit s1_def cong: if_cong)
  with c show ?thesis by (auto simp: is_markup_def split: if_splits)
qed

text \<open>With \<open>encode\<close> every code unit is replaced on its own, and the original text can be read off.\<close>

definition entity :: "cu \<Rightarrow> jsstr" where
  "entity c = (if c = 38 then lit ''&amp;'' else if c = 60 then lit ''&lt;'' else if c = 62 then lit ''&gt;''
     else if c = 34 then lit ''&quot;'' else if c = 39 then lit ''&#39;'' else [c])"

lemma escape_encode: "escape s True = concat (map entity s)"
proof -
  have cm: "concat (map f (concat (map g xs))) = concat (map (\<lambda>x. concat (map f (g x))) xs)" for f :: "nat \<Rightarrow> nat list" and g xs
    by (induction xs) auto
  show ?thesis
    unfolding escape_def Let_def if_True replace_unit by (simp add: cm) (rule arg_cong [of _ _ concat], simp add: entity_def)
qed

fun html_decode :: "jsstr \<Rightarrow> jsstr" where
  "html_decode [] = []"
| "html_decode (c # s) =
     (if c \<noteq> 38 then c # html_decode s
      else if take 4 s = lit ''amp;'' then 38 # html_decode (drop 4 s)
      else if take 3 s = lit ''lt;'' then 60 # html_decode (drop 3 s)
      else if take 3 s = lit ''gt;'' then 62 # html_decode (drop 3 s)
      else if take 5 s = lit ''quot;'' then 34 # html_decode (drop 5 s)
      else if take 4 s = lit ''#39;'' then 39 # html_decode (drop 4 s)
      else c # html_decode s)"

lemma html_decode_entity: "html_decode (entity c @ s) = c # html_decode s"
  by (auto simp: entity_def)

text \<open>C25: \<open>escape\<close> leaves no character with a meaning in markup, and with \<open>encode\<close> nothing is lost:
  decoding the five entities gives the text back.\<close>

theorem escape_decodes:
  "set (escape s e) \<inter> {60, 62, 34, 39} = {} \<and> html_decode (escape s True) = s"
proof
  show "set (escape s e) \<inter> {60, 62, 34, 39} = {}" using escape_no_markup by (auto simp: is_markup_def)
  show "html_decode (escape s True) = s" unfolding escape_encode by (induction s) (simp_all add: html_decode_entity)
qed

section \<open>Totality\<close>

lemma ssrep_any_end:
  "i \<le> length s \<Longrightarrow> mn \<le> length s - i \<Longrightarrow> length s - i < f \<Longrightarrow> (length s, c) \<in> set (ssrep (ss rany ml s) [] f mn None False (i, c))"
proof (induction f arbitrary: i mn)
  case (Suc f)
  show ?case
  proof (cases "i = length s")
    case True
    with Suc.prems show ?thesis by (simp add: Let_def)
  next
    case False
    with Suc.prems have "(length s, c) \<in> set (ssrep (ss rany ml s) [] f (mn - 1) None False (Suc i, c))"
      by (intro Suc.IH) auto
    moreover have "ss rany ml s (i, clear [] c) = [(Suc i, c)]" using False Suc.prems by (simp add: in_ranges_def clear_simps)
    ultimately show ?thesis using False by (cases mn) (simp_all add: Let_def del: ss.simps)
  qed
qed simp

lemma lazy_any_end: "i < length s \<Longrightarrow> (length s, c) \<in> set (ss (rlazyp rany) ml s (i, c))"
  using ssrep_any_end [of i s 1 "Suc (1 + (length s - i))" c ml] by (simp del: ssrep.simps)

lemma ralts_last: "st' \<in> set (ss r ml s st) \<Longrightarrow> st' \<in> set (ss (ralts (rs @ [r])) ml s st)"
proof (induction rs)
  case (Cons a rs)
  then show ?case by (cases "rs @ [r]") auto
qed simp

lemma text_rule_matches: "src \<noteq> [] \<Longrightarrow> cut (text_rule g) src \<noteq> None"
proof -
  assume "src \<noteq> []"
  then have s: "0 < length src" by simp
  obtain rs where t: "text_rule g = RSeq RBol (RSeq (rlazyp rany) (RLook True (ralts (rs @ [REol]))))"
    by (rule that [of "[rone ([92, 60, 33, 91, 95, 42, 96] @ (if is_gfm g then [126] else []))] @
      (if is_gfm g then [rseq [rstr ''http'', ropt (rchr CHR ''s''), rstr ''://'']] else []) @ [break_spaces g]"]) (simp add: text_rule_def)
  have end_ok: "(length src, c) \<in> set (ss (ralts (rs @ [REol])) False src (length src, c))" for c
    by (rule ralts_last) (simp add: at_eol_def)
  have look: "ss (RLook True (ralts (rs @ [REol]))) False src (length src, c) \<noteq> []" for c
    using end_ok [of c] by (cases "ss (ralts (rs @ [REol])) False src (length src, c)") simp_all
  have "ss (text_rule g) False src (0, no_caps (text_rule g)) \<noteq> []"
  proof -
    have "(length src, no_caps (text_rule g)) \<in> set (ss (rlazyp rany) False src (0, no_caps (text_rule g)))" by (rule lazy_any_end [OF s])
    with look show ?thesis unfolding t by (auto simp: at_bol_def simp del: ss.simps(5,11))
  qed
  then have "match_at (text_rule g) False src 0 \<noteq> None" by (auto simp: match_at_def rm_ss split: list.split)
  then have "exec_from (text_rule g) False src 0 \<noteq> None" by (auto simp: exec_from_None)
  then show ?thesis by (auto simp: cut_def)
qed

lemma not_stuck_parts:
  "autolink_step opt c st rest \<noteq> Stuck" "tag_step opt m st rest \<noteq> Stuck" "outputLink opt m c h ti st rest \<noteq> Stuck"
  "reflink_step opt links m c st rest \<noteq> Stuck"
  by (auto simp: autolink_step_def tag_step_def outputLink_def reflink_step_def Let_def split: option.split list.split)

lemma not_stuck_case:
  assumes "\<And>m c. x = Some (m, c) \<Longrightarrow> f m c \<noteq> Stuck" "x = None \<Longrightarrow> k \<noteq> Stuck"
  shows "(case x of Some (m, c) \<Rightarrow> f m c | None \<Rightarrow> k) \<noteq> Stuck"
  using assms by (auto split: option.split)

lemma inline_step_not_stuck: "src \<noteq> [] \<Longrightarrow> inline_step opt links src st \<noteq> Stuck"
  unfolding inline_step_def Let_def
  by (intro not_stuck_case not_stuck_parts; (rule istep.distinct)?) (use text_rule_matches in blast)

lemma inline_output_returns: "\<exists>out st'. inline_output opt links src st = Inr (out, st')"
proof (induction opt links src st rule: inline_output.induct)
  case (1 opt links src st)
  show ?case
  proof (cases "src = []")
    case False
    show ?thesis
      using 1 False inline_step_not_stuck [OF False]
      by (subst inline_output.simps) (fastforce split: istep.split)
  qed (simp add: inline_output.simps)
qed

text \<open>the inline lexer returns for every text, grammar, state and set of links; the error for an
  endless loop is never thrown.\<close>

theorem inline_output_total: "\<exists>out st'. inline_output opt links src st = Inr (out, st')"
  by (rule inline_output_returns)

end
