(* ===== verification/Marked_Parser.thy ===== *)
theory Marked_Parser
  imports Marked_Lexer Marked_Inline_Laws
begin

text \<open>
  The parser of marked.js, which renders the tokens of the block lexer: it reads the tokens of a quote, a
  list or an item up to their end and throws when the end is missing.  On the tokens of a tree of blocks
  it reads exactly these tokens and does not throw.
\<close>

section \<open>Leaves\<close>

text \<open>The cells of a row; a column without alignment gives \<open>undefined\<close>, which counts as none.\<close>

fun table_row :: "options \<Rightarrow> links \<Rightarrow> bool \<Rightarrow> jsstr option list \<Rightarrow> jsstr list \<Rightarrow> istate \<Rightarrow> (jsstr \<times> istate) res" where
  "table_row opt links header align [] st = Inr ([], st)"
| "table_row opt links header align (c # cs) st =
     bindR (inline_output opt links c st) (\<lambda>(t, st).
       bindR (table_row opt links header (tl align) cs st) (\<lambda>(out, st).
         Inr (render_tablecell t header (case align of [] \<Rightarrow> None | a # _ \<Rightarrow> a) @ out, st)))"

fun table_body :: "options \<Rightarrow> links \<Rightarrow> jsstr option list \<Rightarrow> jsstr list list \<Rightarrow> istate \<Rightarrow> (jsstr \<times> istate) res" where
  "table_body opt links align [] st = Inr ([], st)"
| "table_body opt links align (row # rows) st =
     bindR (table_row opt links False align row st) (\<lambda>(cell, st).
       bindR (table_body opt links align rows st) (\<lambda>(out, st). Inr (render_tablerow cell @ out, st)))"

text \<open>The further text tokens that \<open>parseText\<close> takes.\<close>

fun text_run :: "token list \<Rightarrow> jsstr \<times> token list" where
  "text_run (TextTok t # ts) = (case text_run ts of (body, rest) \<Rightarrow> ([10] @ t @ body, rest))"
| "text_run ts = ([], ts)"

definition parseText :: "options \<Rightarrow> links \<Rightarrow> jsstr \<Rightarrow> token list \<Rightarrow> istate \<Rightarrow> (jsstr \<times> token list \<times> istate) res" where
  "parseText opt links t ts st =
     (case text_run ts of (body, rest) \<Rightarrow> bindR (inline_output opt links (t @ body) st) (\<lambda>(out, st). Inr (out, rest, st)))"

text \<open>\<open>tok\<close> on a token that opens nothing.  The switch has no case for the tokens that close something: the
  result is \<open>undefined\<close>, which becomes a word of the text.\<close>

definition tok_leaf :: "options \<Rightarrow> links \<Rightarrow> token \<Rightarrow> token list \<Rightarrow> istate \<Rightarrow> (jsstr \<times> token list \<times> istate) res" where
  "tok_leaf opt links t ts st =
     (case t of
        Space \<Rightarrow> Inr ([], ts, st)
      | Hr \<Rightarrow> Inr (render_hr opt, ts, st)
      | Heading depth text \<Rightarrow> bindR (inline_output opt links text st) (\<lambda>(out, st). Inr (render_heading opt out depth text, ts, st))
      | Code text lang escaped \<Rightarrow> Inr (render_code opt text lang escaped, ts, st)
      | Table header align cells \<Rightarrow>
          bindR (table_row opt links True align header st) (\<lambda>(cell, st).
            bindR (table_body opt links align cells st) (\<lambda>(body, st). Inr (render_table (render_tablerow cell) body, ts, st)))
      | Html pre text \<Rightarrow>
          if \<not> pre \<and> \<not> pedantic opt then bindR (inline_output opt links text st) (\<lambda>(out, st). Inr (render_html out, ts, st))
          else Inr (render_html text, ts, st)
      | Paragraph text \<Rightarrow> bindR (inline_output opt links text st) (\<lambda>(out, st). Inr (render_paragraph out, ts, st))
      | TextTok text \<Rightarrow> bindR (parseText opt links text ts st) (\<lambda>(out, ts, st). Inr (render_paragraph out, ts, st))
      | _ \<Rightarrow> Inr (lit ''undefined'', ts, st))"

section \<open>The loops\<close>

text \<open>The loops of the parser differ in the token that ends them and, for items that are not loose, in the
  treatment of text tokens.\<close>

datatype loop = TopLevel | InQuote | InList | InItem | InLooseItem

fun closes :: "loop \<Rightarrow> token \<Rightarrow> bool" where
  "closes TopLevel t = False"
| "closes InQuote t = (t = BlockquoteEnd)"
| "closes InList t = (t = ListEnd)"
| "closes InItem t = (t = ListItemEnd)"
| "closes InLooseItem t = (t = ListItemEnd)"

fun opens :: "token \<Rightarrow> loop option" where
  "opens BlockquoteStart = Some InQuote"
| "opens (ListStart ordered) = Some InList"
| "opens ListItemStart = Some InItem"
| "opens LooseItemStart = Some InLooseItem"
| "opens t = None"

fun wrap :: "token \<Rightarrow> jsstr \<Rightarrow> jsstr" where
  "wrap BlockquoteStart body = render_blockquote body"
| "wrap (ListStart ordered) body = render_list body ordered"
| "wrap t body = render_listitem body"

definition tok_other :: "options \<Rightarrow> links \<Rightarrow> loop \<Rightarrow> token \<Rightarrow> token list \<Rightarrow> istate \<Rightarrow> (jsstr \<times> token list \<times> istate) res" where
  "tok_other opt links k t ts st =
     (case t of TextTok text \<Rightarrow> if k = InItem then parseText opt links text ts st else tok_leaf opt links t ts st | _ \<Rightarrow> tok_leaf opt links t ts st)"

lemma text_run_length: "length (snd (text_run ts)) \<le> length ts"
  by (induction ts rule: text_run.induct) (auto split: prod.splits)

lemma parseText_rest: "parseText opt links t ts st = Inr (out, ts', st') \<Longrightarrow> length ts' \<le> length ts"
  using text_run_length [of ts] by (auto simp: parseText_def bindR_Inr_conv split: prod.splits)

lemma tok_other_rest: "tok_other opt links k t ts st = Inr (out, ts', st') \<Longrightarrow> length ts' \<le> length ts"
  by (auto simp: tok_other_def tok_leaf_def bindR_Inr_conv dest!: parseText_rest split: token.splits if_splits)

function parse_until :: "options \<Rightarrow> links \<Rightarrow> loop \<Rightarrow> token list \<Rightarrow> istate \<Rightarrow> (jsstr \<times> token list \<times> istate) res" where
  "parse_until opt links k toks st =
     (case toks of
        [] \<Rightarrow> if k = TopLevel then Inr ([], [], st) else Inl TypeError
      | t # ts \<Rightarrow>
          if closes k t then Inr ([], ts, st)
          else bindR (case opens t of
                        Some k' \<Rightarrow> bindR (parse_until opt links k' ts st) (\<lambda>(body, ts, st). Inr (wrap t body, ts, st))
                      | None \<Rightarrow> tok_other opt links k t ts st) (\<lambda>(out, ts, st).
                 bindR (parse_until opt links k ts st) (\<lambda>(out', ts, st). Inr (out @ out', ts, st))))"
  by pat_completeness auto

termination
proof -
  have rest: "length ts' \<le> length toks"
    if "parse_until_dom (opt, links, k, toks, st)" "parse_until opt links k toks st = Inr (out, ts', st')" for opt links k toks st out ts' st'
    using that
  proof (induction opt links k toks st arbitrary: out ts' st' rule: parse_until.pinduct)
    case (1 opt links k toks st)
    show ?case
    proof (cases toks)
      case Nil
      with 1 show ?thesis by (auto simp: parse_until.psimps split: if_splits)
    next
      case (Cons t ts)
      show ?thesis
      proof (cases "closes k t")
        case True
        with 1 Cons show ?thesis by (auto simp: parse_until.psimps)
      next
        case False
        let ?first = "case opens t of Some k' \<Rightarrow> bindR (parse_until opt links k' ts st) (\<lambda>(body, ts, st). Inr (wrap t body, ts, st)) | None \<Rightarrow> tok_other opt links k t ts st"
        from 1 Cons False obtain o1 ts1 st1 o2 where f: "?first = Inr (o1, ts1, st1)" "parse_until opt links k ts1 st1 = Inr (o2, ts', st')"
          by (auto simp: parse_until.psimps bindR_Inr_conv)
        have "length ts1 \<le> length ts"
        proof (cases "opens t")
          case None
          with f(1) show ?thesis by (auto dest: tok_other_rest)
        next
          case (Some k')
          with f(1) obtain b where "parse_until opt links k' ts st = Inr (b, ts1, st1)" by (auto simp: bindR_Inr_conv)
          then show ?thesis using 1(2) [OF Cons False Some] by blast
        qed
        moreover have "length ts' \<le> length ts1" using 1(3) [OF Cons False f(1) refl refl f(2)] .
        ultimately show ?thesis using Cons by simp
      qed
    qed
  qed
  show ?thesis
  proof (relation "measure (\<lambda>(opt, links, k, toks, st). length toks)", goal_cases)
    case (3 opt links k toks st t ts x o1 y ts1 st1)
    have "length ts1 \<le> length ts"
    proof (cases "opens t")
      case None
      with 3 show ?thesis by (auto dest: tok_other_rest)
    next
      case (Some k')
      with 3 show ?thesis by (auto simp: bindR_Inr_conv dest: rest)
    qed
    with 3 show ?case by auto
  qed auto
qed

declare parse_until.simps [simp del]

text \<open>\<open>Parser.parse\<close>.\<close>

definition parse_tokens :: "options \<Rightarrow> lexer \<Rightarrow> jsstr res" where
  "parse_tokens opt lx =
     bindR (parse_until opt (tokens_links lx) TopLevel (tokens lx) \<lparr>inLink = False, calls = 0\<rparr>) (\<lambda>(out, ts, st). Inr out)"

section \<open>Parsing blocks\<close>

text \<open>What may follow the tokens of the blocks inside a loop: its end and anything after it.\<close>

fun loop_tail :: "loop \<Rightarrow> token list \<Rightarrow> token list \<Rightarrow> bool" where
  "loop_tail TopLevel tail rest = (tail = [] \<and> rest = [])"
| "loop_tail k tail rest = (\<exists>e. closes k e \<and> tail = e # rest)"

lemma text_run_blocks:
  assumes "loop_tail k tail rest" "list_all wf_block bs"
  shows "\<exists>body bs'. text_run (flatten_all bs @ tail) = (body, flatten_all bs' @ tail) \<and> list_all wf_block bs' \<and> length (flatten_all bs') \<le> length (flatten_all bs)"
  using assms(2)
proof (induction bs)
  case Nil
  have "text_run tail = ([], tail)" using assms(1) by (cases k) auto
  then show ?case by (intro exI [of _ "[]"]) simp
next
  case (Cons b bs)
  have stop: ?case if "text_run (flatten_all (b # bs) @ tail) = ([], flatten_all (b # bs) @ tail)"
    using that Cons.prems by (intro exI [of _ "[]"] exI [of _ "b # bs"]) simp
  show ?case
  proof (cases b)
    case (Leaf t)
    show ?thesis
    proof (cases t)
      case (TextTok x)
      from Cons obtain body bs' where "text_run (flatten_all bs @ tail) = (body, flatten_all bs' @ tail)" "list_all wf_block bs'" "length (flatten_all bs') \<le> length (flatten_all bs)"
        by auto
      then show ?thesis using Leaf TextTok by (intro exI [of _ "[10] @ x @ body"] exI [of _ bs']) simp
    qed (rule stop, simp add: Leaf)+
  qed (rule stop, simp)+
qed

lemma table_row_total: "\<exists>out st'. table_row opt links header align cs st = Inr (out, st')"
proof (induction cs arbitrary: align st)
  case (Cons c cs)
  obtain t st1 where 1: "inline_output opt links c st = Inr (t, st1)" using inline_output_returns by blast
  from Cons.IH [of "tl align" st1] 1 show ?case by auto
qed simp

lemma table_body_total: "\<exists>out st'. table_body opt links align rows st = Inr (out, st')"
proof (induction rows arbitrary: st)
  case (Cons row rows)
  obtain t st1 where 1: "table_row opt links False align row st = Inr (t, st1)" using table_row_total by blast
  from Cons.IH [of st1] 1 show ?case by auto
qed simp

lemma parseText_blocks:
  assumes "loop_tail k tail rest" "list_all wf_block bs"
  shows "\<exists>out bs' st'. parseText opt links x (flatten_all bs @ tail) st = Inr (out, flatten_all bs' @ tail, st') \<and> list_all wf_block bs' \<and> length (flatten_all bs') \<le> length (flatten_all bs)"
proof -
  obtain body bs' where 1: "text_run (flatten_all bs @ tail) = (body, flatten_all bs' @ tail)" "list_all wf_block bs'" "length (flatten_all bs') \<le> length (flatten_all bs)"
    using text_run_blocks [OF assms] by blast
  obtain t st1 where "inline_output opt links (x @ body) st = Inr (t, st1)" using inline_output_returns by blast
  with 1 show ?thesis by (auto simp: parseText_def)
qed

lemma tok_leaf_total:
  "is_leaf t \<Longrightarrow> (\<And>x. t \<noteq> TextTok x) \<Longrightarrow> \<exists>out st'. tok_leaf opt links t ts st = Inr (out, ts, st')"
proof -
  assume t: "is_leaf t" "\<And>x. t \<noteq> TextTok x"
  have inl: "\<exists>out st'. inline_output opt links x st = Inr (out, st')" for x by (rule inline_output_returns)
  show ?thesis
  proof (cases t)
    case (Table header align cells)
    obtain o1 st1 where 1: "table_row opt links True align header st = Inr (o1, st1)" using table_row_total by blast
    obtain o2 st2 where "table_body opt links align cells st1 = Inr (o2, st2)" using table_body_total by blast
    with 1 Table show ?thesis by (simp add: tok_leaf_def)
  next
    case (Heading d x)
    then show ?thesis using inl [of x] by (auto simp: tok_leaf_def)
  next
    case (Html p x)
    then show ?thesis using inl [of x] by (auto simp: tok_leaf_def)
  next
    case (Paragraph x)
    then show ?thesis using inl [of x] by (auto simp: tok_leaf_def)
  qed (use t in \<open>auto simp: tok_leaf_def\<close>)
qed

lemma tok_other_leaf:
  assumes "is_leaf t" "loop_tail k tail rest" "list_all wf_block bs"
  shows "\<exists>out bs' st'. tok_other opt links k t (flatten_all bs @ tail) st = Inr (out, flatten_all bs' @ tail, st') \<and> list_all wf_block bs' \<and> length (flatten_all bs') \<le> length (flatten_all bs)"
proof (cases "\<exists>x. t = TextTok x")
  case True
  then obtain x where x: "t = TextTok x" by blast
  obtain out bs' st' where "parseText opt links x (flatten_all bs @ tail) st = Inr (out, flatten_all bs' @ tail, st')" "list_all wf_block bs'" "length (flatten_all bs') \<le> length (flatten_all bs)"
    using parseText_blocks [OF assms(2,3)] by blast
  then show ?thesis by (auto simp: x tok_other_def tok_leaf_def)
next
  case False
  then have "tok_other opt links k t (flatten_all bs @ tail) st = tok_leaf opt links t (flatten_all bs @ tail) st" by (cases t) (auto simp: tok_other_def)
  with tok_leaf_total [OF assms(1), of opt links "flatten_all bs @ tail" st] False assms(3) show ?thesis by auto
qed

lemma not_closes: "is_leaf t \<or> opens t \<noteq> None \<Longrightarrow> \<not> closes k t"
  by (cases k; cases t) auto

lemma leaf_opens: "is_leaf t \<Longrightarrow> opens t = None"
  by (cases t) auto

lemma parse_blocks:
  "list_all wf_block bs \<Longrightarrow> loop_tail k tail rest \<Longrightarrow> \<exists>out st'. parse_until opt links k (flatten_all bs @ tail) st = Inr (out, rest, st')"
proof (induction "length (flatten_all bs)" arbitrary: bs k tail rest st rule: less_induct)
  case less
  show ?case
  proof (cases bs)
    case Nil
    with less.prems(2) show ?thesis by (cases k) (auto simp: parse_until.simps)
  next
    case (Cons b bs1)
    have node: ?thesis if n: "opens t = Some k'" "flatten b = [t] @ flatten_all inner @ [e]" "list_all wf_block inner" "closes k' e" for t k' e inner
    proof -
      have "loop_tail k' (e # flatten_all bs1 @ tail) (flatten_all bs1 @ tail)" using n(4) by (cases k') auto
      then obtain o1 st1 where 1: "parse_until opt links k' (flatten_all inner @ e # flatten_all bs1 @ tail) st = Inr (o1, flatten_all bs1 @ tail, st1)"
        using less.hyps [of inner] n Cons by fastforce
      obtain o2 st2 where 2: "parse_until opt links k (flatten_all bs1 @ tail) st1 = Inr (o2, rest, st2)"
        using less.hyps [of bs1 k tail rest st1] less.prems n Cons by auto
      show ?thesis using 1 2 n not_closes [of t k] by (subst parse_until.simps) (simp add: Cons)
    qed
    have wf: "wf_block b" using less.prems Cons by simp
    show ?thesis
    proof (cases b)
      case (Leaf t)
      then have t: "is_leaf t" using wf by simp
      obtain o1 bs' st1 where 1: "tok_other opt links k t (flatten_all bs1 @ tail) st = Inr (o1, flatten_all bs' @ tail, st1)"
          "list_all wf_block bs'" "length (flatten_all bs') \<le> length (flatten_all bs1)"
        using tok_other_leaf [OF t less.prems(2), of bs1] less.prems(1) Cons by fastforce
      then obtain o2 st2 where 2: "parse_until opt links k (flatten_all bs' @ tail) st1 = Inr (o2, rest, st2)"
        using less.hyps [of bs' k tail rest st1] less.prems Cons Leaf by auto
      show ?thesis using 1 2 t leaf_opens [OF t] not_closes [of t k] by (subst parse_until.simps) (simp add: Cons Leaf)
    next
      case (Quoted inner)
      show ?thesis by (rule node [of BlockquoteStart InQuote inner BlockquoteEnd]) (use wf Quoted in auto)
    next
      case (Listed ordered inner)
      show ?thesis by (rule node [of "ListStart ordered" InList inner ListEnd]) (use wf Listed in auto)
    next
      case (Item loose inner)
      show ?thesis
        by (rule node [of "if loose then LooseItemStart else ListItemStart" "if loose then InLooseItem else InItem" inner ListItemEnd]) (use wf Item in auto)
    qed
  qed
qed

lemma parse_tokens_blocks: "list_all wf_block bs \<Longrightarrow> tokens lx = flatten_all bs \<Longrightarrow> \<exists>out. parse_tokens opt lx = Inr out"
  using parse_blocks [of bs TopLevel "[]" "[]" opt "tokens_links lx" "\<lparr>inLink = False, calls = 0\<rparr>"] by (auto simp: parse_tokens_def)

context token_source
begin

lemma parses: "\<exists>lx out. source opt src = Inr lx \<and> parse_tokens opt lx = Inr out"
  using source_blocks [of opt src] parse_tokens_blocks by blast

end

end
