(* ===== verification/Marked_Main.thy ===== *)
theory Marked_Main
  imports Marked_Parser
begin

text \<open>
  The function \<open>marked\<close>: the synchronous call with its error handler and the call with a callback, where a
  highlighter answers for the code tokens in any order.
\<close>

section \<open>Options\<close>

text \<open>\<open>merge\<close>: an object is the list of the properties a \<open>for ... in\<close> loop visits, each with the flag whether the
  object itself has it.\<close>

type_synonym 'v properties = "(jsstr \<times> bool \<times> 'v) list"

fun merge_one :: "'v properties \<Rightarrow> (jsstr \<rightharpoonup> 'v) \<Rightarrow> (jsstr \<rightharpoonup> 'v)" where
  "merge_one [] obj = obj"
| "merge_one ((key, own, v) # target) obj = merge_one target (if own then obj(key \<mapsto> v) else obj)"

definition merge :: "(jsstr \<rightharpoonup> 'v) \<Rightarrow> 'v properties list \<Rightarrow> (jsstr \<rightharpoonup> 'v)" where
  "merge obj targets = fold merge_one targets obj"

lemma merge_one_eq: "merge_one target obj = obj ++ map_of (map (\<lambda>(k, own, v). (k, v)) (filter (\<lambda>(k, own, v). own) (rev target)))"
  by (induction target obj rule: merge_one.induct) (auto simp: map_add_def fun_eq_iff split: option.splits)

section \<open>The synchronous call\<close>

text \<open>\<open>message\<close> is the text the engine gives the errors it throws itself.\<close>

definition report_note :: jsstr where
  "report_note = [10] @ lit ''Please report this to https://github.com/chjj/marked.''"

definition error_message :: "(exn \<Rightarrow> jsstr) \<Rightarrow> exn \<Rightarrow> jsstr" where
  "error_message message e = (case e of JSError m \<Rightarrow> m | _ \<Rightarrow> message e)"

definition with_note :: "exn \<Rightarrow> exn" where
  "with_note e = (case e of JSError m \<Rightarrow> JSError (m @ report_note) | _ \<Rightarrow> e)"

definition marked :: "(exn \<Rightarrow> jsstr) \<Rightarrow> options \<Rightarrow> jsstr \<Rightarrow> jsstr res" where
  "marked message opt src =
     (case bindR (lex opt src) (parse_tokens opt) of
        Inr out \<Rightarrow> Inr out
      | Inl e \<Rightarrow>
          if silent opt then Inr (lit ''<p>An error occured:</p><pre>'' @ escape (error_message message e @ report_note) True @ lit ''</pre>'')
          else Inl (with_note e))"

section \<open>The call with a callback\<close>

text \<open>The state between events: the tokens, \<open>pending\<close>, the options as they are and the calls of \<open>callback\<close> so
  far, an error or the text each.  An event is a round of the loop over the tokens or an answer of the
  highlighter.\<close>

record async =
  work :: lexer
  pending :: int
  settings :: options
  answered :: "jsstr res list"

datatype async_event = Visit nat | Answer nat "jsstr option res"

text \<open>\<open>done\<close>, with an error and without; \<open>opt.highlight\<close> is set again to what it was, after the tokens are
  rendered.\<close>

definition done_with :: "options \<Rightarrow> exn option \<Rightarrow> async \<Rightarrow> async" where
  "done_with opt err s =
     (let r = (case err of Some e \<Rightarrow> Inl e | None \<Rightarrow> parse_tokens (settings s) (work s))
      in s\<lparr>settings := (settings s)\<lparr>highlight := highlight opt\<rparr>, answered := answered s @ [r]\<rparr>)"

definition count_down :: "options \<Rightarrow> async \<Rightarrow> async" where
  "count_down opt s =
     (let s = s\<lparr>pending := pending s - 1\<rparr> in if pending s = 0 then done_with opt None s else s)"

definition set_token :: "nat \<Rightarrow> token \<Rightarrow> async \<Rightarrow> async" where
  "set_token i t s = s\<lparr>work := (work s)\<lparr>tokens := (tokens (work s))[i := t]\<rparr>\<rparr>"

fun async_step :: "options \<Rightarrow> async_event \<Rightarrow> async \<Rightarrow> async" where
  "async_step opt (Visit i) s = (case tokens (work s) ! i of Code _ _ _ \<Rightarrow> s | _ \<Rightarrow> count_down opt s)"
| "async_step opt (Answer i r) s =
     (case r of
        Inl e \<Rightarrow> done_with opt (Some e) s
      | Inr None \<Rightarrow> count_down opt s
      | Inr (Some code) \<Rightarrow>
          (case tokens (work s) ! i of
             Code text lang escaped \<Rightarrow> if code = text then count_down opt s else count_down opt (set_token i (Code code lang True) s)
           | _ \<Rightarrow> s))"

text \<open>The start: without a highlighter that takes a callback the call is finished at once, as it is without
  tokens.  Otherwise the option \<open>highlight\<close> is removed and the loop starts.\<close>

definition async_start :: "options \<Rightarrow> bool \<Rightarrow> jsstr \<Rightarrow> async" where
  "async_start opt asynchronous src =
     (case lex opt src of
        Inl e \<Rightarrow> \<lparr>work = \<lparr>tokens = [], tokens_links = Map.empty\<rparr>, pending = 0, settings = opt, answered = [Inl e]\<rparr>
      | Inr lx \<Rightarrow>
          let s = \<lparr>work = lx, pending = int (length (tokens lx)), settings = opt, answered = []\<rparr>
          in if \<not> asynchronous then done_with opt None s
             else let s = s\<lparr>settings := opt\<lparr>highlight := None\<rparr>\<rparr> in if tokens lx = [] then done_with opt None s else s)"

definition async_run :: "options \<Rightarrow> async_event list \<Rightarrow> async \<Rightarrow> async" where
  "async_run opt es s = fold (async_step opt) es s"

section \<open>Totality\<close>

text \<open>C1: \<open>marked\<close> returns a text for every source text and every setting of the options: the lexer and the
  parser end, none of their errors is thrown, and the message of the handler is never shown.\<close>

theorem marked_total: "\<exists>lx out. lex opt src = Inr lx \<and> parse_tokens opt lx = Inr out \<and> marked message opt src = Inr out"
  using block_lexer.parses [of opt src] by (auto simp: marked_def)

section \<open>Order of the answers\<close>

text \<open>The token after the answer of the highlighter.\<close>

definition highlighted :: "(nat \<Rightarrow> jsstr option) \<Rightarrow> nat \<Rightarrow> token \<Rightarrow> token" where
  "highlighted answers i t =
     (case t of
        Code text lang escaped \<Rightarrow> (case answers i of Some code \<Rightarrow> if code = text then t else Code code lang True | None \<Rightarrow> t)
      | _ \<Rightarrow> t)"

definition is_code :: "token \<Rightarrow> bool" where
  "is_code t = (case t of Code _ _ _ \<Rightarrow> True | _ \<Rightarrow> False)"

text \<open>The event that settles a token: the answer for a code token, the visit of the loop for any other.\<close>

definition settles :: "token list \<Rightarrow> nat \<Rightarrow> async_event \<Rightarrow> bool" where
  "settles ts i e = (case e of Visit j \<Rightarrow> j = i \<and> \<not> is_code (ts ! i) | Answer j r \<Rightarrow> j = i \<and> is_code (ts ! i))"


definition highlight_all :: "(nat \<Rightarrow> jsstr option) \<Rightarrow> token list \<Rightarrow> token list" where
  "highlight_all answers ts = map (\<lambda>i. highlighted answers i (ts ! i)) [0..<length ts]"

definition well_behaved :: "(nat \<Rightarrow> jsstr option) \<Rightarrow> token list \<Rightarrow> async_event \<Rightarrow> bool" where
  "well_behaved answers ts e = (case e of Visit i \<Rightarrow> i < length ts | Answer i r \<Rightarrow> i < length ts \<and> is_code (ts ! i) \<and> r = Inr (answers i))"

definition async_inv :: "options \<Rightarrow> lexer \<Rightarrow> (nat \<Rightarrow> jsstr option) \<Rightarrow> nat set \<Rightarrow> async \<Rightarrow> bool" where
  "async_inv opt lx answers D s \<longleftrightarrow>
     (let n = length (tokens lx)
      in D \<subseteq> {..<n} \<and> work s = lx\<lparr>tokens := map (\<lambda>i. if i \<in> D then highlighted answers i (tokens lx ! i) else tokens lx ! i) [0..<n]\<rparr> \<and>
         pending s = int n - int (card D) \<and>
         (if card D < n then settings s = opt\<lparr>highlight := None\<rparr> \<and> answered s = []
          else answered s = [parse_tokens (opt\<lparr>highlight := None\<rparr>) (lx\<lparr>tokens := highlight_all answers (tokens lx)\<rparr>)]))"

lemma is_code_highlighted: "is_code (highlighted answers i t) = is_code t"
  by (auto simp: highlighted_def is_code_def split: token.splits option.splits)

lemma count_down_inv:
  assumes inv: "async_inv opt lx answers D s" and i: "i < length (tokens lx)" "i \<notin> D"
    and s': "s' = s\<lparr>work := (work s)\<lparr>tokens := (tokens (work s))[i := highlighted answers i (tokens lx ! i)]\<rparr>\<rparr>"
  shows "async_inv opt lx answers (insert i D) (count_down opt s')"
proof -
  let ?n = "length (tokens lx)"
  have D: "D \<subseteq> {..<?n}" "finite D" using inv finite_subset by (auto simp: async_inv_def Let_def)
  have "card (insert i D) \<le> card {..<?n}" by (rule card_mono) (use D i in auto)
  then have c: "card (insert i D) = Suc (card D)" "card D < ?n" using D i by auto
  have w: "work s' = lx\<lparr>tokens := map (\<lambda>j. if j \<in> insert i D then highlighted answers j (tokens lx ! j) else tokens lx ! j) [0..<?n]\<rparr>"
  proof -
    have "(map (\<lambda>j. if j \<in> D then highlighted answers j (tokens lx ! j) else tokens lx ! j) [0..<?n])[i := highlighted answers i (tokens lx ! i)] =
        map (\<lambda>j. if j \<in> insert i D then highlighted answers j (tokens lx ! j) else tokens lx ! j) [0..<?n]"
    proof (rule nth_equalityI)
      fix k assume "k < length ((map (\<lambda>j. if j \<in> D then highlighted answers j (tokens lx ! j) else tokens lx ! j) [0..<?n])[i := highlighted answers i (tokens lx ! i)])"
      then show "(map (\<lambda>j. if j \<in> D then highlighted answers j (tokens lx ! j) else tokens lx ! j) [0..<?n])[i := highlighted answers i (tokens lx ! i)] ! k =
          map (\<lambda>j. if j \<in> insert i D then highlighted answers j (tokens lx ! j) else tokens lx ! j) [0..<?n] ! k"
        by (cases "k = i") auto
    qed simp
    then show ?thesis using inv by (simp add: s' async_inv_def Let_def)
  qed
  have full: "insert i D = {..<?n}" if "Suc (card D) = ?n" using that D i c by (intro card_subset_eq) auto
  then have all: "map (\<lambda>j. if j \<in> insert i D then highlighted answers j (tokens lx ! j) else tokens lx ! j) [0..<?n] = highlight_all answers (tokens lx)" if "Suc (card D) = ?n"
    using that by (auto simp: highlight_all_def)
  show ?thesis
    using inv c D i w all unfolding async_inv_def Let_def count_down_def done_with_def by (auto simp: s')
qed

lemma async_step_inv:
  assumes inv: "async_inv opt lx answers D s" and wb: "well_behaved answers (tokens lx) e"
    and i: "settles (tokens lx) i e" "i \<notin> D"
  shows "async_inv opt lx answers (insert i D) (async_step opt e s)"
proof -
  have n: "i < length (tokens lx)" using wb i by (auto simp: well_behaved_def settles_def split: async_event.splits)
  have t: "tokens (work s) ! i = tokens lx ! i" using inv n i(2) by (simp add: async_inv_def Let_def)
  have same: "s\<lparr>work := (work s)\<lparr>tokens := (tokens (work s))[i := tokens lx ! i]\<rparr>\<rparr> = s" using t by (metis async.surjective async.update_convs(1) lexer.surjective lexer.update_convs(1) list_update_id)
  note count = count_down_inv [OF inv n i(2) refl]
  show ?thesis
  proof (cases e)
    case (Visit j)
    then have "j = i" "\<not> is_code (tokens lx ! i)" using i(1) by (auto simp: settles_def)
    then have "async_step opt e s = count_down opt s" "highlighted answers i (tokens lx ! i) = tokens lx ! i"
      using Visit t by (auto simp: is_code_def highlighted_def split: token.splits)
    with count same show ?thesis by simp
  next
    case (Answer j r)
    then have "j = i" "is_code (tokens lx ! i)" using i(1) by (auto simp: settles_def)
    then obtain body lang escaped where c: "tokens lx ! i = Code body lang escaped" by (auto simp: is_code_def split: token.splits)
    have r: "r = Inr (answers i)" using wb Answer \<open>j = i\<close> by (auto simp: well_behaved_def)
    show ?thesis
    proof (cases "answers i = None \<or> answers i = Some body")
      case True
      then have "async_step opt e s = count_down opt s" "highlighted answers i (tokens lx ! i) = tokens lx ! i"
        using Answer \<open>j = i\<close> t c r by (auto simp: highlighted_def)
      with count same show ?thesis by simp
    next
      case False
      then obtain code where code: "answers i = Some code" "code \<noteq> body" by auto
      then have "async_step opt e s = count_down opt (set_token i (Code code lang True) s)" "highlighted answers i (tokens lx ! i) = Code code lang True"
        using Answer \<open>j = i\<close> t c r by (auto simp: highlighted_def)
      with count show ?thesis by (simp add: set_token_def)
    qed
  qed
qed

lemma async_step_idle:
  assumes inv: "async_inv opt lx answers D s" and wb: "well_behaved answers (tokens lx) e" and ns: "\<And>i. \<not> settles (tokens lx) i e"
  shows "async_step opt e s = s"
proof (cases e)
  case (Visit i)
  then have i: "i < length (tokens lx)" "is_code (tokens lx ! i)" using wb ns [of i] by (auto simp: well_behaved_def settles_def)
  then have "is_code (tokens (work s) ! i)" using inv by (auto simp: async_inv_def Let_def is_code_highlighted)
  then show ?thesis using Visit by (auto simp: is_code_def split: token.splits)
next
  case (Answer i r)
  then show ?thesis using wb ns [of i] by (auto simp: well_behaved_def settles_def)
qed

lemma settles_unique: "settles ts i e \<Longrightarrow> settles ts j e \<Longrightarrow> i = j"
  by (auto simp: settles_def split: async_event.splits)

lemma async_run_inv:
  "async_inv opt lx answers D s \<Longrightarrow> list_all (well_behaved answers (tokens lx)) es \<Longrightarrow>
   (\<And>i. length (filter (settles (tokens lx) i) es) = (if i < length (tokens lx) \<and> i \<notin> D then 1 else 0)) \<Longrightarrow>
   async_inv opt lx answers {..<length (tokens lx)} (fold (async_step opt) es s)"
proof (induction es arbitrary: D s)
  case Nil
  have "D \<subseteq> {..<length (tokens lx)}" using Nil(1) by (auto simp: async_inv_def Let_def)
  moreover have "i \<in> D" if "i < length (tokens lx)" for i using Nil(3) [of i] that by (auto split: if_splits)
  ultimately have "D = {..<length (tokens lx)}" by auto
  with Nil(1) show ?case by simp
next
  case (Cons e es)
  have wb: "well_behaved answers (tokens lx) e" "list_all (well_behaved answers (tokens lx)) es" using Cons.prems(2) by auto
  show ?case
  proof (cases "\<exists>i. settles (tokens lx) i e")
    case True
    then obtain i where i: "settles (tokens lx) i e" by blast
    have "i \<notin> D" using Cons.prems(3) [of i] i by (auto split: if_splits)
    have cnt: "length (filter (settles (tokens lx) j) es) = (if j < length (tokens lx) \<and> j \<notin> insert i D then 1 else 0)" for j
    proof (cases "j = i")
      case True
      then show ?thesis using Cons.prems(3) [of i] i by (simp split: if_splits)
    next
      case False
      then have "\<not> settles (tokens lx) j e" using settles_unique [OF i] by blast
      then show ?thesis using Cons.prems(3) [of j] False by simp
    qed
    from Cons.IH [OF async_step_inv [OF Cons.prems(1) wb(1) i \<open>i \<notin> D\<close>] wb(2) cnt] show ?thesis unfolding fold_simps .
  next
    case False
    then have cnt: "length (filter (settles (tokens lx) j) es) = (if j < length (tokens lx) \<and> j \<notin> D then 1 else 0)" for j
      using Cons.prems(3) [of j] by simp
    have "async_step opt e s = s" using False by (intro async_step_idle [OF Cons.prems(1) wb(1)]) blast
    with Cons.IH [OF Cons.prems(1) wb(2) cnt] show ?thesis by simp
  qed
qed

text \<open>Highlighting keeps the structure of the blocks.\<close>

definition same_shape :: "token \<Rightarrow> token \<Rightarrow> bool" where
  "same_shape t t' \<longleftrightarrow> t = t' \<or> is_code t \<and> is_code t'"

lemma is_code_leaf: "is_code t \<Longrightarrow> is_leaf t"
  by (cases t) (auto simp: is_code_def)

lemma shape_other: "\<not> is_code t \<Longrightarrow> same_shape t t' \<longleftrightarrow> t' = t"
  by (auto simp: same_shape_def)

lemma shape_blocks_aux:
  "(\<And>b ts'. b \<in> set bs \<Longrightarrow> list_all2 same_shape (flatten b) ts' \<Longrightarrow> \<exists>b'. wf_block b' \<and> ts' = flatten b') \<Longrightarrow>
   list_all2 same_shape (flatten_all bs) ts' \<Longrightarrow> \<exists>bs'. list_all wf_block bs' \<and> ts' = flatten_all bs'"
proof (induction bs arbitrary: ts')
  case Nil
  then show ?case by (auto intro: exI [of _ "[]"])
next
  case (Cons b bs)
  from Cons.prems(2) obtain u v where uv: "ts' = u @ v" "list_all2 same_shape (flatten b) u" "list_all2 same_shape (flatten_all bs) v"
    by (auto simp: list_all2_append1)
  from Cons.prems(1) [OF _ uv(2)] obtain b' where "wf_block b'" "u = flatten b'" by auto
  moreover have "\<exists>bs'. list_all wf_block bs' \<and> v = flatten_all bs'" by (rule Cons.IH [OF _ uv(3)]) (use Cons.prems(1) in auto)
  then obtain bs' where "list_all wf_block bs'" "v = flatten_all bs'" by blast
  ultimately show ?case using uv(1) by (intro exI [of _ "b' # bs'"]) simp
qed

lemma shape_block: "wf_block b \<Longrightarrow> list_all2 same_shape (flatten b) ts' \<Longrightarrow> \<exists>b'. wf_block b' \<and> ts' = flatten b'"
proof (induction b arbitrary: ts' rule: flatten.induct)
  case (1 t)
  then obtain t' where t': "ts' = [t']" "same_shape t t'" by (auto simp: list_all2_Cons1)
  then have "is_leaf t'" using 1 is_code_leaf by (auto simp: same_shape_def)
  with t' show ?case by (intro exI [of _ "Leaf t'"]) simp
next
  case (2 bs)
  from 2(3) obtain mid where mid: "ts' = [BlockquoteStart] @ mid @ [BlockquoteEnd]" "list_all2 same_shape (flatten_all bs) mid"
    by (auto simp: list_all2_Cons1 list_all2_append1 shape_other is_code_def)
  have "\<exists>bs'. list_all wf_block bs' \<and> mid = flatten_all bs'" by (rule shape_blocks_aux [OF _ mid(2)]) (use 2 in \<open>auto simp: list_all_iff\<close>)
  then obtain bs' where "list_all wf_block bs'" "mid = flatten_all bs'" by blast
  with mid show ?case by (intro exI [of _ "Quoted bs'"]) simp
next
  case (3 ordered bs)
  from 3(3) obtain mid where mid: "ts' = [ListStart ordered] @ mid @ [ListEnd]" "list_all2 same_shape (flatten_all bs) mid"
    by (auto simp: list_all2_Cons1 list_all2_append1 shape_other is_code_def)
  have "\<exists>bs'. list_all wf_block bs' \<and> mid = flatten_all bs'" by (rule shape_blocks_aux [OF _ mid(2)]) (use 3 in \<open>auto simp: list_all_iff\<close>)
  then obtain bs' where "list_all wf_block bs'" "mid = flatten_all bs'" by blast
  with mid show ?case by (intro exI [of _ "Listed ordered bs'"]) simp
next
  case (4 loose bs)
  from 4(3) obtain mid where mid: "ts' = [if loose then LooseItemStart else ListItemStart] @ mid @ [ListItemEnd]" "list_all2 same_shape (flatten_all bs) mid"
    by (cases loose) (auto simp: list_all2_Cons1 list_all2_append1 shape_other is_code_def)
  have "\<exists>bs'. list_all wf_block bs' \<and> mid = flatten_all bs'" by (rule shape_blocks_aux [OF _ mid(2)]) (use 4 in \<open>auto simp: list_all_iff\<close>)
  then obtain bs' where "list_all wf_block bs'" "mid = flatten_all bs'" by blast
  with mid show ?case by (intro exI [of _ "Item loose bs'"]) simp
qed

lemma parse_highlighted:
  assumes "lex opt src = Inr lx"
  shows "\<exists>out. parse_tokens opt' (lx\<lparr>tokens := highlight_all answers (tokens lx)\<rparr>) = Inr out"
proof -
  obtain bs where bs: "list_all wf_block bs" "tokens lx = flatten_all bs" using lex_blocks [of opt src] assms by auto
  have "same_shape (tokens lx ! i) (highlighted answers i (tokens lx ! i))" for i
    using is_code_highlighted by (auto simp: same_shape_def highlighted_def split: token.splits option.splits) (simp_all add: is_code_def)
  then have "list_all2 same_shape (flatten_all bs) (highlight_all answers (tokens lx))" by (simp add: bs(2) [symmetric] highlight_all_def list_all2_conv_all_nth)
  then have "\<exists>bs'. list_all wf_block bs' \<and> highlight_all answers (tokens lx) = flatten_all bs'"
    by (rule shape_blocks_aux [rotated]) (use bs(1) shape_block in \<open>auto simp: list_all_iff\<close>)
  then show ?thesis using parse_tokens_blocks [of _ "lx\<lparr>tokens := highlight_all answers (tokens lx)\<rparr>"] by auto
qed

text \<open>C24: with a highlighter that answers once for each code token and never with an error, the callback is
  called exactly once, with the rendering of the highlighted tokens, in whatever order the answers and the
  rounds of the loop come.\<close>

theorem async_callback_once:
  assumes "lex opt src = Inr lx" "tokens lx \<noteq> []" "list_all (well_behaved answers (tokens lx)) es"
    and "\<forall>i. length (filter (settles (tokens lx) i) es) = (if i < length (tokens lx) then 1 else 0)"
  shows "\<exists>out. answered (async_run opt es (async_start opt True src)) = [Inr out] \<and>
    parse_tokens (opt\<lparr>highlight := None\<rparr>) (lx\<lparr>tokens := highlight_all answers (tokens lx)\<rparr>) = Inr out"
proof -
  let ?out = "parse_tokens (opt\<lparr>highlight := None\<rparr>) (lx\<lparr>tokens := highlight_all answers (tokens lx)\<rparr>)"
  have "async_inv opt lx answers {} (async_start opt True src)"
    using assms(1,2) by (simp add: async_inv_def async_start_def Let_def map_nth)
  then have "async_inv opt lx answers {..<length (tokens lx)} (async_run opt es (async_start opt True src))"
    unfolding async_run_def using assms(3,4) by (intro async_run_inv [where D = "{}"]) simp_all
  then have "answered (async_run opt es (async_start opt True src)) = [?out]" by (simp add: async_inv_def Let_def)
  moreover have "\<exists>out. ?out = Inr out" by (rule parse_highlighted [OF assms(1)])
  ultimately show ?thesis by auto
qed


text \<open>A document with two code blocks and a rule between them.\<close>

definition sample :: jsstr where
  "sample = lit ''    a'' @ [10] @ lit ''---'' @ [10] @ lit ''    b''"

definition sample_options :: options where
  "sample_options = defaults (\<lambda>s. s) (\<lambda>_. False)"

lemma sample_tokens: "\<exists>lx. lex sample_options sample = Inr lx \<and> tokens lx = [Code (lit ''a'') None False, Hr, Code (lit ''b'') None False]"
proof -
  have "(case lex sample_options sample of Inr lx \<Rightarrow> tokens lx = [Code (lit ''a'') None False, Hr, Code (lit ''b'') None False] | _ \<Rightarrow> False)"
    by code_simp
  then show ?thesis by (auto split: sum.splits)
qed

theorem async_callback_once_witness:
  "\<exists>out. answered (async_run sample_options [Visit 0, Visit 1, Visit 2, Answer 2 (Inr None), Answer 0 (Inr (Some (lit ''<b>a</b>'')))] (async_start sample_options True sample)) = [Inr out]"
proof -
  obtain lx where lx: "lex sample_options sample = Inr lx" "tokens lx = [Code (lit ''a'') None False, Hr, Code (lit ''b'') None False]" using sample_tokens by blast
  let ?es = "[Visit 0, Visit 1, Visit 2, Answer 2 (Inr None), Answer 0 (Inr (Some (lit ''<b>a</b>'')))]" and ?answers = "\<lambda>i::nat. if i = 0 then Some (lit ''<b>a</b>'') else None"
  have ne: "tokens lx \<noteq> []" by (simp add: lx(2))
  have wb: "list_all (well_behaved ?answers (tokens lx)) ?es" by (simp add: lx(2) well_behaved_def is_code_def)
  have once: "\<forall>i. length (filter (settles (tokens lx) i) ?es) = (if i < length (tokens lx) then 1 else 0)"
  proof
    fix i :: nat
    show "length (filter (settles (tokens lx) i) ?es) = (if i < length (tokens lx) then 1 else 0)"
      by (cases "i = 0"; cases "i = 1"; cases "i = 2") (auto simp: lx(2) settles_def is_code_def nth_Cons')
  qed
  from async_callback_once [OF lx(1) ne wb once] show ?thesis by blast
qed


section \<open>Errors of the highlighter\<close>

definition counts_down :: "token list \<Rightarrow> async_event \<Rightarrow> bool" where
  "counts_down ts e = (case e of Visit i \<Rightarrow> \<not> is_code (ts ! i) | Answer i r \<Rightarrow> (case r of Inl _ \<Rightarrow> False | Inr _ \<Rightarrow> True))"

fun errors :: "async_event list \<Rightarrow> exn list" where
  "errors (Answer i (Inl e) # es) = e # errors es"
| "errors (_ # es) = errors es"
| "errors [] = []"

lemma async_step_counts:
  assumes "int (length (filter (counts_down ts) (e # es))) < pending s" "map is_code (tokens (work s)) = map is_code ts"
    and "\<And>i. i < length ts \<Longrightarrow> is_code (tokens (work s) ! i) = is_code (ts ! i)" "\<forall>i. e = Visit i \<longrightarrow> i < length ts"
  shows "answered (async_step opt e s) = answered s @ map Inl (case e of Answer i (Inl x) \<Rightarrow> [x] | _ \<Rightarrow> []) \<and>
    int (length (filter (counts_down ts) es)) < pending (async_step opt e s) \<and> map is_code (tokens (work (async_step opt e s))) = map is_code ts"
proof (cases e)
  case (Visit i)
  then show ?thesis
    using assms(1,2) assms(3) [of i] assms(4) by (auto simp: counts_down_def count_down_def is_code_def Let_def split: token.splits)
next
  case (Answer i r)
  have upd: "map is_code ((tokens (work s))[i := Code c l True]) = map is_code ts" if "tokens (work s) ! i = Code b l x" for b c l x
  proof -
    have c: "is_code (tokens (work s) ! i)" using that by (simp add: is_code_def)
    have "(map is_code (tokens (work s)))[i := True] = map is_code (tokens (work s))"
      using c by (cases "i < length (tokens (work s))") (simp_all add: list_update_same_conv list_update_beyond)
    then show ?thesis using assms(2) by (simp add: map_update is_code_def)
  qed
  show ?thesis
  proof (cases r)
    case (Inl x)
    then show ?thesis using Answer assms(1,2) by (simp add: counts_down_def done_with_def Let_def)
  next
    case (Inr a)
    then show ?thesis
      using Answer assms(1,2) upd by (auto simp: counts_down_def count_down_def set_token_def Let_def split: option.splits token.splits)
  qed
qed

text \<open>The callback is called once for every error of the highlighter, and, when an answer is missing
  because of one, never with the text.\<close>

theorem async_errors_repeat:
  assumes "lex opt src = Inr lx" "length (filter (counts_down (tokens lx)) es) < length (tokens lx)"
    and "\<forall>i. Visit i \<in> set es \<longrightarrow> i < length (tokens lx)"
  shows "answered (async_run opt es (async_start opt True src)) = map Inl (errors es)"
proof -
  have run: "answered (fold (async_step opt) es s) = answered s @ map Inl (errors es)"
    if "int (length (filter (counts_down (tokens lx)) es)) < pending s" "map is_code (tokens (work s)) = map is_code (tokens lx)"
      "\<forall>i. Visit i \<in> set es \<longrightarrow> i < length (tokens lx)" for es s
    using that
  proof (induction es arbitrary: s)
    case (Cons e es)
    have lens: "length (tokens (work s)) = length (tokens lx)" using Cons.prems(2) by (rule map_eq_imp_length_eq)
    have code: "is_code (tokens (work s) ! i) = is_code (tokens lx ! i)" if "i < length (tokens lx)" for i
      using Cons.prems(2) that lens by (metis nth_map)
    have "errors (e # es) = (case e of Answer i (Inl x) \<Rightarrow> [x] | _ \<Rightarrow> []) @ errors es" by (auto split: async_event.split sum.split)
    moreover have "answered (async_step opt e s) = answered s @ map Inl (case e of Answer i (Inl x) \<Rightarrow> [x] | _ \<Rightarrow> []) \<and>
        int (length (filter (counts_down (tokens lx)) es)) < pending (async_step opt e s) \<and> map is_code (tokens (work (async_step opt e s))) = map is_code (tokens lx)"
      using async_step_counts [OF Cons.prems(1-2), of opt] code Cons.prems(3) by simp
    moreover from this have "answered (fold (async_step opt) es (async_step opt e s)) = answered (async_step opt e s) @ map Inl (errors es)"
      using Cons.prems(3) by (intro Cons.IH) auto
    ultimately show ?case by simp
  qed simp
  show ?thesis
    unfolding async_run_def using assms by (subst run) (auto simp: async_start_def Let_def)
qed

theorem async_errors_repeat_witness:
  "answered (async_run sample_options [Visit 0, Visit 1, Visit 2, Answer 2 (Inl TypeError), Answer 0 (Inl RangeError)] (async_start sample_options True sample)) = [Inl TypeError, Inl RangeError]"
proof -
  obtain lx where lx: "lex sample_options sample = Inr lx" "tokens lx = [Code (lit ''a'') None False, Hr, Code (lit ''b'') None False]" using sample_tokens by blast
  let ?es = "[Visit 0, Visit 1, Visit 2, Answer 2 (Inl TypeError), Answer 0 (Inl RangeError)]"
  have "length (filter (counts_down (tokens lx)) ?es) < length (tokens lx)" by (simp add: lx(2) counts_down_def is_code_def)
  moreover have "\<forall>i. Visit i \<in> set ?es \<longrightarrow> i < length (tokens lx)" by (simp add: lx(2))
  ultimately show ?thesis using async_errors_repeat [OF lx(1), of ?es] by simp
qed

end
