(* ===== verification/Marked_Safety.thy ===== *)
theory Marked_Safety
  imports Marked_Main
begin

text \<open>
  The option \<open>sanitize\<close>: the language of markup that has only the renderer's own tags, and the proof that every
  stage of marked.js stays inside it, from the escaping of text to the whole document.
\<close>

section \<open>Safe markup\<close>

text \<open>A value that may stand between quotes, and a link that is not a script by the test of the renderer.\<close>

definition attr_ok :: "jsstr \<Rightarrow> bool" where
  "attr_ok v \<longleftrightarrow> set v \<inter> {34, 60, 62} = {}"

definition link_ok :: "options \<Rightarrow> jsstr \<Rightarrow> bool" where
  "link_ok opt href \<longleftrightarrow> (case link_protocol opt href of Inl _ \<Rightarrow> False | Inr prot \<Rightarrow> index_of prot (lit ''javascript:'') \<noteq> Some 0)"

definition tag_names :: "jsstr set" where
  "tag_names = lit ` {''p'', ''strong'', ''em'', ''code'', ''del'', ''pre'', ''blockquote'', ''ul'', ''ol'', ''li'',
     ''table'', ''thead'', ''tbody'', ''tr'', ''th'', ''td'', ''a''} \<union> range (\<lambda>n. lit ''h'' @ dec n)"

definition void_names :: "jsstr set" where
  "void_names = lit ` {''br'', ''hr'', ''img''}"

definition attribute_ok :: "options \<Rightarrow> jsstr \<times> jsstr \<Rightarrow> bool" where
  "attribute_ok opt a \<longleftrightarrow>
     fst a \<in> lit ` {''href'', ''title'', ''src'', ''alt'', ''id'', ''class'', ''style''} \<and> attr_ok (snd a) \<and> (fst a = lit ''href'' \<longrightarrow> link_ok opt (snd a))"

definition attributes :: "(jsstr \<times> jsstr) list \<Rightarrow> jsstr" where
  "attributes as = concat (map (\<lambda>(n, v). [32] @ n @ lit ''='' @ [34] @ v @ [34]) as)"

text \<open>Markup in which every tag is one of the renderer's: text without an opening bracket, elements whose names
  and attributes are known and whose attribute values are closed, and sequences of these.\<close>

inductive_set safe :: "options \<Rightarrow> jsstr set" for opt where
  safe_text: "60 \<notin> set t \<Longrightarrow> t \<in> safe opt"
| safe_append: "x \<in> safe opt \<Longrightarrow> y \<in> safe opt \<Longrightarrow> x @ y \<in> safe opt"
| safe_element: "n \<in> tag_names \<Longrightarrow> list_all (attribute_ok opt) as \<Longrightarrow> body \<in> safe opt \<Longrightarrow>
    lit ''<'' @ n @ attributes as @ lit ''>'' @ body @ lit ''</'' @ n @ lit ''>'' \<in> safe opt"
| safe_void: "n \<in> void_names \<Longrightarrow> list_all (attribute_ok opt) as \<Longrightarrow> e \<in> {lit ''>'', lit ''/>''} \<Longrightarrow> lit ''<'' @ n @ attributes as @ e \<in> safe opt"

lemma safe_nil [simp]: "[] \<in> safe opt"
  by (rule safe_text) simp

lemma safe_newline: "x \<in> safe opt \<Longrightarrow> x @ [10] \<in> safe opt" "x \<in> safe opt \<Longrightarrow> [10] @ x \<in> safe opt" "x \<in> safe opt \<Longrightarrow> 10 # x \<in> safe opt"
  using safe_append [of x opt "[10]"] safe_append [of "[10]" opt x] safe_text [of "[10]" opt] by simp_all

lemma safe_plain: "n \<in> tag_names \<Longrightarrow> body \<in> safe opt \<Longrightarrow> lit ''<'' @ n @ lit ''>'' @ body @ lit ''</'' @ n @ lit ''>'' \<in> safe opt"
  using safe_element [of n opt "[]" body] by (simp add: attributes_def)

lemma safe_tag: "t \<in> {''p'', ''strong'', ''em'', ''code'', ''del'', ''pre'', ''blockquote'', ''ul'', ''ol'', ''li'',
     ''table'', ''thead'', ''tbody'', ''tr'', ''th'', ''td''} \<Longrightarrow> body \<in> safe opt \<Longrightarrow> lit ''<'' @ lit t @ lit ''>'' @ body @ lit ''</'' @ lit t @ lit ''>'' \<in> safe opt"
  by (rule safe_plain) (auto simp: tag_names_def)

lemma escape_chars: "set (escape s e) \<inter> {60, 62, 34, 39} = {}"
  using escape_no_markup by (auto simp: is_markup_def)

lemma escape_attr_ok: "attr_ok (escape s e)"
  using escape_chars [of s e] by (auto simp: attr_ok_def)

lemma escape_safe: "escape s e \<in> safe opt"
  using escape_chars [of s e] by (intro safe_text) auto

lemma attr_ok_append: "attr_ok (x @ y) \<longleftrightarrow> attr_ok x \<and> attr_ok y"
  by (auto simp: attr_ok_def)

section \<open>The renderer\<close>

lemma safe_strong: "x \<in> safe opt \<Longrightarrow> render_strong x \<in> safe opt" using safe_tag [of "''strong''" x opt] by (simp add: render_strong_def)
lemma safe_em: "x \<in> safe opt \<Longrightarrow> render_em x \<in> safe opt" using safe_tag [of "''em''" x opt] by (simp add: render_em_def)
lemma safe_codespan: "x \<in> safe opt \<Longrightarrow> render_codespan x \<in> safe opt" using safe_tag [of "''code''" x opt] by (simp add: render_codespan_def)
lemma safe_del: "x \<in> safe opt \<Longrightarrow> render_del x \<in> safe opt" using safe_tag [of "''del''" x opt] by (simp add: render_del_def)
lemma safe_paragraph: "x \<in> safe opt \<Longrightarrow> render_paragraph x \<in> safe opt"
  using safe_newline(1) [OF safe_tag [of "''p''" x opt]] by (simp add: render_paragraph_def)
lemma safe_listitem: "x \<in> safe opt \<Longrightarrow> render_listitem x \<in> safe opt"
  using safe_newline(1) [OF safe_tag [of "''li''" x opt]] by (simp add: render_listitem_def)
lemma safe_blockquote: "x \<in> safe opt \<Longrightarrow> render_blockquote x \<in> safe opt"
  using safe_newline(1) [OF safe_tag [of "''blockquote''" "[10] @ x" opt]] by (simp add: render_blockquote_def safe_newline)
lemma safe_list: "x \<in> safe opt \<Longrightarrow> render_list x ordered \<in> safe opt"
  using safe_newline(1) [OF safe_tag [of "''ul''" "[10] @ x" opt]] safe_newline(1) [OF safe_tag [of "''ol''" "[10] @ x" opt]]
  by (simp add: render_list_def safe_newline)
lemma safe_tablerow: "x \<in> safe opt \<Longrightarrow> render_tablerow x \<in> safe opt"
  using safe_newline(1) [OF safe_tag [of "''tr''" "[10] @ x" opt]] by (simp add: render_tablerow_def safe_newline)

lemma safe_br: "render_br opt \<in> safe opt'"
  using safe_void [of "lit ''br''" opt' "[]" "lit ''>''"] safe_void [of "lit ''br''" opt' "[]" "lit ''/>''"] by (simp add: render_br_def void_names_def attributes_def)

lemma safe_hr: "render_hr opt \<in> safe opt'"
  using safe_newline(1) [OF safe_void [of "lit ''hr''" opt' "[]" "lit ''>''"]] safe_newline(1) [OF safe_void [of "lit ''hr''" opt' "[]" "lit ''/>''"]]
  by (simp add: render_hr_def void_names_def attributes_def)

lemma safe_table: "x \<in> safe opt \<Longrightarrow> y \<in> safe opt \<Longrightarrow> render_table x y \<in> safe opt"
proof -
  assume xy: "x \<in> safe opt" "y \<in> safe opt"
  define h where "h = (lit ''<'' @ lit ''thead'' @ lit ''>'' @ ([10] @ x) @ lit ''</'' @ lit ''thead'' @ lit ''>'') @ [10]"
  define b where "b = (lit ''<'' @ lit ''tbody'' @ lit ''>'' @ ([10] @ y) @ lit ''</'' @ lit ''tbody'' @ lit ''>'') @ [10]"
  have "h \<in> safe opt" unfolding h_def by (rule safe_newline(1), rule safe_tag) (simp_all add: safe_newline xy)
  moreover have "b \<in> safe opt" unfolding b_def by (rule safe_newline(1), rule safe_tag) (simp_all add: safe_newline xy)
  ultimately have "(lit ''<'' @ lit ''table'' @ lit ''>'' @ ([10] @ h @ b) @ lit ''</'' @ lit ''table'' @ lit ''>'') @ [10] \<in> safe opt"
    by (intro safe_newline(1) safe_tag safe_newline(2) safe_append) simp_all
  then show ?thesis by (simp add: render_table_def h_def b_def)
qed

definition align_values :: "jsstr option set" where
  "align_values = {None, Some (lit ''left''), Some (lit ''center''), Some (lit ''right'')}"

lemma safe_tablecell:
  assumes "x \<in> safe opt" "align \<in> align_values"
  shows "render_tablecell x header align \<in> safe opt"
proof -
  define t where "t = (if header then ''th'' else ''td'')"
  define as where "as = (case align of None \<Rightarrow> [] | Some a \<Rightarrow> [(lit ''style'', lit ''text-align:'' @ a)])"
  have "list_all (attribute_ok opt) as" using assms(2) by (auto simp: as_def attribute_ok_def attr_ok_def align_values_def)
  then have "lit ''<'' @ lit t @ attributes as @ lit ''>'' @ x @ lit ''</'' @ lit t @ lit ''>'' \<in> safe opt"
    by (intro safe_element assms) (auto simp: t_def tag_names_def)
  from safe_newline(1) [OF this] show ?thesis
    by (cases align; cases header) (simp_all add: render_tablecell_def t_def as_def attributes_def Let_def)
qed


lemma safe_link:
  assumes "sanitize opt" "x \<in> safe opt" "attr_ok href" "\<And>t. title = Some t \<Longrightarrow> attr_ok t"
  shows "render_link opt href title x \<in> safe opt"
proof (cases "link_ok opt href")
  case True
  define as where "as = (lit ''href'', href) # (case title of Some (c # cs) \<Rightarrow> [(lit ''title'', c # cs)] | _ \<Rightarrow> [])"
  have "list_all (attribute_ok opt) as" using assms(3,4) True by (auto simp: as_def attribute_ok_def split: option.split list.split)
  then have "lit ''<'' @ lit ''a'' @ attributes as @ lit ''>'' @ x @ lit ''</'' @ lit ''a'' @ lit ''>'' \<in> safe opt"
    by (intro safe_element assms) (auto simp: tag_names_def)
  moreover have "render_link opt href title x = lit ''<'' @ lit ''a'' @ attributes as @ lit ''>'' @ x @ lit ''</'' @ lit ''a'' @ lit ''>''"
    using True assms(1) by (auto simp: render_link_def link_ok_def as_def attributes_def title_attr_def Let_def split: option.split list.split sum.splits)
  ultimately show ?thesis by simp
next
  case False
  then show ?thesis using assms(1) by (auto simp: render_link_def link_ok_def Let_def split: sum.splits)
qed

lemma safe_image:
  assumes "attr_ok href" "attr_ok x" "\<And>t. title = Some t \<Longrightarrow> attr_ok t"
  shows "render_image opt href title x \<in> safe opt"
proof -
  define as where "as = (lit ''src'', href) # (lit ''alt'', x) # (case title of Some (c # cs) \<Rightarrow> [(lit ''title'', c # cs)] | _ \<Rightarrow> [])"
  have "list_all (attribute_ok opt) as" using assms by (auto simp: as_def attribute_ok_def split: option.split list.split)
  then have "lit ''<'' @ lit ''img'' @ attributes as @ (if xhtml opt then lit ''/>'' else lit ''>'') \<in> safe opt"
    by (intro safe_void) (auto simp: void_names_def)
  moreover have "render_image opt href title x = lit ''<'' @ lit ''img'' @ attributes as @ (if xhtml opt then lit ''/>'' else lit ''>'')"
    by (simp add: render_image_def as_def attributes_def title_attr_def split: option.split list.split)
  ultimately show ?thesis by simp
qed

lemma safe_code:
  assumes "highlight opt = None" "attr_ok (langPrefix opt)"
  shows "render_code opt code lang False \<in> safe opt"
proof -
  define as where "as = (case lang of Some (l # ls) \<Rightarrow> [(lit ''class'', langPrefix opt @ escape (l # ls) True)] | _ \<Rightarrow> [])"
  have as: "list_all (attribute_ok opt) as"
    using assms(2) escape_attr_ok by (auto simp: as_def attribute_ok_def attr_ok_append split: option.split list.split)
  have "escape code True @ [10] \<in> safe opt" by (intro safe_newline(1) escape_safe)
  then have "lit ''<'' @ lit ''code'' @ attributes as @ lit ''>'' @ (escape code True @ [10]) @ lit ''</'' @ lit ''code'' @ lit ''>'' \<in> safe opt"
    by (intro safe_element as) (auto simp: tag_names_def)
  from safe_tag [of "''pre''", OF _ this] have p: "lit ''<'' @ lit ''pre'' @ lit ''>'' @ (lit ''<'' @ lit ''code'' @ attributes as @ lit ''>'' @ (escape code True @ [10]) @ lit ''</'' @ lit ''code'' @ lit ''>'') @ lit ''</'' @ lit ''pre'' @ lit ''>'' \<in> safe opt"
    by simp
  show ?thesis using p safe_newline(1) [OF p] assms(1)
    by (auto simp: render_code_def as_def attributes_def Let_def split: option.splits list.splits)
qed

text \<open>The identifier of a heading has word characters and hyphens only.\<close>

lemma plus_class_match: "i \<le> length s \<Longrightarrow> match_at (rplus (RSet pos rs)) ml s i = None \<longleftrightarrow> \<not> (i < length s \<and> in_ranges rs (s ! i) = pos)"
proof -
  assume i: "i \<le> length s"
  let ?ss = "ss (rplus (RSet pos rs)) ml s (i, no_caps (rplus (RSet pos rs)))"
  have "?ss = [] \<longleftrightarrow> \<not> (i < length s \<and> in_ranges rs (s ! i) = pos)"
  proof (cases "i < length s \<and> in_ranges rs (s ! i) = pos")
    case True
    then have "(Suc i, no_caps (rplus (RSet pos rs))) \<in> set ?ss" unfolding ss_rep_set_iff [OF i] by (auto simp: less_Suc_eq)
    then show ?thesis using True by (metis empty_iff empty_set)
  next
    case False
    have "st \<notin> set ?ss" for st unfolding ss_rep_set_iff [OF i] using False by (auto simp: Suc_le_eq)
    then have "?ss = []" by (meson list.set_sel(1))
    then show ?thesis using False by blast
  qed
  then show ?thesis unfolding match_at_ss .
qed

lemma replace_plus_class:
  assumes t: "\<And>c. c \<in> set t \<Longrightarrow> P c" and other: "\<And>c. in_ranges rs c \<noteq> pos \<Longrightarrow> P c"
  shows "c \<in> set (replace_from (rplus (RSet pos rs)) ml s (const t) p) \<Longrightarrow> P c"
proof (induction "rplus (RSet pos rs)" ml s "const t" p rule: replace_from.induct)
  case (1 ml s p)
  let ?r = "rplus (RSet pos rs)"
  have skip: "P x" if "x \<in> set (take (i - p) (drop p s))" "i \<le> length s" "\<And>k. p \<le> k \<Longrightarrow> k < i \<Longrightarrow> match_at ?r ml s k = None" for x i
  proof -
    from that(1) obtain k where k: "x = s ! (p + k)" "p + k < i" "p + k < length s" by (auto simp: in_set_conv_nth)
    with that(3) [of "p + k"] plus_class_match [of "p + k" s pos rs ml] have "in_ranges rs x \<noteq> pos" by auto
    then show "P x" by (rule other)
  qed
  show ?case
  proof (cases "exec_from ?r ml s p")
    case None
    then have "\<And>k. p \<le> k \<Longrightarrow> k < length s \<Longrightarrow> match_at ?r ml s k = None" by (simp add: exec_from_None)
    then have "P x" if "x \<in> set (drop p s)" for x using skip [of x "length s"] that by simp
    moreover have "c \<in> set (drop p s)" using 1(3) None by (subst (asm) replace_from.simps) simp
    ultimately show ?thesis by blast
  next
    case (Some z)
    obtain i j cs where z: "z = (i, j, cs)" by (cases z)
    note b = exec_from_bounds [OF Some [unfolded z]]
    have lm: "match_at ?r ml s k = None" if "p \<le> k" "k < i" for k
      using Some z that search_from_leftmost by (auto simp: exec_from_def)
    have "i < j" using match_min_len [of ?r ml s i j cs] b by simp
    with 1(3) Some z have "c \<in> set (take (i - p) (drop p s)) \<or> c \<in> set t \<or> c \<in> set (replace_from ?r ml s (const t) j)"
      by (subst (asm) replace_from.simps) (auto simp: const_def)
    moreover have "i \<le> length s" using b by linarith
    ultimately show ?thesis using skip [OF _ _ lm] t 1(2) [OF Some z [symmetric] refl] \<open>i < j\<close> by auto
  qed
qed

lemma safe_heading:
  assumes "x \<in> safe opt" "attr_ok (headerPrefix opt)"
  shows "render_heading opt x level raw \<in> safe opt"
proof -
  define v where "v = headerPrefix opt @ replace_all (rplus (RSet False word_ranges)) False (toLowerCase opt raw) (const (lit ''-''))"
  have "c \<notin> {34, 60, 62}" if "c \<in> set (replace_from (rplus (RSet False word_ranges)) False (toLowerCase opt raw) (const (lit ''-'')) 0)" for c
    by (rule replace_plus_class [OF _ _ that]) (auto simp: in_ranges_def)
  then have "attr_ok v" using assms(2) by (auto simp: v_def attr_ok_append) (auto simp: attr_ok_def replace_all_def)
  then have "list_all (attribute_ok opt) [(lit ''id'', v)]" by (simp add: attribute_ok_def)
  then have "lit ''<'' @ (lit ''h'' @ dec level) @ attributes [(lit ''id'', v)] @ lit ''>'' @ x @ lit ''</'' @ (lit ''h'' @ dec level) @ lit ''>'' \<in> safe opt"
    by (intro safe_element assms) (auto simp: tag_names_def)
  from safe_newline(1) [OF this] show ?thesis by (simp add: render_heading_def attributes_def v_def)
qed

section \<open>The inline lexer\<close>

lemma hex_text_chars: "\<forall>c \<in> set (hex_text n). 48 \<le> c \<and> c \<le> 57 \<or> 97 \<le> c \<and> c \<le> 102"
proof (induction n rule: hex_text.induct)
  case (1 n)
  have "n mod 16 < 16" by simp
  with 1 show ?case by (subst hex_text.simps) (auto simp: Let_def)
qed

lemma mangle_attr_ok: "attr_ok (mangle rnd k t)"
proof (induction rnd k t rule: mangle.induct)
  case (2 rnd k ch t)
  have "attr_ok (dec ch)" "attr_ok (hex_text ch)" using dec_digits [of ch] hex_text_chars [of ch] by (auto simp: attr_ok_def is_digit_def)
  with 2 show ?case by (auto simp: attr_ok_def)
qed (simp add: attr_ok_def)

declare mangle.simps [simp del]

lemma attr_ok_safe: "attr_ok t \<Longrightarrow> t \<in> safe opt"
  by (rule safe_text) (auto simp: attr_ok_def)

lemma escape_rule_group: "cut (escape_rule g) src = Some (m, c) \<Longrightarrow> grp c 1 \<in> safe opt"
proof -
  assume "cut (escape_rule g) src = Some (m, c)"
  then obtain j where "match_at (escape_rule g) False src 0 = Some (j, c)" unfolding escape_rule_def rseq.simps by (rule cut_bol)
  then show ?thesis
    by (intro safe_text) (auto simp: escape_rule_def match_at_def no_caps_def grp_def cap_at_def in_ranges_def take_Suc_conv_app_nth split: if_splits)
qed

lemma ref_rule_start:
  assumes "cut (RSeq RBol (RSeq (ropt (rchr CHR ''!'')) (RSeq (runit 91) r))) src = Some (m, c)"
  shows "take 1 m \<in> safe opt"
proof -
  let ?r = "RSeq (ropt (rchr CHR ''!'')) (RSeq (runit 91) r)"
  from assms obtain j where j: "match_at (RSeq RBol ?r) False src 0 = Some (j, c)" "m = take j src" by (rule cut_bol)
  from match_at_in [OF j(1)] have "(j, c) \<in> set (ss ?r False src (0, no_caps (RSeq RBol ?r)))" unfolding ss_bol by (auto split: if_splits simp del: ss.simps)
  then have "src ! 0 = 33 \<or> src ! 0 = 91" by (auto simp: Let_def in_unit_range split: if_splits)
  then show ?thesis by (intro safe_text) (cases src; cases j; auto simp: j(2))
qed

fun step_safe :: "options \<Rightarrow> istep \<Rightarrow> bool" where
  "step_safe opt (Piece o' st rest) = (o' \<in> safe opt)"
| "step_safe opt (LinkTo h ti t rest) = (attr_ok h \<and> (\<forall>x. ti = Some x \<longrightarrow> attr_ok x))"
| "step_safe opt _ = True"

lemma step_safe_parts:
  assumes "sanitize opt"
  shows "step_safe opt (autolink_step opt c st rest)" "step_safe opt (tag_step opt m st rest)" "step_safe opt (outputLink opt m c h ti st rest)"
    "take 1 m \<in> safe opt \<Longrightarrow> step_safe opt (reflink_step opt links m c st rest)"
proof -
  show "step_safe opt (autolink_step opt c st rest)"
    unfolding autolink_step_def Let_def
    by (simp only: if_split step_safe.simps) (intro conjI impI safe_link assms attr_ok_safe; simp add: attr_ok_append mangle_attr_ok escape_attr_ok)
  show "step_safe opt (tag_step opt m st rest)" using assms by (simp add: tag_step_def Let_def escape_safe)
  show out: "step_safe opt (outputLink opt m c h ti st rest)" for h ti
    by (auto simp: outputLink_def Let_def escape_attr_ok intro!: safe_image escape_attr_ok split: option.splits list.splits)
  show "take 1 m \<in> safe opt \<Longrightarrow> step_safe opt (reflink_step opt links m c st rest)"
    by (auto simp: reflink_step_def out split: option.split list.split prod.split)
qed

lemma step_safe_case:
  assumes "\<And>m c. x = Some (m, c) \<Longrightarrow> step_safe opt (f m c)" "step_safe opt k"
  shows "step_safe opt (case x of Some (m, c) \<Rightarrow> f m c | None \<Rightarrow> k)"
  using assms by (auto split: option.split)

lemma inline_step_safe:
  assumes "sanitize opt"
  shows "step_safe opt (inline_step opt links src st)"
proof -
  have url: "step_safe opt (let text = escape t False in Piece (render_link opt text None text) st rest)" for t st rest
    using assms by (auto simp: Let_def intro!: safe_link escape_safe escape_attr_ok)
  have ref: "take 1 m \<in> safe opt" if "cut reflink_rule src = Some (m, c) \<or> cut nolink_rule src = Some (m, c)" for m c
    using that ref_rule_start [of _ src m c opt] by (auto simp: reflink_rule_def nolink_rule_def)
  show ?thesis
    unfolding inline_step_def Let_def
    by (intro step_safe_case step_safe_parts assms url [unfolded Let_def])
       (auto intro: escape_rule_group [simplified] ref [simplified] safe_codespan safe_br escape_safe)
qed

lemma inline_output_safe:
  assumes "sanitize opt"
  shows "inline_output opt links src st = Inr (out, st') \<Longrightarrow> out \<in> safe opt"
  using assms
proof (induction opt links src st arbitrary: out st' rule: inline_output.induct)
  case (1 opt links src st)
  show ?case
  proof (cases "src = []")
    case True
    with "1.prems" show ?thesis by (simp add: inline_output.simps)
  next
    case False
    note IH = "1.IH" [OF False]
    note s = inline_step_safe [OF "1.prems"(2), of links src st]
    show ?thesis
    proof (cases "inline_step opt links src st")
      case (Piece o' st1 rest)
      from "1.prems"(1) False Piece obtain o2 st2 where r: "inline_output opt links rest st1 = Inr (o2, st2)" "out = o' @ o2"
        by (subst (asm) inline_output.simps) (auto simp: bindR_Inr_conv)
      with IH(1) [OF Piece] "1.prems"(2) s Piece show ?thesis by (auto intro: safe_append)
    next
      case (Strong t rest)
      from "1.prems"(1) False Strong obtain o1 st1 o2 st2 where r: "inline_output opt links t st = Inr (o1, st1)" "inline_output opt links rest st1 = Inr (o2, st2)" "out = render_strong o1 @ o2"
        by (subst (asm) inline_output.simps) (auto simp: bindR_Inr_conv)
      with IH(2) [OF Strong] IH(3) [OF Strong r(1)] "1.prems"(2) show ?thesis by (auto intro: safe_append safe_strong)
    next
      case (Em t rest)
      from "1.prems"(1) False Em obtain o1 st1 o2 st2 where r: "inline_output opt links t st = Inr (o1, st1)" "inline_output opt links rest st1 = Inr (o2, st2)" "out = render_em o1 @ o2"
        by (subst (asm) inline_output.simps) (auto simp: bindR_Inr_conv)
      with IH(4) [OF Em] IH(5) [OF Em r(1)] "1.prems"(2) show ?thesis by (auto intro: safe_append safe_em)
    next
      case (Del t rest)
      from "1.prems"(1) False Del obtain o1 st1 o2 st2 where r: "inline_output opt links t st = Inr (o1, st1)" "inline_output opt links rest st1 = Inr (o2, st2)" "out = render_del o1 @ o2"
        by (subst (asm) inline_output.simps) (auto simp: bindR_Inr_conv)
      with IH(6) [OF Del] IH(7) [OF Del r(1)] "1.prems"(2) show ?thesis by (auto intro: safe_append safe_del)
    next
      case (LinkTo h ti t rest)
      from "1.prems"(1) False LinkTo obtain o1 st1 o2 st2 where r: "inline_output opt links t (st\<lparr>inLink := True\<rparr>) = Inr (o1, st1)"
          "inline_output opt links rest (st1\<lparr>inLink := False\<rparr>) = Inr (o2, st2)" "out = render_link opt h ti o1 @ o2"
        by (subst (asm) inline_output.simps) (auto simp: bindR_Inr_conv)
      with IH(8) [OF LinkTo] IH(9) [OF LinkTo r(1)] "1.prems"(2) s LinkTo show ?thesis by (auto intro!: safe_append safe_link)
    next
      case Stuck
      with "1.prems"(1) False show ?thesis by (subst (asm) inline_output.simps) simp
    qed
  qed
qed


section \<open>Blocks\<close>

text \<open>Tokens that the lexer can produce with \<open>sanitize\<close>.\<close>

fun tok_safe :: "token \<Rightarrow> bool" where
  "tok_safe (Html pre t) = False"
| "tok_safe (Code t lang escaped) = (\<not> escaped)"
| "tok_safe (Table header align cells) = (set align \<subseteq> align_values)"
| "tok_safe t = True"

lemma table_token_safe: "tok_safe (table_token tail row c)"
  by (auto simp: table_token_def align_of_def align_values_def split: if_splits)

lemma block_step_tokens:
  assumes "sanitize opt" "block_step opt toplevel bq src = Tokens ts rest"
  shows "list_all tok_safe ts"
proof -
  let ?P = "\<lambda>x. \<forall>ts rest. x = Tokens ts rest \<longrightarrow> list_all tok_safe ts"
  have c: "?P (case x of Some (m, c) \<Rightarrow> f m c | None \<Rightarrow> k)" if "\<And>m c. ?P (f m c)" "?P k" for x f k
    using that by (auto split: option.split)
  have "?P (block_step opt toplevel bq src)"
    unfolding block_step_def late_step_def Let_def
    by (intro c) (auto simp: assms(1) list_step_def html_token_def nptable_token_def bar_table_token_def table_token_safe split: option.splits sum.splits)
  with assms(2) show ?thesis by blast
qed

lemma lex_tokens_safe:
  "sanitize opt \<Longrightarrow> list_all tok_safe (tokens lx) \<Longrightarrow> lex_token opt toplevel bq src lx = Inr lx' \<Longrightarrow> list_all tok_safe (tokens lx')"
  "sanitize opt \<Longrightarrow> list_all tok_safe (tokens lx) \<Longrightarrow> lex_loop opt toplevel bq src lx = Inr lx' \<Longrightarrow> list_all tok_safe (tokens lx')"
  "sanitize opt \<Longrightarrow> list_all tok_safe (tokens lx) \<Longrightarrow> lex_items opt bq its lx = Inr lx' \<Longrightarrow> list_all tok_safe (tokens lx')"
proof (induction opt toplevel bq src lx and opt toplevel bq src lx and opt bq its lx arbitrary: lx' and lx' and lx' rule: lex_token_lex_loop_lex_items.induct)
  case (1 opt toplevel bq src lx)
  then show ?case by (simp add: lex_token.simps)
next
  case (2 opt toplevel bq src lx)
  show ?case
  proof (cases "src = []")
    case True
    with "2.prems"(2,3) show ?thesis by (simp add: lex_loop.simps)
  next
    case False
    obtain ts src' where s: "skip_newlines src = (ts, src')" by (cases "skip_newlines src")
    have ts: "list_all tok_safe ts" using s by (auto simp: skip_newlines_def split: option.splits if_splits)
    note IH = "2.IH" [OF False s [symmetric]]
    note run = "2.prems"(3)
    show ?thesis
    proof (cases "block_step opt toplevel bq src'")
      case (Tokens ts' rest)
      have r: "lex_loop opt toplevel bq rest (push (ts @ ts') lx) = Inr lx'" using run False s Tokens by (subst (asm) lex_loop.simps) simp
      show ?thesis using IH(1) [OF Tokens _ _ r] ts "2.prems"(1,2) block_step_tokens [OF "2.prems"(1) Tokens] by simp
    next
      case (Define k l rest)
      have r: "lex_loop opt toplevel bq rest (push ts lx\<lparr>tokens_links := (tokens_links lx)(k \<mapsto> l)\<rparr>) = Inr lx'" using run False s Define by (subst (asm) lex_loop.simps) simp
      show ?thesis using IH(2) [OF Define _ _ r] ts "2.prems"(1,2) by simp
    next
      case (Quote t rest)
      with run False s obtain lx1 where 1: "lex_token opt toplevel True t (push (ts @ [BlockquoteStart]) lx) = Inr lx1"
          "lex_loop opt toplevel bq rest (push [BlockquoteEnd] lx1) = Inr lx'"
        by (subst (asm) lex_loop.simps) (auto simp: bindR_Inr_conv)
      with IH(3) [OF Quote _ _ 1(1)] IH(4) [OF Quote 1(1) _ _ 1(2)] ts "2.prems"(1,2) show ?thesis by simp
    next
      case (Items ord its rest)
      with run False s obtain lx1 where 1: "lex_items opt bq its (push (ts @ [ListStart ord]) lx) = Inr lx1"
          "lex_loop opt toplevel bq rest (push [ListEnd] lx1) = Inr lx'"
        by (subst (asm) lex_loop.simps) (auto simp: bindR_Inr_conv)
      with IH(5) [OF Items _ _ 1(1)] IH(6) [OF Items 1(1) _ _ 1(2)] ts "2.prems"(1,2) show ?thesis by simp
    next
      case (Fail e)
      with run False s show ?thesis by (subst (asm) lex_loop.simps) simp
    next
      case Finish
      then have "lx' = push ts lx" using run False s by (subst (asm) lex_loop.simps) simp
      then show ?thesis using ts "2.prems"(2) by simp
    qed
  qed
next
  case (3 opt bq its lx)
  show ?case
  proof (cases its)
    case Nil
    with "3.prems"(2,3) show ?thesis by (simp add: lex_items.simps)
  next
    case (Cons it its')
    obtain loose t where it: "it = (loose, t)" by (cases it)
    from "3.prems"(3) Cons it obtain lx1 where 1: "lex_token opt False bq t (push [if loose then LooseItemStart else ListItemStart] lx) = Inr lx1"
        "lex_items opt bq its' (push [ListItemEnd] lx1) = Inr lx'"
      by (subst (asm) lex_items.simps) (auto simp: bindR_Inr_conv)
    with "3.IH"(1) [OF Cons it [symmetric] _ _ 1(1)] "3.IH"(2) [OF Cons it [symmetric] 1(1) _ _ 1(2)] "3.prems"(1,2) show ?thesis by simp
  qed
qed

lemma table_row_safe:
  "sanitize opt \<Longrightarrow> set align \<subseteq> align_values \<Longrightarrow>
     table_row opt links header align cs st = Inr (out, st') \<Longrightarrow> out \<in> safe opt"
proof (induction opt links header align cs st arbitrary: out st' rule: table_row.induct)
  case (2 opt links header align c cs st)
  from "2.prems"(3) obtain t st1 o2 st2 where r: "inline_output opt links c st = Inr (t, st1)" "table_row opt links header (tl align) cs st1 = Inr (o2, st2)"
      "out = render_tablecell t header (case align of [] \<Rightarrow> None | a # _ \<Rightarrow> a) @ o2"
    by (auto simp: bindR_Inr_conv)
  have a: "(case align of [] \<Rightarrow> None | a # _ \<Rightarrow> a) \<in> align_values"
    using "2.prems"(2) by (cases align) (auto simp: align_values_def)
  have tl: "set (tl align) \<subseteq> align_values"
    using "2.prems"(2) by (cases align) auto
  have "o2 \<in> safe opt" using "2.IH" [OF r(1) refl "2.prems"(1) tl] r(2) by simp
  then show ?case unfolding r(3) by (intro safe_append safe_tablecell inline_output_safe [OF "2.prems"(1) r(1)] a)
qed simp

lemma table_body_safe:
  "sanitize opt \<Longrightarrow> set align \<subseteq> align_values \<Longrightarrow>
     table_body opt links align rows st = Inr (out, st') \<Longrightarrow> out \<in> safe opt"
proof (induction opt links align rows st arbitrary: out st' rule: table_body.induct)
  case (2 opt links align row rows st)
  from "2.prems"(3) obtain t st1 o2 st2 where r: "table_row opt links False align row st = Inr (t, st1)" "table_body opt links align rows st1 = Inr (o2, st2)"
      "out = render_tablerow t @ o2"
    by (auto simp: bindR_Inr_conv)
  have "o2 \<in> safe opt" using "2.IH" [OF r(1) refl "2.prems"(1,2)] r(2) by simp
  then show ?case unfolding r(3) by (intro safe_append safe_tablerow table_row_safe [OF "2.prems"(1,2) r(1)])
qed simp

lemma parseText_safe:
  assumes "sanitize opt" "parseText opt links t ts st = Inr (out, ts', st')" "list_all tok_safe ts"
  shows "out \<in> safe opt \<and> list_all tok_safe ts'"
proof -
  have "list_all tok_safe (snd (text_run ts))" using assms(3) by (induction ts rule: text_run.induct) (auto split: prod.splits)
  then show ?thesis using assms inline_output_safe [OF assms(1)] by (auto simp: parseText_def bindR_Inr_conv split: prod.splits)
qed

lemma tok_other_safe:
  assumes opt: "sanitize opt" "highlight opt = None" "attr_ok (langPrefix opt)" "attr_ok (headerPrefix opt)"
    and r: "tok_other opt links k t ts st = Inr (out, ts', st')" "tok_safe t" "list_all tok_safe ts"
  shows "out \<in> safe opt \<and> list_all tok_safe ts'"
proof (cases t)
  case (TextTok x)
  then obtain o1 where "parseText opt links x ts st = Inr (o1, ts', st')" "out = o1 \<or> out = render_paragraph o1"
    using r(1) by (auto simp: tok_other_def tok_leaf_def bindR_Inr_conv split: if_splits)
  with parseText_safe [OF opt(1) _ r(3)] show ?thesis by (auto intro: safe_paragraph)
next
  case (Table header align cells)
  then obtain o1 st1 o2 where "table_row opt links True align header st = Inr (o1, st1)" "table_body opt links align cells st1 = Inr (o2, st')"
      "out = render_table (render_tablerow o1) o2" "ts' = ts"
    using r(1) by (auto simp: tok_other_def tok_leaf_def bindR_Inr_conv)
  moreover have "set align \<subseteq> align_values" using r(2) Table by (simp only: tok_safe.simps)
  ultimately show ?thesis using r(3) by (auto intro!: safe_table safe_tablerow intro: table_row_safe [OF opt(1)] table_body_safe [OF opt(1)])
qed (use r opt in \<open>auto simp: tok_other_def tok_leaf_def bindR_Inr_conv intro!: safe_heading safe_code safe_paragraph safe_hr intro: inline_output_safe safe_text\<close>)

lemma wrap_safe: "body \<in> safe opt \<Longrightarrow> wrap t body \<in> safe opt"
  by (cases t) (auto intro: safe_blockquote safe_list safe_listitem)

lemma parse_until_safe:
  "sanitize opt \<Longrightarrow> highlight opt = None \<Longrightarrow> attr_ok (langPrefix opt) \<Longrightarrow> attr_ok (headerPrefix opt) \<Longrightarrow> list_all tok_safe toks \<Longrightarrow>
   parse_until opt links k toks st = Inr (out, ts', st') \<Longrightarrow> out \<in> safe opt \<and> list_all tok_safe ts'"
proof (induction opt links k toks st arbitrary: out ts' st' rule: parse_until.induct)
  case (1 opt links k toks st)
  show ?case
  proof (cases toks)
    case Nil
    with "1.prems"(6) show ?thesis by (subst (asm) parse_until.simps) (auto split: if_splits)
  next
    case (Cons t ts)
    then have ts: "tok_safe t" "list_all tok_safe ts" using "1.prems"(5) by auto
    show ?thesis
    proof (cases "closes k t")
      case True
      with "1.prems"(6) Cons ts show ?thesis by (subst (asm) parse_until.simps) auto
    next
      case False
      let ?first = "case opens t of Some k' \<Rightarrow> bindR (parse_until opt links k' ts st) (\<lambda>(body, ts, st). Inr (wrap t body, ts, st)) | None \<Rightarrow> tok_other opt links k t ts st"
      from "1.prems"(6) Cons False obtain o1 ts1 st1 o2 where f: "?first = Inr (o1, ts1, st1)" "parse_until opt links k ts1 st1 = Inr (o2, ts', st')" "out = o1 @ o2"
        by (subst (asm) parse_until.simps) (auto simp: bindR_Inr_conv)
      have "o1 \<in> safe opt \<and> list_all tok_safe ts1"
      proof (cases "opens t")
        case None
        then have "tok_other opt links k t ts st = Inr (o1, ts1, st1)" using f(1) by simp
        then show ?thesis by (rule tok_other_safe [OF "1.prems"(1-4) _ ts])
      next
        case (Some k')
        with f(1) obtain b where b: "parse_until opt links k' ts st = Inr (b, ts1, st1)" "o1 = wrap t b" by (auto simp: bindR_Inr_conv)
        then show ?thesis using "1.IH"(1) [OF Cons False Some "1.prems"(1-4) ts(2) b(1)] wrap_safe by simp
      qed
      with "1.IH"(2) [OF Cons False f(1) refl refl "1.prems"(1-4) _ f(2)] show ?thesis using f(3) by (auto intro: safe_append)
    qed
  qed
qed

text \<open>A source of tokens whose raw texts are safe under \<open>sanitize\<close>.\<close>

locale safe_source = token_source +
  assumes source_safe: "sanitize opt \<Longrightarrow> source opt src = Inr lx \<Longrightarrow> list_all tok_safe (tokens lx)"
begin

lemma renders_safe:
  assumes "sanitize opt" "highlight opt = None" "attr_ok (langPrefix opt)" "attr_ok (headerPrefix opt)"
  shows "\<exists>lx out. source opt src = Inr lx \<and> parse_tokens opt lx = Inr out \<and> out \<in> safe opt"
proof -
  obtain lx out where 1: "source opt src = Inr lx" "parse_tokens opt lx = Inr out" using parses by blast
  from source_safe [OF assms(1) 1(1)] 1(2) have "out \<in> safe opt" using parse_until_safe [OF assms] by (auto simp: parse_tokens_def bindR_Inr_conv)
  with 1 show ?thesis by blast
qed

end

interpretation safe_lexer: safe_source lex
  by unfold_locales (simp add: lex_def, erule (1) lex_tokens_safe(1) [rotated 2], simp)

text \<open>C2: with the option \<open>sanitize\<close> and without a highlighter, the text that \<open>marked\<close> returns has only tags of the
  renderer, with known attributes and closed values, whatever the source text is; no link passes that the
  test of the renderer takes for a script.\<close>

theorem sanitize_safe:
  assumes "sanitize opt" "highlight opt = None" "attr_ok (langPrefix opt)" "attr_ok (headerPrefix opt)"
  shows "\<exists>out. marked message opt src = Inr out \<and> out \<in> safe opt"
  using safe_lexer.renders_safe [OF assms, of src] by (auto simp: marked_def)

theorem sanitize_safe_witness:
  "\<exists>out. marked (\<lambda>_. []) ((defaults (\<lambda>s. s) (\<lambda>_. False))\<lparr>sanitize := True\<rparr>) (lit ''<script>x</script>'') = Inr out
     \<and> out \<in> safe ((defaults (\<lambda>s. s) (\<lambda>_. False))\<lparr>sanitize := True\<rparr>)"
  by (rule sanitize_safe) (simp_all add: defaults_def attr_ok_def)

section \<open>References in script links\<close>

text \<open>The names between \<open>&\<close> and \<open>;\<close> that \<open>unescape\<close> looks at.\<close>

definition name_unit :: "cu \<Rightarrow> bool" where
  "name_unit c \<longleftrightarrow> c = 35 \<or> is_word c"

lemma in_ranges_unit: "in_ranges [(a, a)] a" by (simp add: in_ranges_def)

lemma entity_match:
  assumes "n \<noteq> []" "list_all name_unit n"
  shows "match_at entity_re False (p @ 38 # n @ [59]) (length p) = Some (length p + length n + 2, [None, Some n])"
proof -
  have "\<forall>x\<in>set n. in_ranges ((35, 35) # word_ranges) x = True" using assms(2) by (auto simp: list_all_iff name_unit_def is_word_def in_ranges_def)
  then have t: "takeWhile (\<lambda>x. in_ranges ((35, 35) # word_ranges) x = True) (n @ [59]) = n"
    by (subst takeWhile_append2) (auto simp: in_ranges_def)
  show ?thesis
    using assms(1) t unfolding match_at_def entity_re_def
    by (simp add: rm_greedy_set Let_def no_caps_def nth_append in_ranges_unit Suc_le_eq del: rm.simps(5))
qed

lemma entity_no_match: "i < length s \<Longrightarrow> s ! i \<noteq> 38 \<Longrightarrow> match_at entity_re False s i = None"
  by (simp add: match_at_def entity_re_def in_ranges_def)

lemma replace_from_prefix:
  assumes "\<And>i. i < m \<Longrightarrow> match_at r ml s i = None" "m \<le> length s" "p \<le> m"
  shows "replace_from r ml s f p = take (m - p) (drop p s) @ replace_from r ml s f m"
  using assms(3)
proof (induction "m - p" arbitrary: p)
  case (Suc k)
  then have l: "p < m" "p < length s" using assms(2) by auto
  have "take (m - p) (drop p s) = s ! p # take (m - Suc p) (drop (Suc p) s)"
    using l by (simp add: take_Cons' Cons_nth_drop_Suc [symmetric])
  then show ?case using replace_from_skip [OF assms(1) [OF l(1)] l(2)] Suc.hyps l by simp
qed simp

lemma replace_from_end: "match_at r ml s (length s) = None \<Longrightarrow> replace_from r ml s f (length s) = []"
  by (simp add: replace_from.simps exec_from_def)

lemma unescape_reference:
  assumes "n \<noteq> []" "list_all name_unit n" "38 \<notin> set p"
  shows "unescape lower (p @ 38 # n @ [59]) = p @ entity_text lower n"
proof -
  let ?s = "p @ 38 # n @ [59]"
  have "match_at entity_re False ?s i = None" if "i < length p" for i
    using that assms(3) by (intro entity_no_match) (auto simp: nth_append dest: nth_mem)
  then have pre: "replace_from entity_re False ?s f 0 = p @ replace_from entity_re False ?s f (length p)" for f
    using replace_from_prefix [of "length p" entity_re False ?s 0 f] by simp
  have l: "length ?s = length p + length n + 2" by simp
  have "match_at entity_re False ?s (length ?s) = None" by (simp add: match_at_def entity_re_def)
  from replace_from_end [OF this] have "replace_from entity_re False ?s f (length p + length n + 2) = []" for f unfolding l .
  with replace_from_match [OF entity_match [OF assms(1,2), of p]] pre show ?thesis
    by (simp add: unescape_def replace_all_def cap_at_def)
qed

lemma escape_keeps_reference:
  assumes "n \<noteq> []" "list_all is_word n" "list_all is_word p"
  shows "escape (p @ 38 # 35 # n @ [59]) False = p @ 38 # 35 # n @ [59]"
proof -
  let ?s = "p @ 38 # 35 # n @ [59]"
  have "\<forall>x\<in>set n. in_ranges word_ranges x = True" using assms(2) by (simp add: list_all_iff is_word_def)
  then have t: "takeWhile (\<lambda>x. in_ranges word_ranges x = True) (n @ [59]) = n"
    by (subst takeWhile_append2) (auto simp: in_ranges_def)
  have m1: "match_at amp_re False ?s (length p) = None"
    using assms(1) t unfolding match_at_def amp_re_def
    by (simp add: rm_greedy_set rm_opt Let_def no_caps_def nth_append in_ranges_unit Suc_le_eq del: rm.simps(5))
  have m2: "match_at amp_re False ?s i = None" if i: "i < length ?s" "i \<noteq> length p" for i
  proof -
    have "?s ! i \<in> set p \<union> set (35 # n @ [59])"
    proof (cases "i < length p")
      case False
      then obtain k where "i = length p + Suc k" using i(2) by (metis add_Suc_right less_imp_Suc_add nat_neq_iff)
      then have "?s ! i = (35 # n @ [59]) ! k" "k < length (35 # n @ [59])" using i(1) by (simp_all add: nth_append)
      then show ?thesis by (metis UnI2 nth_mem)
    qed (simp add: nth_append)
    moreover have "\<not> is_word 38" by (simp add: is_word_def in_ranges_def)
    moreover have "is_word c" if "c \<in> set p \<union> set n" for c using that assms(2,3) by (auto simp: list_all_iff)
    ultimately have "?s ! i \<noteq> 38" by auto
    then show ?thesis using i(1) by (simp add: match_at_def amp_re_def in_ranges_def)
  qed
  have m3: "match_at amp_re False ?s (length ?s) = None" by (simp add: match_at_def amp_re_def)
  have m: "match_at amp_re False ?s i = None" if "i < length ?s" for i
  proof (cases "i = length p")
    case True
    show ?thesis unfolding True by (rule m1)
  next
    case False
    with that show ?thesis by (rule m2)
  qed
  have "replace_from amp_re False ?s f 0 = take (length ?s - 0) (drop 0 ?s) @ []" for f
    using replace_from_prefix [OF m le_refl le0, of f] unfolding replace_from_end [OF m3] .
  then have "replace_from amp_re False ?s f 0 = ?s" for f by (simp only: minus_nat.diff_0 drop_0 take_all le_refl append_Nil2)
  moreover have "replace_from (runit u) False ?s f 0 = ?s" if "u \<in> {34, 39, 60, 62}" for u f
  proof -
    have "u \<noteq> 38" "u \<noteq> 35" "u \<noteq> 59" "\<not> is_word u" using that by (auto simp: is_word_def in_ranges_def)
    moreover have "u \<notin> set p" "u \<notin> set n" using assms(2,3) \<open>\<not> is_word u\<close> by (metis list_all_iff)+
    ultimately have "u \<notin> set ?s" by simp
    then have "map (\<lambda>c. if in_ranges [(u, u)] c = True then f [c] [None] else [c]) ?s = map (\<lambda>c. [c]) ?s"
      by (intro map_cong refl) (auto simp: in_ranges_def)
    then show ?thesis unfolding replace_from_RSet drop_0 by (simp only: concat_map_singleton list.map_id0 id_apply list.map_ident)
  qed
  ultimately show ?thesis by (simp add: escape_def replace_all_def)
qed

text \<open>What the language says of \<open>toLowerCase\<close> on texts of ASCII without capitals.\<close>

definition keeps_lower :: "(jsstr \<Rightarrow> jsstr) \<Rightarrow> bool" where
  "keeps_lower lower \<longleftrightarrow> (\<forall>s. list_all (\<lambda>c. c < 65 \<or> 90 < c \<and> c < 128) s \<longrightarrow> lower s = s)"

definition lower_word :: "jsstr \<Rightarrow> bool" where
  "lower_word w \<longleftrightarrow> list_all (\<lambda>c. 97 \<le> c \<and> c \<le> 122) w"

lemma number_with_letters:
  assumes "w \<noteq> []" "lower_word w" "keeps_lower lower"
  shows "entity_text lower (lit ''#58'' @ w) = [0]"
proof -
  obtain c v where w: "w = c # v" using assms(1) by (cases w) auto
  have c: "\<not> is_digit c" "97 \<le> c" "\<not> (v \<noteq> [] \<and> list_all is_digit v)"
    using assms(2) by (cases v; auto simp: w lower_word_def is_digit_def)+
  then have "toNumber (53 # 56 # w) = NaN" by (auto simp: toNumber_def w is_digit_def Let_def)
  moreover have "list_all (\<lambda>c. c < 65 \<or> 90 < c \<and> c < 128) w" using assms(2) by (auto simp: lower_word_def list_all_iff)
  then have "lower (lit ''#58'' @ w) = lit ''#58'' @ w" using assms(3) by (simp add: keeps_lower_def)
  ultimately show ?thesis by (simp add: entity_text_def Let_def fromCharCode_def)
qed

lemma number_exact: "keeps_lower lower \<Longrightarrow> entity_text lower (lit ''#58'') = [58]"
proof -
  assume "keeps_lower lower"
  then have "lower (lit ''#58'') = lit ''#58''" by (simp add: keeps_lower_def)
  moreover have "undec [53, 56] = 58" by code_simp
  then have "toNumber [53, 56] = Fin 58" using fl_int [of 58] by (simp add: toNumber_def is_digit_def Let_def)
  ultimately show ?thesis by (simp add: entity_text_def Let_def fromCharCode_def)
qed

lemma unescape_script:
  assumes "lower_word w"
  shows "unescape lower (lit ''javascript&#58'' @ w @ lit '';'') = lit ''javascript'' @ entity_text lower (lit ''#58'' @ w)"
proof -
  have "list_all name_unit w" using assms by (auto simp: lower_word_def list_all_iff is_word_def name_unit_def in_ranges_def)
  then have "unescape lower (lit ''javascript'' @ 38 # (35 # 53 # 56 # w) @ [59]) = lit ''javascript'' @ entity_text lower (35 # 53 # 56 # w)"
    by (intro unescape_reference) (simp_all, simp_all add: name_unit_def is_word_def in_ranges_def)
  then show ?thesis by simp
qed

lemma script_protocols:
  "decodeURIComponent (lit ''javascript'' @ [0]) = Inr (lit ''javascript'' @ [0])" "decodeURIComponent (lit ''javascript'' @ [58]) = Inr (lit ''javascript'' @ [58])"
  "replace_all (RSet False (word_ranges @ [(58, 58)])) False (lit ''javascript'' @ [0]) (const []) = lit ''javascript''"
  "replace_all (RSet False (word_ranges @ [(58, 58)])) False (lit ''javascript'' @ [58]) (const []) = lit ''javascript:''"
  "index_of (lit ''javascript'') (lit ''javascript:'') \<noteq> Some 0" "index_of (lit ''javascript:'') (lit ''javascript:'') = Some 0"
  by code_simp+

text \<open>C38: the test of \<open>sanitize\<close> for script links decodes references with \<open>unescape\<close>, which takes everything
  between \<open>&\<close> and \<open>;\<close> for one name and reads it as a number.  So \<open>javascript&#58;\<close> is recognised and its link
  dropped, but with any lower-case letters before the semicolon the name is no number, the text the test sees has
  the character 0 in place of the colon, and the link is rendered with its address unchanged, which \<open>escape\<close>
  leaves alone as well.  The hypothesis on \<open>toLowerCase\<close> is what the language says of ASCII without capitals.\<close>

theorem script_reference_overrun:
  assumes "sanitize opt" "keeps_lower (toLowerCase opt)" "w \<noteq> []" "lower_word w"
  defines "href \<equiv> lit ''javascript&#58'' @ w @ lit '';''"
  shows "render_link opt (lit ''javascript&#58;'') title t = [] \<and> unescape (toLowerCase opt) href = lit ''javascript'' @ [0] \<and> escape href False = href
    \<and> render_link opt href title t = lit ''<a href='' @ [34] @ href @ [34] @ title_attr title @ lit ''>'' @ t @ lit ''</a>''"
proof -
  have l: "toLowerCase opt (lit ''javascript'') = lit ''javascript''" "toLowerCase opt (lit ''javascript:'') = lit ''javascript:''"
    using assms(2) by (simp_all add: keeps_lower_def)
  have u: "unescape (toLowerCase opt) href = lit ''javascript'' @ [0]"
    using unescape_script [OF assms(4)] number_with_letters [OF assms(3,4,2)] by (simp only: href_def)
  have e: "unescape (toLowerCase opt) (lit ''javascript&#58;'') = lit ''javascript'' @ [58]"
    using unescape_script [of "[]" "toLowerCase opt"] number_exact [OF assms(2)] by (simp add: lower_word_def)
  have w: "list_all is_word w" using assms(4) by (auto simp: lower_word_def list_all_iff is_word_def in_ranges_def)
  have h: "href = lit ''javascript'' @ 38 # 35 # (53 # 56 # w) @ [59]" by (simp add: href_def)
  have "escape href False = href" unfolding h by (rule escape_keeps_reference) (simp_all add: w, simp_all add: is_word_def in_ranges_def)
  moreover have "link_protocol opt (lit ''javascript&#58;'') = Inr (lit ''javascript:'')"
    unfolding link_protocol_def e script_protocols(2) bindR_simps script_protocols(4) l(2) ..
  then have "render_link opt (lit ''javascript&#58;'') title t = []"
    unfolding render_link_def Let_def using assms(1) script_protocols(6) by (simp only: sum.case if_True refl)
  moreover have "link_protocol opt href = Inr (lit ''javascript'')"
    unfolding link_protocol_def u script_protocols(1) bindR_simps script_protocols(3) l(1) ..
  then have "render_link opt href title t = lit ''<a href='' @ [34] @ href @ [34] @ title_attr title @ lit ''>'' @ t @ lit ''</a>''"
    unfolding render_link_def Let_def using assms(1) script_protocols(5) by (simp only: sum.case if_True if_False)
  ultimately show ?thesis using u by blast
qed

theorem script_reference_overrun_witness:
  "render_link ((defaults (\<lambda>s. s) (\<lambda>_. False))\<lparr>sanitize := True\<rparr>) (lit ''javascript&#58this;'') None (lit ''x'')
     = lit ''<a href='' @ [34] @ lit ''javascript&#58this;'' @ [34] @ lit ''>x</a>''"
proof -
  have "lower_word (lit ''this'')" by code_simp
  then show ?thesis
    using script_reference_overrun [of "(defaults (\<lambda>s. s) (\<lambda>_. False))\<lparr>sanitize := True\<rparr>" "lit ''this''" None "lit ''x''"]
    by (simp add: defaults_def keeps_lower_def title_attr_def)
qed

end
