(* ===== verification/Marked_Sources.thy ===== *)
theory Marked_Sources
  imports Marked_Block JS_Regex_Syntax
begin

text \<open>
  Where the patterns of marked.js come from: the literals of the file and \<open>replace\<close>, which composes them as
  texts.  Each pattern of the lexers is shown to be what its text reads as.
\<close>

section \<open>Replacing in a text\<close>

text \<open>The first argument of \<open>String.prototype.replace\<close>: a string, or a global pattern of plain characters.\<close>

datatype target = First jsstr | Every jsstr

text \<open>The special sequences of a replacement string (ES5 15.5.4.11), for a match without groups; the text before
  the match is reversed.\<close>

fun expand :: "jsstr \<Rightarrow> jsstr \<Rightarrow> jsstr \<Rightarrow> jsstr \<Rightarrow> jsstr" where
  "expand pre m post (c # d # v) =
     (if c \<noteq> 36 then c # expand pre m post (d # v)
      else if d = 36 then 36 # expand pre m post v
      else if d = 38 then m @ expand pre m post v
      else if d = 96 then rev pre @ expand pre m post v
      else if d = 39 then post @ expand pre m post v
      else 36 # expand pre m post (d # v))"
| "expand pre m post [c] = [c]"
| "expand pre m post [] = []"

fun starts_with :: "jsstr \<Rightarrow> jsstr \<Rightarrow> jsstr option" where
  "starts_with [] s = Some s"
| "starts_with (c # m) [] = None"
| "starts_with (c # m) (d # s) = (if c = d then starts_with m s else None)"

lemma starts_with_length: "starts_with m s = Some r \<Longrightarrow> s = m @ r"
  by (induction m s rule: starts_with.induct) (auto split: if_splits)

fun substitute_first :: "jsstr \<Rightarrow> jsstr \<Rightarrow> jsstr \<Rightarrow> jsstr \<Rightarrow> jsstr" where
  "substitute_first m v pre [] = (if m = [] then expand pre m [] v else [])"
| "substitute_first m v pre (c # s) =
     (case starts_with m (c # s) of
        Some post \<Rightarrow> expand pre m post v @ post
      | None \<Rightarrow> c # substitute_first m v (c # pre) s)"

function substitute_every :: "jsstr \<Rightarrow> jsstr \<Rightarrow> jsstr \<Rightarrow> jsstr \<Rightarrow> jsstr" where
  "substitute_every m v pre [] = []"
| "substitute_every m v pre (c # s) =
     (case starts_with m (c # s) of
        Some post \<Rightarrow> if m = [] then c # s else expand pre m post v @ substitute_every m v (rev m @ pre) post
      | None \<Rightarrow> c # substitute_every m v (c # pre) s)"
  by pat_completeness auto
termination
  by (relation "measure (\<lambda>(m, v, pre, s). length s)") (auto dest!: starts_with_length, metis Suc_lessI length_append length_Cons length_greater_0_conv less_add_same_cancel2 not_add_less2)

definition substitute :: "target \<Rightarrow> jsstr \<Rightarrow> jsstr \<Rightarrow> jsstr" where
  "substitute t v s = (case t of First m \<Rightarrow> substitute_first m v [] s | Every m \<Rightarrow> substitute_every m v [] s)"

section \<open>replace\<close>

text \<open>\<open>val.replace(/(^|[^\[])\^/g, '$1')\<close>: carets go, at the beginning and behind any character but an opening
  bracket.\<close>

fun strip_from :: "jsstr \<Rightarrow> jsstr" where
  "strip_from (c # d # s) = (if c \<noteq> 91 \<and> d = 94 then c # strip_from s else c # strip_from (d # s))"
| "strip_from [c] = [c]"
| "strip_from [] = []"

definition strip_carets :: "jsstr \<Rightarrow> jsstr" where
  "strip_carets s = (case s of [] \<Rightarrow> [] | c # t \<Rightarrow> if c = 94 then strip_from t else strip_from s)"

text \<open>The function is the replacement with the pattern.\<close>

definition caret_re :: re where
  "caret_re = RSeq (RGroup 1 (RAlt RBol (rnot [91]))) (runit 94)"

lemma match_at_caret:
  "match_at caret_re False s i =
     (if i = 0 \<and> s \<noteq> [] \<and> hd s = 94 then Some (1, [None, Some []])
      else if Suc i < length s \<and> s ! i \<noteq> 91 \<and> s ! Suc i = 94 then Some (Suc (Suc i), [None, Some [s ! i]])
      else None)"
proof -
  have bol: "rm RBol False s k st = (if fst st = 0 then k st else None)" for k st s by (simp add: at_bol_def)
  have caret: "rm (runit 94) False s Some (j, c) = (if j < length s \<and> s ! j = 94 then Some (Suc j, c) else None)" for j c s
    by (simp add: in_unit_range)
  have other: "rm (RSet False [(91, 91)]) False s k st = (if fst st < length s \<and> s ! fst st \<noteq> 91 then k (Suc (fst st), snd st) else None)" for k st s
    by (simp add: in_unit_range)
  have one: "take (Suc i - i) (drop i s) = [s ! i]" if "i < length s" using that by (simp add: take_Suc_conv_app_nth [of 0, simplified])
  have "match_at caret_re False s i =
      (case (if i = 0 then rm (runit 94) False s Some (0, [None, Some []]) else None) of
         Some z \<Rightarrow> Some z
       | None \<Rightarrow> if i < length s \<and> s ! i \<noteq> 91 then rm (runit 94) False s Some (Suc i, [None, Some [s ! i]]) else None)"
    unfolding match_at_def no_caps_def caret_re_def using one by (cases "i = 0"; cases s) (auto simp: bol other nth_Cons' simp del: rm.simps(2,8) split: option.split)
  then show ?thesis by (cases s) (auto simp: caret simp del: rm.simps)
qed

lemma replace_caret_from:
  "0 < p \<or> s = [] \<or> hd s \<noteq> 94 \<Longrightarrow> replace_from caret_re False s (\<lambda>_ c. grp c 1) p = strip_from (drop p s)"
proof (induction "length s - p" arbitrary: p rule: less_induct)
  case less
  show ?case
  proof (cases "p < length s")
    case False
    then have "exec_from caret_re False s p = None" using less.prems by (auto simp: exec_from_None match_at_caret)
    then show ?thesis using False by (simp add: replace_from.simps [of _ _ s _ p])
  next
    case p: True
    have d: "drop p s = s ! p # drop (Suc p) s" using p by (rule Cons_nth_drop_Suc [symmetric])
    show ?thesis
    proof (cases "Suc p < length s \<and> s ! p \<noteq> 91 \<and> s ! Suc p = 94")
      case True
      then have m: "match_at caret_re False s p = Some (Suc (Suc p), [None, Some [s ! p]])" using less.prems by (auto simp: match_at_caret)
      have d2: "drop (Suc p) s = s ! Suc p # drop (Suc (Suc p)) s" using True by (intro Cons_nth_drop_Suc [symmetric]) simp
      have "replace_from caret_re False s (\<lambda>_ c. grp c 1) (Suc (Suc p)) = strip_from (drop (Suc (Suc p)) s)" by (rule less.hyps) (use p in auto)
      with replace_from_match [OF m] True show ?thesis by (simp add: d d2 grp_def cap_at_def)
    next
      case False
      then have m: "match_at caret_re False s p = None" using less.prems p by (auto simp: match_at_caret)
      have "replace_from caret_re False s (\<lambda>_ c. grp c 1) (Suc p) = strip_from (drop (Suc p) s)" by (rule less.hyps) (use p in auto)
      moreover have "strip_from (s ! p # drop (Suc p) s) = s ! p # strip_from (drop (Suc p) s)"
      proof (cases "Suc p < length s")
        case True
        then have d2: "drop (Suc p) s = s ! Suc p # drop (Suc (Suc p)) s" by (rule Cons_nth_drop_Suc [symmetric])
        then show ?thesis using False True by (auto simp: d2 simp del: drop_Suc_Cons)
      qed simp
      ultimately show ?thesis using replace_from_skip [OF m p] by (simp only: d)
    qed
  qed
qed

lemma strip_carets_replace: "strip_carets s = replace_all caret_re False s (\<lambda>_ c. grp c 1)"
proof (cases "s \<noteq> [] \<and> hd s = 94")
  case True
  then obtain t where s: "s = 94 # t" by (cases s) auto
  have m: "match_at caret_re False s 0 = Some (1, [None, Some []])" using True by (simp add: match_at_caret)
  show ?thesis using replace_from_match [OF m] replace_caret_from [of 1 s] s by (simp add: replace_all_def strip_carets_def grp_def cap_at_def)
next
  case False
  then show ?thesis using replace_caret_from [of 0 s] by (cases s) (auto simp: replace_all_def strip_carets_def)
qed

text \<open>The property \<open>source\<close> of a pattern made from a text: engines may escape slashes outside classes.\<close>

fun escape_slashes :: "bool \<Rightarrow> jsstr \<Rightarrow> jsstr" where
  "escape_slashes b [] = []"
| "escape_slashes b (c # s) =
     (if c = 92 then (case s of [] \<Rightarrow> [c] | d # t \<Rightarrow> c # d # escape_slashes b t)
      else if c = 47 \<and> \<not> b then [92, 47] @ escape_slashes b s
      else if c = 91 then c # escape_slashes True s
      else if c = 93 then c # escape_slashes False s
      else c # escape_slashes b s)"

definition source_of :: "bool \<Rightarrow> jsstr \<Rightarrow> jsstr" where
  "source_of esc t = (if esc then escape_slashes False t else t)"

text \<open>\<open>replace(regex)(name, val)...()\<close>: the text that is made into a pattern.\<close>

definition replace :: "jsstr \<Rightarrow> (target \<times> jsstr) list \<Rightarrow> jsstr" where
  "replace regex steps = fold (\<lambda>(name, val) regex. substitute name (strip_carets val) regex) steps regex"

section \<open>The block grammar\<close>

definition hr_source :: jsstr where
  "hr_source = pat ''^( *[-*_]){3,} *(?:%n+|$)''"

definition heading_source :: jsstr where
  "heading_source = pat ''^ *(#{1,6}) *([^%n]+?) *#* *(?:%n+|$)''"

definition lheading_source :: jsstr where
  "lheading_source = pat ''^([^%n]+)%n *(=|-){2,} *(?:%n+|$)''"

definition def_source :: jsstr where
  "def_source = pat ''^ *%[([^%]]+)%]: *<?([^%s>]+)>?(?: +[Q(]([^%n]+)[Q)])? *(?:%n+|$)''"

definition bullet_source :: jsstr where
  "bullet_source = pat ''(?:[*+-]|%d+%.)''"

definition item_source :: jsstr where
  "item_source = replace (pat ''^( *)(bull) [^%n]*(?:%n(?!%1bull )[^%n]*)*'') [(Every (pat ''bull''), bullet_source)]"

definition list_source :: jsstr where
  "list_source =
     replace (pat ''^( *)(bull) [%s%S]+?(?:hr|def|%n{2,}(?! )(?!%1bull )%n*|%s*$)'')
       [(Every (pat ''bull''), bullet_source),
        (First (pat ''hr''), pat ''%n+(?=%1?(?:[-*_] *){3,}(?:%n+|$))''),
        (First (pat ''def''), pat ''%n+(?='' @ def_source @ pat '')'')]"

definition blockquote_source :: jsstr where
  "blockquote_source = replace (pat ''^( *>[^%n]+(%n(?!def)[^%n]+)*%n*)+'') [(First (pat ''def''), def_source)]"

definition tag_source :: jsstr where
  "tag_source = pat ''(?!(?:a|em|strong|small|s|cite|q|dfn|abbr|data|time|code|var|samp|kbd|sub|sup|i|b|u|mark|ruby|rt|rp|bdi|bdo|span|br|wbr|ins|del|img)%b)%w+(?!:/|[^%w%s@]*@)%b''"

definition html_source :: jsstr where
  "html_source =
     replace (pat ''^ *(?:comment *(?:%n|%s*$)|closed *(?:%n{2,}|%s*$)|closing *(?:%n{2,}|%s*$))'')
       [(First (pat ''comment''), pat ''<!--[%s%S]*?-->''),
        (First (pat ''closed''), pat ''<(tag)[%s%S]+?<%/%1>''),
        (First (pat ''closing''), pat ''<tag(?:Q[^Q]*Q|'[^']*'|[^'Q>])*?>''),
        (Every (pat ''tag''), tag_source)]"

definition paragraph_normal_source :: "bool \<Rightarrow> jsstr" where
  "paragraph_normal_source esc =
     replace (pat ''^((?:[^%n]+%n?(?!hr|heading|lheading|blockquote|tag|def))+)%n*'')
       [(First (pat ''hr''), hr_source), (First (pat ''heading''), heading_source), (First (pat ''lheading''), lheading_source),
        (First (pat ''blockquote''), source_of esc blockquote_source), (First (pat ''tag''), pat ''<'' @ tag_source), (First (pat ''def''), def_source)]"

definition fences_source :: jsstr where
  "fences_source = pat ''^ *(`{3,}|~{3,}) *(%S+)? *%n([%s%S]+?)%s*%1 *(?:%n+|$)''"

definition paragraph_source :: "bool \<Rightarrow> block_grammar \<Rightarrow> jsstr" where
  "paragraph_source esc g =
     (if g = BNormal then paragraph_normal_source esc
      else replace (source_of esc (paragraph_normal_source esc))
        [(First (pat ''(?!''),
          pat ''(?!'' @ substitute (First (pat ''%1'')) (pat ''%2'') fences_source @ pat ''|'' @
          substitute (First (pat ''%1'')) (pat ''%3'') (source_of esc list_source) @ pat ''|'')])"

text \<open>The rules of a grammar with their texts; a rule that is \<open>noop\<close> is missing.\<close>

definition block_sources :: "bool \<Rightarrow> block_grammar \<Rightarrow> (jsstr \<times> re) list" where
  "block_sources esc g =
     [(pat ''^%n+'', newline_rule), (pat ''^( {4}[^%n]+%n*)+'', code_block_rule), (hr_source, hr_rule), (heading_source, heading_rule),
      (lheading_source, lheading_rule), (blockquote_source, blockquote_rule), (list_source, list_rule), (html_source, html_rule),
      (def_source, def_rule), (paragraph_source esc g, paragraph_rule g), (pat ''^[^%n]+'', text_block_rule), (bullet_source, bullet_re), (item_source, item_rule)] @
     (case fences_rule g of Some r \<Rightarrow> [(fences_source, r)] | None \<Rightarrow> []) @
     (case nptable_rule g of Some r \<Rightarrow> [(pat ''^ *(%S.*%|.*)%n *([-:]+ *%|[-| :]*)%n((?:.*%|.*(?:%n|$))*)%n*'', r)] | None \<Rightarrow> []) @
     (case table_rule g of Some r \<Rightarrow> [(pat ''^ *%|(.+)%n *%|( *[-:]+[-| :]*)%n((?: *%|.*(?:%n|$))*)%n*'', r)] | None \<Rightarrow> [])"

section \<open>The inline grammar\<close>

definition escape_source :: "grammar \<Rightarrow> jsstr" where
  "escape_source g =
     (let s = pat ''^%%([%%`*{}%[%]()#+%-.!_>])''
      in if is_gfm g then replace s [(First (pat ''])''), pat ''~|])'')] else s)"

definition inside_source :: jsstr where
  "inside_source = pat ''(?:%['' @ pat ''[^%]]*%]|[^%[%]]|%](?=[^%[]*%]))*''"

definition href_source :: jsstr where
  "href_source = pat ''%s*<?([%s%S]*?)>?(?:%s+['Q]([%s%S]*?)['Q])?%s*''"

definition link_source :: jsstr where
  "link_source = replace (pat ''^!?%[(inside)%]%(href%)'') [(First (pat ''inside''), inside_source), (First (pat ''href''), href_source)]"

definition reflink_source :: jsstr where
  "reflink_source = replace (pat ''^!?%[(inside)%]%s*%[([^%]]*)%]'') [(First (pat ''inside''), inside_source)]"

definition br_source :: "grammar \<Rightarrow> jsstr" where
  "br_source g =
     (let s = pat ''^ {2,}%n(?!%s*$)''
      in if g = Breaks then replace s [(First (pat ''{2,}''), pat ''*'')] else s)"

definition text_source :: "bool \<Rightarrow> grammar \<Rightarrow> jsstr" where
  "text_source esc g =
     (let s = pat ''^[%s%S]+?(?=[%%<!%[_*`]| {2,}%n|$)'';
          s' = replace s [(First (pat '']|''), pat ''~]|''), (First (pat ''|''), pat ''|https?://|'')]
      in if g = Breaks then replace (source_of esc s') [(First (pat ''{2,}''), pat ''*'')]
         else if g = Gfm then s' else s)"

definition strong_source :: "grammar \<Rightarrow> jsstr" where
  "strong_source g =
     (if g = Pedantic then pat ''^__(?=%S)([%s%S]*?%S)__(?!_)|^%*%*(?=%S)([%s%S]*?%S)%*%*(?!%*)''
      else pat ''^__([%s%S]+?)__(?!_)|^%*%*([%s%S]+?)%*%*(?!%*)'')"

definition em_source :: "grammar \<Rightarrow> jsstr" where
  "em_source g =
     (if g = Pedantic then pat ''^_(?=%S)([%s%S]*?%S)_(?!_)|^%*(?=%S)([%s%S]*?%S)%*(?!%*)''
      else pat ''^%b_((?:__|[%s%S])+?)_%b|^%*((?:%*%*|[%s%S])+?)%*(?!%*)'')"

definition inline_sources :: "bool \<Rightarrow> grammar \<Rightarrow> (jsstr \<times> re) list" where
  "inline_sources esc g =
     [(escape_source g, escape_rule g), (pat ''^<([^ >]+(@|:%/)[^ >]+)>'', autolink_rule),
      (pat ''^<!--[%s%S]*?-->|^<%/?%w+(?:Q[^Q]*Q|'[^']*'|[^'Q>])*?>'', tag_rule), (link_source, link_rule), (reflink_source, reflink_rule),
      (pat ''^!?%[((?:%['' @ pat ''[^%]]*%]|[^%[%]])*)%]'', nolink_rule), (strong_source g, strong_rule g), (em_source g, em_rule g),
      (pat ''^(`+)%s*([%s%S]*?[^`])%s*%1(?!`)'', code_rule), (br_source g, br_rule g), (text_source esc g, text_rule g)] @
     (case url_rule g of Some r \<Rightarrow> [(pat ''^(https?:%/%/[^%s<]+[^<.,:;Q')%]%s])'', r)] | None \<Rightarrow> []) @
     (case del_rule g of Some r \<Rightarrow> [(pat ''^~~(?=%S)([%s%S]*?%S)~~'', r)] | None \<Rightarrow> [])"

section \<open>The text of the paragraph\<close>

text \<open>The pieces of the composed text.\<close>

definition par_open :: jsstr where
  "par_open = pat ''^((?:[^%n]+%n?(?!''"

definition par_gfm :: jsstr where
  "par_gfm = pat '' *(`{3,}|~{3,}) *(%S+)? *%n([%s%S]+?)%s*%2 *(?:%n+|$)|( *)((?:[*+-]|%d+%.)) [%s%S]+?(?:%n+(?=%3?(?:[-*_] *){3,}(?:%n+|$))|%n+(?= *%[([^%]]+)%]: *<?([^%s>]+)>?(?: +[Q(]([^%n]+)[Q)])? *(?:%n+|$))|%n{2,}(?! )(?!%1(?:[*+-]|%d+%.) )%n*|%s*$)|''"

definition par_alts :: jsstr where
  "par_alts = pat ''( *[-*_]){3,} *(?:%n+|$)| *(#{1,6}) *([^%n]+?) *#* *(?:%n+|$)|([^%n]+)%n *(=|-){2,} *(?:%n+|$)|( *>[^%n]+(%n(?! *%[([^%]]+)%]: *<?([^%s>]+)>?(?: +[Q(]([^%n]+)[Q)])? *(?:%n+|$))[^%n]+)*%n*)+|''"

definition par_tag :: "bool \<Rightarrow> jsstr" where
  "par_tag esc = pat ''<(?!(?:a|em|strong|small|s|cite|q|dfn|abbr|data|time|code|var|samp|kbd|sub|sup|i|b|u|mark|ruby|rt|rp|bdi|bdo|span|br|wbr|ins|del|img)%b)%w+(?!:'' @
     (if esc then pat ''%/'' else pat ''/'') @ pat ''|[^%w%s@]*@)%b|''"

definition par_def :: jsstr where
  "par_def = pat '' *%[([^%]]+)%]: *<?([^%s>]+)>?(?: +[Q(]([^%n]+)[Q)])? *(?:%n+|$)))+)%n*''"

lemma no_slashes: "escape_slashes False blockquote_source = blockquote_source" "escape_slashes False list_source = list_source"
  by code_simp+

lemma normal_text: "paragraph_normal_source False = par_open @ par_alts @ par_tag False @ par_def"
  by code_simp

lemma normal_escaped: "escape_slashes False (par_open @ par_alts @ par_tag False @ par_def) = par_open @ par_alts @ par_tag True @ par_def"
  by code_simp

lemma gfm_text:
  "replace (par_open @ rest)
     [(First (pat ''(?!''),
       pat ''(?!'' @ substitute (First (pat ''%1'')) (pat ''%2'') fences_source @ pat ''|'' @
       substitute (First (pat ''%1'')) (pat ''%3'') list_source @ pat ''|'')] = par_open @ par_gfm @ rest"
  by code_simp

lemma normal_esc: "paragraph_normal_source esc = paragraph_normal_source False"
  by (cases esc) (simp_all add: paragraph_normal_source_def source_of_def no_slashes)

lemma paragraph_text:
  "paragraph_source esc g = (if g = BNormal then par_open @ par_alts @ par_tag False @ par_def else par_open @ par_gfm @ par_alts @ par_tag esc @ par_def)"
proof -
  have l: "source_of esc list_source = list_source" by (simp add: source_of_def no_slashes)
  have "source_of esc (paragraph_normal_source False) = par_open @ par_alts @ par_tag esc @ par_def"
    by (cases esc) (simp_all add: source_of_def normal_text normal_escaped del: append_assoc)
  then show ?thesis by (simp add: paragraph_source_def normal_esc [of esc] l gfm_text normal_text)
qed

section \<open>Its tokens\<close>

definition toks :: "jsstr \<Rightarrow> ptok list" where
  "toks s = the (tokens_of s)"

lemma tokens_of_cut: "tokens_of s \<noteq> None \<Longrightarrow> clean b \<Longrightarrow> tokens_of b = Some ts \<Longrightarrow> tokens_of (s @ b) = Some (toks s @ ts)"
  using tokens_of_append [of s "toks s" b] by (auto simp: toks_def)

lemma par_clean: "clean (par_alts @ b)" "clean (par_tag esc @ b)" "clean par_def" "clean (par_gfm @ b)"
  by (simp_all add: par_alts_def par_tag_def par_def_def par_gfm_def pat_def clean_def is_digit_def)

lemma par_tokens: "tokens_of par_open \<noteq> None" "tokens_of par_gfm \<noteq> None" "tokens_of par_alts \<noteq> None" "tokens_of par_def = Some (toks par_def)"
  by code_simp+

lemma par_tag_tokens: "tokens_of (par_tag True) = tokens_of (par_tag False)" "tokens_of (par_tag False) \<noteq> None"
  by code_simp+

lemma paragraph_tokens:
  "tokens_of (paragraph_source esc g) =
     Some (toks par_open @ (if g = BNormal then [] else toks par_gfm) @ toks par_alts @ toks (par_tag False) @ toks par_def)"
proof -
  have tag: "tokens_of (par_tag e) \<noteq> None" "toks (par_tag e) = toks (par_tag False)" for e
    using par_tag_tokens by (cases e, auto simp: toks_def)+
  have "tokens_of (par_tag e @ par_def) = Some (toks (par_tag False) @ toks par_def)" for e
    using tokens_of_cut [OF tag(1) par_clean(3) par_tokens(4)] tag(2) by simp
  note alts = tokens_of_cut [OF par_tokens(3) par_clean(2) this]
  note gfm = tokens_of_cut [OF par_tokens(2) par_clean(1) alts]
  show ?thesis
    using tokens_of_cut [OF par_tokens(1) par_clean(1) alts, of False] tokens_of_cut [OF par_tokens(1) par_clean(4) gfm, of esc]
    by (simp only: paragraph_text if_True if_False append_Nil split: if_split) blast
qed

lemma build_normal:
  "map_option norm (build [(Plain, [], [])] 0 (toks par_open @ toks par_alts @ toks (par_tag False) @ toks par_def)) = Some (norm (paragraph_rule BNormal))"
  by code_simp

lemma build_gfm:
  "map_option norm (build [(Plain, [], [])] 0 (toks par_open @ toks par_gfm @ toks par_alts @ toks (par_tag False) @ toks par_def)) = Some (norm (paragraph_rule BGfm))"
  by code_simp

lemma paragraph_reads: "reads_as (paragraph_source esc g) (paragraph_rule g)"
proof -
  have "paragraph_rule BTables = paragraph_rule BGfm" by (simp add: paragraph_rule_def)
  then show ?thesis using build_normal build_gfm by (cases g) (simp_all add: reads_as_def parse_re_def paragraph_tokens)
qed


section \<open>All texts\<close>

lemma block_literals:
  "reads_as (pat ''^%n+'') newline_rule" "reads_as (pat ''^( {4}[^%n]+%n*)+'') code_block_rule" "reads_as hr_source hr_rule"
  "reads_as heading_source heading_rule" "reads_as lheading_source lheading_rule" "reads_as def_source def_rule"
  "reads_as (pat ''^[^%n]+'') text_block_rule" "reads_as bullet_source bullet_re"
  by code_simp+

lemma block_composed:
  "reads_as blockquote_source blockquote_rule" "reads_as list_source list_rule" "reads_as html_source html_rule" "reads_as item_source item_rule"
  by code_simp+

lemma block_gfm_literals:
  "reads_as fences_source (the (fences_rule BGfm))"
  "reads_as (pat ''^ *(%S.*%|.*)%n *([-:]+ *%|[-| :]*)%n((?:.*%|.*(?:%n|$))*)%n*'') (the (nptable_rule BTables))"
  "reads_as (pat ''^ *%|(.+)%n *%|( *[-:]+[-| :]*)%n((?: *%|.*(?:%n|$))*)%n*'') (the (table_rule BTables))"
  by code_simp+

lemma block_reads: "list_all (\<lambda>(src, r). reads_as src r) (block_sources esc g)"
proof -
  note basic = block_literals block_composed paragraph_reads
  show ?thesis
    using block_gfm_literals
    by (cases g) (simp_all add: block_sources_def basic fences_rule_def nptable_rule_def table_rule_def)
qed

lemma inline_normal:
  "list_all (\<lambda>(src, r). reads_as src r) (inline_sources False Normal)" "list_all (\<lambda>(src, r). reads_as src r) (inline_sources False Pedantic)"
  by code_simp+

lemma inline_gfm:
  "list_all (\<lambda>(src, r). reads_as src r) (inline_sources False Gfm)" "list_all (\<lambda>(src, r). reads_as src r) (inline_sources False Breaks)"
  by code_simp+

lemma inline_breaks_escaped: "reads_as (text_source True Breaks) (text_rule Breaks)"
  by code_simp

lemma inline_reads: "list_all (\<lambda>(src, r). reads_as src r) (inline_sources esc g)"
proof -
  have "text_source esc g = text_source False g" if "g \<noteq> Breaks" using that by (simp add: text_source_def)
  then have "inline_sources esc g = inline_sources False g" if "g \<noteq> Breaks" using that by (simp add: inline_sources_def)
  moreover have "list_all (\<lambda>(src, r). reads_as src r) (inline_sources True Breaks)"
    using inline_gfm(2) inline_breaks_escaped by (simp add: inline_sources_def)
  ultimately show ?thesis using inline_normal inline_gfm by (cases g; cases esc) simp_all
qed

end
