(* ===== verification/Pattern_Sources.thy ===== *)
theory Pattern_Sources
  imports Marked_Sources Marked_Lexer SortTable_Dom ES5_Strings ES5_Date
begin

text \<open>
  The patterns of sorttable.js, es5-shim.js and marked.js that the code writes as literals or puts together from
  constant strings, outside the grammars of marked.js, as far as the models use them as patterns; and the statement that
  each of these texts, and each rule of the grammars, reads as the pattern of its component.  Not in the lists are
  the patterns with the flag \<open>i\<close>, those that tell browsers and callable objects apart, and those that occur only
  in the tests of engines; nor the names that \<open>replace\<close> of marked.js substitutes, which are plain words.
\<close>

definition sorttable_sources :: "(jsstr \<times> re) list" where
  "sorttable_sources =
     [(pat ''^(%d%d?)[%/%.-](%d%d?)[%/%.-]((%d%d)?%d%d)$'', DATE_RE),
      (pat ''^-?['' @ [163, 36, 164] @ pat '']?[%d,.]+'' @ [37] @ pat ''?$'', numeric_re),
      (pat ''^%s+|%s+$'', trim_re),
      (pat ''%bsorttable_([a-z0-9]+)%b'', override_re),
      (pat ''[^0-9.-]'', RSet False [(48, 57), (46, 46), (45, 45)]),
      (pat ''%bsortable%b'', word_re ''sortable''), (pat ''%bsortbottom%b'', word_re ''sortbottom''),
      (pat ''%bsorttable_nosort%b'', word_re ''sorttable_nosort''),
      (pat ''%bsorttable_sorted%b'', word_re sorted_cls), (pat ''%bsorttable_sorted_reverse%b'', word_re reverse_cls)]"

definition es5_sources :: "(jsstr \<times> re) list" where
  "es5_sources =
     [(pat ''^'' @ pat ''(%d{4}|[+-]%d{6})'' @ pat ''(?:-(%d{2})'' @ pat ''(?:-(%d{2})'' @ pat ''(?:'' @ pat ''T(%d{2})'' @ pat '':(%d{2})'' @ pat ''(?:'' @
         pat '':(%d{2})'' @ pat ''(?:(%.%d{1,}))?'' @ pat '')?'' @ pat ''('' @ pat ''Z|'' @ pat ''(?:'' @ pat ''([-+])'' @ pat ''(%d{2})'' @ pat '':(%d{2})'' @
         pat '')'' @ pat '')?)?)?)?'' @ pat ''$'', isoDateExpression),
      (pat ''%)[*?]'', capturing_groups_re),
      (pat ''['' @ ws @ pat '']'', wsRegexChars),
      (pat ''^'' @ pat ''['' @ ws @ pat '']'' @ pat ''['' @ ws @ pat '']'' @ pat ''*'', trimBeginRegexp),
      (pat ''['' @ ws @ pat '']'' @ pat ''['' @ ws @ pat '']'' @ pat ''*$'', trimEndRegexp),
      (pat ''^[%-+]?0[xX]'', hexRegex)]"

definition marked_text_sources :: "(jsstr \<times> re) list" where
  "marked_text_sources =
     [(pat ''&(?!#?%w+;)'', amp_re), (pat ''&([#%w]+);'', entity_re),
      (pat ''&'', rchr CHR ''&''), (pat ''<'', rchr CHR ''<''), (pat ''>'', rchr CHR ''>''), (pat ''Q'', runit 34), ([39], runit 39),
      (pat ''[^%w]+'', rplus (RSet False word_ranges)), (pat ''[^%w:]'', RSet False (word_ranges @ [(58, 58)])),
      (pat ''%s+'', rplus rspace), (pat ''(^|[^%[])%^'', caret_re), (pat ''--'', rstr ''--''),
      (pat ''(^|[-%u2014/(%[{Q%s])'' @ [39], opening_re [(34, 34)] 39),
      (pat ''(^|[-%u2014/(%[{%u2018%s])Q'', opening_re [(8216, 8216)] 34),
      (pat ''%.{3}'', rtimes (rchr CHR ''.'') 3)]"

definition marked_block_sources :: "(jsstr \<times> re) list" where
  "marked_block_sources =
     [(pat ''%r%n|%r'', RAlt (RSeq (runit 13) rnl) (runit 13)), (pat ''%t'', runit 9), (pat ''%u00a0'', runit 160), (pat ''%u2424'', runit 9252),
      (pat ''^ {4}'', RSeq RBol (rtimes rsp 4)), (pat ''%n+$'', RSeq (rplus rnl) REol), (pat ''%n$'', RSeq rnl REol),
      (pat ''(?: *%| *)?%n$'', rseq [ropt bar_re, rnl, REol]), (pat ''^ +$'', blank_line_re), (pat ''^ *> ?'', quote_re),
      (pat ''^ *([*+-]|%d+%.) +'', bullet_prefix_re), (pat ''^ {1,4}'', outdent_re 4), (pat ''%n%n(?!%s*$)'', loose_re),
      (pat ''^ *| *%| *$'', header_edges_re), (pat ''^ *|%| *$'', align_edges_re), (pat ''^ *%| *| *%| *$'', row_edges_re), (pat '' *%| *'', bar_re),
      (pat ''^ *-+: *$'', dashes_re False True), (pat ''^ *:-+: *$'', dashes_re True True), (pat ''^ *:-+ *$'', dashes_re True False)]"

lemma literals_read:
  "list_all (\<lambda>(src, r). reads_as src r) sorttable_sources" "list_all (\<lambda>(src, r). reads_as src r) es5_sources"
  "list_all (\<lambda>(src, r). reads_as src r) marked_text_sources" "list_all (\<lambda>(src, r). reads_as src r) marked_block_sources"
  by code_simp+

text \<open>C11: each rule of the block and inline grammars, as marked.js composes it from texts by \<open>replace\<close>, and each
  literal of the four lists above, is the text of a pattern that finds in every text what the pattern of the models
  finds; for engines that escape slashes in \<open>source\<close> and for those that do not.\<close>

theorem patterns_from_sources:
  "list_all (\<lambda>(src, r). \<exists>r'. parse_re src = Some r' \<and> (\<forall>ml s i. exec_from r' ml s i = exec_from r ml s i))
     (block_sources esc g @ inline_sources esc g' @ marked_text_sources @ marked_block_sources @ sorttable_sources @ es5_sources)"
proof -
  have "list_all (\<lambda>(src, r). reads_as src r)
      (block_sources esc g @ inline_sources esc g' @ marked_text_sources @ marked_block_sources @ sorttable_sources @ es5_sources)"
    using block_reads inline_reads literals_read by simp
  then show ?thesis by (rule list.pred_mono_strong) (auto dest: reads_as_exec)
qed

end
