(* ===== verification/Swagger_OAuth.thy ===== *)
theory Swagger_OAuth
  imports JS_URI
begin

text \<open>
  The OAuth client of the interface pages, swagger-oauth.js: the dialog with the scopes, the request it sends
  for the chosen ones, and what happens when the answer arrives.  The page, its dialogs and the network are
  other code: an operation returns the state it leaves behind and the list of what it asked them to do.
\<close>

section \<open>The description of the interface\<close>

text \<open>Scopes are an array of entries (version 1.2) or an object from names to descriptions (2.0).\<close>

record scope_entry =
  scope :: jsstr
  description :: "jsstr option"
  scheme_key :: "jsstr option"

datatype scopes = ScopeArray "scope_entry list" | ScopeObject "(jsstr \<times> jsstr) list"

text \<open>A grant of version 1.2: the addresses of its two endpoints; the outer option says whether the endpoint is
  there, the inner one whether it has an address.\<close>

record grant =
  loginEndpoint :: "jsstr option option"
  tokenRequestEndpoint :: "jsstr option option"
  grant_tokenName :: "jsstr option"

record scheme =
  scheme_type :: jsstr
  flow :: "jsstr option"
  scheme_scopes :: "scopes option"
  authorizationUrl :: "jsstr option"
  scheme_tokenUrl :: "jsstr option"
  scheme_tokenName :: "jsstr option"
  grantTypes :: "(jsstr \<times> grant) list option"

record api =
  authSchemes :: "(jsstr \<times> scheme) list option"
  securityDefinitions :: "(jsstr \<times> scheme) list option"
  info_title :: "jsstr option option"

section \<open>The state\<close>

text \<open>The data of a request are texts or null.  A variable that \<open>initOAuth\<close> sets: a missing option leaves the number of errors in it.\<close>

datatype setting = Undef | Str jsstr | Num nat

definition setting_text :: "setting \<Rightarrow> jsstr" where
  "setting_text v = (case v of Undef \<Rightarrow> lit ''undefined'' | Str s \<Rightarrow> s | Num n \<Rightarrow> dec n)"

definition opt_text :: "jsstr option \<Rightarrow> jsstr" where
  "opt_text v = (case v of None \<Rightarrow> lit ''undefined'' | Some s \<Rightarrow> s)"

text \<open>The variables of the file, and what it keeps in \<open>window\<close> and \<open>window.swaggerUi\<close>.  The file reads
  \<open>window.OAuthSchemeKey\<close> and never assigns it; its own variables and parameters of that name are other ones.\<close>

record page =
  appName :: setting
  clientId :: setting
  realm :: setting
  redirect_uri :: jsstr
  clientSecret :: "jsstr option"
  scopeSeparator :: "jsstr option"
  additionalQueryStringParams :: "(jsstr \<times> jsstr) list"
  tokenName :: "jsstr option"
  tokenUrl :: "jsstr option"
  enabledScopes :: "jsstr list option"
  authz :: "jsstr \<rightharpoonup> jsstr"
  window_key :: "jsstr option"

datatype effect =
    OpenWindow jsstr
  | Post "jsstr option" "(jsstr \<times> jsstr option) list"
  | Alert jsstr
  | UncheckAll
  | ScopesMissing nat
  | ScopesPresent nat
  | Load
  | Log jsstr
  | ShowDialog jsstr "jsstr list"
  | BindButtons
  | IconsOff

section \<open>initOAuth\<close>

record init_options =
  o_appName :: "jsstr option"
  o_clientId :: "jsstr option"
  o_clientSecret :: "jsstr option"
  o_realm :: "jsstr option"
  o_scopeSeparator :: "jsstr option"
  o_additional :: "(jsstr \<times> jsstr) list option"

text \<open>\<open>o.x || errors.push(...)\<close>: an empty text counts as missing, and \<open>push\<close> returns the new length.\<close>

definition or_error :: "jsstr option \<Rightarrow> jsstr \<Rightarrow> jsstr list \<Rightarrow> setting \<times> jsstr list" where
  "or_error v message errors =
     (case v of Some (c # cs) \<Rightarrow> (Str (c # cs), errors) | _ \<Rightarrow> (Num (Suc (length errors)), errors @ [message]))"

fun join_with :: "jsstr \<Rightarrow> jsstr list \<Rightarrow> jsstr" where
  "join_with sep [] = []"
| "join_with sep [x] = x"
| "join_with sep (x # xs) = x @ sep @ join_with sep xs"

definition truthy :: "jsstr option \<Rightarrow> jsstr option" where
  "truthy v = (case v of Some (c # cs) \<Rightarrow> Some (c # cs) | _ \<Rightarrow> None)"

definition initOAuth :: "init_options \<Rightarrow> page \<Rightarrow> page \<times> effect list" where
  "initOAuth o' p =
     (let (app, errors) = or_error (o_appName o') (lit ''missing appName'') [];
          (cid, errors) = or_error (o_clientId o') (lit ''missing client id'') errors;
          (rlm, errors) = or_error (o_realm o') (lit ''missing realm'') errors;
          p = p\<lparr>appName := app, clientId := cid, clientSecret := truthy (o_clientSecret o'), realm := rlm,
                scopeSeparator := Some (case truthy (o_scopeSeparator o') of Some s \<Rightarrow> s | None \<Rightarrow> lit '' ''),
                additionalQueryStringParams := (case o_additional o' of Some ps \<Rightarrow> ps | None \<Rightarrow> [])\<rparr>
      in (p, if errors \<noteq> [] then [Log (lit ''auth unable initialize oauth: '' @ join_with (lit '','') errors)] else [BindButtons]))"

section \<open>handleLogin\<close>

definition scopes_of :: "jsstr \<times> scheme \<Rightarrow> scope_entry list" where
  "scopes_of d =
     (if scheme_type (snd d) = lit ''oauth2'' then
        case scheme_scopes (snd d) of
          None \<Rightarrow> []
        | Some (ScopeArray es) \<Rightarrow> es
        | Some (ScopeObject ss) \<Rightarrow> map (\<lambda>(s, t). \<lparr>scope = s, description = Some t, scheme_key = Some (fst d)\<rparr>) ss
      else [])"

definition login_schemes :: "api \<Rightarrow> (jsstr \<times> scheme) list option" where
  "login_schemes a = (case authSchemes a of Some ds \<Rightarrow> Some ds | None \<Rightarrow> securityDefinitions a)"

definition login_scopes :: "api \<Rightarrow> scope_entry list" where
  "login_scopes a = (case login_schemes a of None \<Rightarrow> [] | Some ds \<Rightarrow> concat (map scopes_of ds))"

text \<open>The item of a scope, written as the code writes it, with its superfluous quote.\<close>

definition scope_item :: "bool \<Rightarrow> nat \<Rightarrow> scope_entry \<Rightarrow> jsstr" where
  "scope_item several i e =
     lit ''<li><input type='' @ [34] @ lit ''checkbox'' @ [34] @ lit '' id='' @ [34] @ lit ''scope_'' @ dec i @ [34] @ lit '' scope='' @ [34] @ scope e @ [34] @
     [34] @ lit '' oauthtype='' @ [34] @ opt_text (scheme_key e) @ [34] @ lit ''/><label for='' @ [34] @ lit ''scope_'' @ dec i @ [34] @ lit ''>'' @ scope e @
     (case truthy (description e) of
        None \<Rightarrow> []
      | Some t \<Rightarrow> lit ''<br/><span class='' @ [34] @ lit ''api-scope-desc'' @ [34] @ lit ''>'' @ t @
          (if several then lit '' ('' @ opt_text (scheme_key e) @ lit '')'' else []) @ lit ''</span>'') @
     lit ''</label></li>''"

definition handleLogin :: "api \<Rightarrow> page \<Rightarrow> page \<times> effect list" where
  "handleLogin a p =
     (let es = login_scopes a;
          several = (case login_schemes a of Some ds \<Rightarrow> length ds > 1 | None \<Rightarrow> False);
          p = (case info_title a of Some t \<Rightarrow> p\<lparr>appName := (case t of Some s \<Rightarrow> Str s | None \<Rightarrow> Undef)\<rparr> | None \<Rightarrow> p)
      in (p, [ShowDialog (setting_text (appName p)) (map (\<lambda>i. scope_item several i (es ! i)) [0..<length es])]))"

section \<open>The button of the dialog\<close>

text \<open>The scope and the scheme of each checked box.  Both lists are without repetition.\<close>

fun add_new :: "jsstr list \<Rightarrow> jsstr list \<Rightarrow> jsstr list" where
  "add_new acc [] = acc"
| "add_new acc (x # xs) = add_new (if x \<in> set acc then acc else acc @ [x]) xs"

record request =
  url :: "jsstr option"
  req_state :: "jsstr option"

text \<open>The loop over the schemes: it goes on with the request and the page so far, or sends the credentials of
  the client at once.  The changes to the page stay when an endpoint is missing and the handler throws.\<close>

datatype scan = Scanned request | Credentials "jsstr option" jsstr

fun grant_loop :: "(jsstr \<times> grant) list \<Rightarrow> request \<Rightarrow> page \<Rightarrow> page \<times> request res" where
  "grant_loop [] r p = (p, Inr r)"
| "grant_loop ((t, g) # gs) r p =
     (if t = lit ''implicit'' then
        case loginEndpoint g of
          None \<Rightarrow> (p, Inl TypeError)
        | Some u \<Rightarrow> grant_loop gs (r\<lparr>url := Some (opt_text u @ lit ''?response_type=token'')\<rparr>) (p\<lparr>tokenName := grant_tokenName g\<rparr>)
      else if t = lit ''accessCode'' then
        case tokenRequestEndpoint g of
          None \<Rightarrow> (p, Inl TypeError)
        | Some u \<Rightarrow> grant_loop gs (r\<lparr>url := Some (opt_text u @ lit ''?response_type=code'')\<rparr>) (p\<lparr>tokenName := grant_tokenName g\<rparr>)
      else grant_loop gs r p)"

definition token_name :: "scheme \<Rightarrow> jsstr option" where
  "token_name s = Some (case truthy (scheme_tokenName s) of Some n \<Rightarrow> n | None \<Rightarrow> lit ''access_token'')"

definition is_oauth2 :: "scheme \<Rightarrow> string \<Rightarrow> bool" where
  "is_oauth2 s f \<longleftrightarrow> scheme_type s = lit ''oauth2'' \<and> flow s = Some (lit f)"

fun scheme_loop :: "jsstr list \<Rightarrow> (jsstr \<times> scheme) list \<Rightarrow> request \<Rightarrow> page \<Rightarrow> page \<times> scan res" where
  "scheme_loop keys [] r p = (p, Inr (Scanned r))"
| "scheme_loop keys ((key, s) # ds) r p =
     (if key \<notin> set keys then scheme_loop keys ds r p
      else if is_oauth2 s ''implicit'' \<or> is_oauth2 s ''accessCode'' then
        scheme_loop keys ds
          (r\<lparr>url := Some (opt_text (authorizationUrl s) @ lit ''?response_type='' @ (if is_oauth2 s ''implicit'' then lit ''token'' else lit ''code'')), req_state := Some key\<rparr>)
          (p\<lparr>tokenName := token_name s, tokenUrl := if is_oauth2 s ''implicit'' then None else scheme_tokenUrl s\<rparr>)
      else if is_oauth2 s ''application'' then (p\<lparr>tokenName := token_name s\<rparr>, Inr (Credentials (scheme_tokenUrl s) key))
      else case grantTypes s of
             None \<Rightarrow> scheme_loop keys ds r p
           | Some gs \<Rightarrow> (case grant_loop gs r p of (p, Inl e) \<Rightarrow> (p, Inl e) | (p, Inr r) \<Rightarrow> scheme_loop keys ds r p))"

definition param :: "string \<Rightarrow> jsstr \<Rightarrow> jsstr res" where
  "param name v = bindR (encodeURIComponent v) (\<lambda>t. Inr (lit ''&'' @ lit name @ lit ''='' @ t))"

fun more_params :: "(jsstr \<times> jsstr) list \<Rightarrow> jsstr res" where
  "more_params [] = Inr []"
| "more_params ((k, v) # ps) =
     bindR (encodeURIComponent v) (\<lambda>t. bindR (more_params ps) (\<lambda>ts. Inr (lit ''&'' @ k @ lit ''='' @ t @ ts)))"

definition request_url :: "request \<Rightarrow> page \<Rightarrow> jsstr \<Rightarrow> jsstr list \<Rightarrow> jsstr res" where
  "request_url r p redirect scps =
     bindR (param ''redirect_uri'' redirect) (\<lambda>q1.
     bindR (param ''realm'' (setting_text (realm p))) (\<lambda>q2.
     bindR (param ''client_id'' (setting_text (clientId p))) (\<lambda>q3.
     bindR (param ''scope'' (join_with (case scopeSeparator p of Some s \<Rightarrow> s | None \<Rightarrow> lit '','') scps)) (\<lambda>q4.
     bindR (param ''state'' (opt_text (req_state r))) (\<lambda>q5.
     bindR (more_params (additionalQueryStringParams p)) (\<lambda>q6.
       Inr ((case url r of Some u \<Rightarrow> u | None \<Rightarrow> lit ''null'') @ q1 @ q2 @ q3 @ q4 @ q5 @ q6)))))))"

definition credentials_params :: "page \<Rightarrow> jsstr list \<Rightarrow> (jsstr \<times> jsstr option) list" where
  "credentials_params p scps =
     [(lit ''client_id'', Some (setting_text (clientId p))), (lit ''client_secret'', clientSecret p),
      (lit ''scope'', Some (join_with (lit '' '') scps)), (lit ''grant_type'', Some (lit ''client_credentials''))]"

text \<open>The handler of the button; \<open>redirect\<close> is \<open>window.oAuthRedirectUrl\<close> or the address of \<open>o2c.html\<close> next to the page.  The
  result has the state of the page, the request and the key a later answer is for, or the exception.\<close>

definition authorize :: "api \<Rightarrow> jsstr \<Rightarrow> (jsstr \<times> jsstr) list \<Rightarrow> page \<Rightarrow> page \<times> (effect list) res" where
  "authorize a redirect checked p =
     (let scps = add_new [] (map fst checked); keys = add_new [] (map snd checked); p = p\<lparr>enabledScopes := Some scps\<rparr>
      in case scheme_loop keys (case authSchemes a of Some ds \<Rightarrow> ds | None \<Rightarrow> []) \<lparr>url = None, req_state = None\<rparr> p of
           (p, Inl e) \<Rightarrow> (p, Inl e)
         | (p, Inr (Credentials address key)) \<Rightarrow> (p, Inr [Post address (credentials_params p scps)])
         | (p, Inr (Scanned r)) \<Rightarrow>
             let p = p\<lparr>redirect_uri := redirect\<rparr>
             in case request_url r p redirect scps of Inl e \<Rightarrow> (p, Inl e) | Inr u \<Rightarrow> (p, Inr [OpenWindow u]))"

definition default_redirect :: "jsstr \<Rightarrow> jsstr \<Rightarrow> jsstr \<Rightarrow> jsstr" where
  "default_redirect protocol host pathname =
     protocol @ lit ''//'' @ host @ rev (tl (dropWhile (\<lambda>c. c \<noteq> 47) (rev pathname))) @ lit ''/o2c.html''"

section \<open>Answers\<close>

definition processOAuthCode :: "jsstr \<Rightarrow> jsstr \<Rightarrow> page \<Rightarrow> effect list" where
  "processOAuthCode redirect code p =
     [Post (tokenUrl p)
        ([(lit ''client_id'', Some (setting_text (clientId p))), (lit ''code'', Some code), (lit ''grant_type'', Some (lit ''authorization_code'')), (lit ''redirect_uri'', Some redirect)] @
         (case truthy (clientSecret p) of Some s \<Rightarrow> [(lit ''client_secret'', Some s)] | None \<Rightarrow> []))]"

text \<open>The scopes a panel requires and that are not enabled.\<close>

definition missing :: "page \<Rightarrow> jsstr list \<Rightarrow> jsstr list" where
  "missing p required = (case enabledScopes p of None \<Rightarrow> [] | Some es \<Rightarrow> filter (\<lambda>s. s \<notin> set es) required)"

definition panel_effect :: "page \<Rightarrow> nat \<Rightarrow> jsstr list \<Rightarrow> effect" where
  "panel_effect p k required = (if missing p required \<noteq> [] then ScopesMissing k else ScopesPresent k)"

text \<open>The answer is an object of texts; the empty text stands for a failed request.  The code works out the
  key of the scheme but passes \<open>window.OAuthSchemeKey\<close> on.\<close>

definition onOAuthComplete :: "jsstr list list \<Rightarrow> (jsstr \<rightharpoonup> jsstr) option \<Rightarrow> jsstr option \<Rightarrow> page \<Rightarrow> page \<times> effect list" where
  "onOAuthComplete panels answer key p =
     (case answer of
        None \<Rightarrow> (p, [])
      | Some t \<Rightarrow>
          (case truthy (t (lit ''error'')) of
             Some e \<Rightarrow> (p, [UncheckAll, Alert e])
           | None \<Rightarrow>
               (case truthy (t (opt_text (tokenName p))) of
                  None \<Rightarrow> (p, [])
                | Some b \<Rightarrow>
                    (p\<lparr>authz := (authz p)(opt_text (window_key p) \<mapsto> lit ''Bearer '' @ b)\<rparr>,
                     map (\<lambda>k. panel_effect p k (panels ! k)) [0..<length panels] @ [Load]))))"

definition handleLogout :: "page \<Rightarrow> page \<times> effect list" where
  "handleLogout p = (p\<lparr>authz := Map.empty, enabledScopes := None\<rparr>, [IconsOff])"

end
