(* ===== verification/Swagger_OAuth_Laws.thy ===== *)
theory Swagger_OAuth_Laws
  imports Swagger_OAuth
begin

text \<open>
  What the OAuth client sends and keeps: the query of a request can be read back, all answers are kept
  under one key, and the dialog and its button look at different descriptions.
\<close>

section \<open>Queries\<close>

fun split_on :: "cu \<Rightarrow> jsstr \<Rightarrow> jsstr list" where
  "split_on u [] = [[]]"
| "split_on u (c # s) = (if c = u then [] # split_on u s else (case split_on u s of [] \<Rightarrow> [[c]] | x # xs \<Rightarrow> (c # x) # xs))"

text \<open>A reader of the query: parts between ampersands, the name up to the first equals sign, the value decoded.\<close>

definition query_part :: "(jsstr \<Rightarrow> jsstr res) \<Rightarrow> jsstr \<Rightarrow> jsstr \<times> jsstr res" where
  "query_part decode s = (takeWhile (\<lambda>c. c \<noteq> 61) s, decode (tl (dropWhile (\<lambda>c. c \<noteq> 61) s)))"

definition query_params :: "(jsstr \<Rightarrow> jsstr res) \<Rightarrow> jsstr \<Rightarrow> (jsstr \<times> jsstr res) list" where
  "query_params decode q = map (query_part decode) (split_on 38 q)"

lemma split_on_absent: "u \<notin> set s \<Longrightarrow> split_on u s = [s]"
  by (induction s) auto

lemma split_on_append: "u \<notin> set s \<Longrightarrow> split_on u (s @ u # t) = s # split_on u t"
  by (induction s) auto

text \<open>A text that can be encoded, and a name that needs no encoding.\<close>

definition well_formed :: "(jsstr \<Rightarrow> jsstr res) \<Rightarrow> jsstr \<Rightarrow> bool" where
  "well_formed encode s \<longleftrightarrow> list_all (\<lambda>c. c < 65536) s \<and> (case encode s of Inr _ \<Rightarrow> True | Inl _ \<Rightarrow> False)"

definition plain_name :: "jsstr \<Rightarrow> bool" where
  "plain_name s \<longleftrightarrow> 38 \<notin> set s \<and> 61 \<notin> set s"

text \<open>A text of the form \<open>&name=value&...\<close>, and its parts.\<close>

fun params_text :: "(jsstr \<Rightarrow> jsstr res) \<Rightarrow> (jsstr \<times> jsstr) list \<Rightarrow> jsstr res" where
  "params_text encode [] = Inr []"
| "params_text encode ((k, v) # ps) = bindR (encode v) (\<lambda>t. bindR (params_text encode ps) (\<lambda>ts. Inr ([38] @ k @ [61] @ t @ ts)))"

context query_codec
begin

lemma query_part_encoded:
  assumes "plain_name name" "list_all (\<lambda>c. c < 65536) v" "encode v = Inr t"
  shows "query_part decode (name @ 61 # t) = (name, Inr v)" "38 \<notin> set (name @ 61 # t)"
proof -
  have "takeWhile (\<lambda>c. c \<noteq> 61) (name @ 61 # t) = name" "dropWhile (\<lambda>c. c \<noteq> 61) (name @ 61 # t) = 61 # t"
    using assms(1) by (auto simp: plain_name_def takeWhile_append dropWhile_append)
  then show "query_part decode (name @ 61 # t) = (name, Inr v)" using dec_enc [OF assms(2,3)] by (simp add: query_part_def)
  show "38 \<notin> set (name @ 61 # t)" using enc_plain [OF assms(2,3)] assms(1) by (auto simp: plain_name_def)
qed

lemma params_text_parts:
  "list_all (\<lambda>(k, v). plain_name k \<and> well_formed encode v) ps \<Longrightarrow> 38 \<notin> set first \<Longrightarrow>
     \<exists>t. params_text encode ps = Inr t \<and> query_params decode (first @ t) = query_part decode first # map (\<lambda>(k, v). (k, Inr v)) ps"
proof (induction ps arbitrary: first)
  case Nil
  then show ?case by (simp add: query_params_def split_on_absent)
next
  case (Cons kv ps)
  obtain k v where kv: "kv = (k, v)" by (cases kv)
  with Cons.prems obtain e where e: "plain_name k" "list_all (\<lambda>c. c < 65536) v" "encode v = Inr e" by (auto simp: well_formed_def split: sum.splits)
  note q = query_part_encoded [OF e]
  from Cons.IH [of "k @ 61 # e"] Cons.prems q(2) obtain t where t: "params_text encode ps = Inr t"
      "query_params decode ((k @ 61 # e) @ t) = query_part decode (k @ 61 # e) # map (\<lambda>(k, v). (k, Inr v)) ps" by auto
  have "query_params decode (first @ [38] @ k @ [61] @ e @ t) = query_part decode first # query_params decode ((k @ 61 # e) @ t)"
    using Cons.prems(2) by (simp add: query_params_def split_on_append)
  then show ?case using kv e t q(1) by simp
qed

end

lemma more_params_text: "more_params ps = params_text encodeURIComponent ps"
  by (induction ps) auto

lemma request_url_text:
  "request_url r p redirect scps =
     bindR (params_text encodeURIComponent ([(lit ''redirect_uri'', redirect), (lit ''realm'', setting_text (realm p)), (lit ''client_id'', setting_text (clientId p)),
        (lit ''scope'', join_with (case scopeSeparator p of Some s \<Rightarrow> s | None \<Rightarrow> lit '','') scps), (lit ''state'', opt_text (req_state r))] @ additionalQueryStringParams p))
       (\<lambda>t. Inr ((case url r of Some u \<Rightarrow> u | None \<Rightarrow> lit ''null'') @ t))"
  by (simp add: request_url_def param_def more_params_text bindR_assoc)


section \<open>The request\<close>

text \<open>Schemes with a flow that goes through the browser.\<close>

definition browser_flow :: "scheme \<Rightarrow> bool" where
  "browser_flow s \<longleftrightarrow> is_oauth2 s ''implicit'' \<or> is_oauth2 s ''accessCode''"

lemma scheme_loop_last:
  "list_all (\<lambda>(k, s). k \<in> set keys \<longrightarrow> browser_flow s) ds \<Longrightarrow>
     \<exists>p' r'. scheme_loop keys ds r p = (p', Inr (Scanned r')) \<and>
       realm p' = realm p \<and> clientId p' = clientId p \<and> scopeSeparator p' = scopeSeparator p \<and> additionalQueryStringParams p' = additionalQueryStringParams p \<and>
       (case rev (filter (\<lambda>(k, s). k \<in> set keys) ds) of
          [] \<Rightarrow> r' = r
        | (k, s) # _ \<Rightarrow> req_state r' = Some k \<and>
            url r' = Some (opt_text (authorizationUrl s) @ lit ''?response_type='' @ (if is_oauth2 s ''implicit'' then lit ''token'' else lit ''code'')))"
proof (induction ds arbitrary: r p)
  case (Cons d ds)
  obtain k s where d: "d = (k, s)" by (cases d)
  show ?case
  proof (cases "k \<in> set keys")
    case True
    then have b: "is_oauth2 s ''implicit'' \<or> is_oauth2 s ''accessCode''" using Cons.prems d by (simp add: browser_flow_def)
    let ?r = "r\<lparr>url := Some (opt_text (authorizationUrl s) @ lit ''?response_type='' @ (if is_oauth2 s ''implicit'' then lit ''token'' else lit ''code'')), req_state := Some k\<rparr>"
    let ?p = "p\<lparr>tokenName := token_name s, tokenUrl := if is_oauth2 s ''implicit'' then None else scheme_tokenUrl s\<rparr>"
    have step: "scheme_loop keys (d # ds) r p = scheme_loop keys ds ?r ?p" using True b d by simp
    show ?thesis unfolding step using Cons.IH [of ?r ?p] Cons.prems d True by (cases "rev (filter (\<lambda>(k, s). k \<in> set keys) ds)") auto
  next
    case False
    then show ?thesis using Cons.IH [of r p] Cons.prems d by simp
  qed
qed simp

text \<open>C3: the button sends the request that was asked for: with a flow through the browser for every chosen
  scheme, one window is opened, at the address of the last of them, and a reader of its query gets exactly
  the parameters back.  The values have to be encodable (no lone surrogates), and the names of the additional
  parameters, which the file does not encode, must not contain \<open>&\<close> or \<open>=\<close>.\<close>

theorem authorize_request:
  assumes "authSchemes a = Some ds" "keys = add_new [] (map snd checked)" "list_all (\<lambda>(k, s). k \<in> set keys \<longrightarrow> browser_flow s) ds"
    and "filter (\<lambda>(k, s). k \<in> set keys) ds = ms @ [(key, s)]"
    and "scps = join_with (case scopeSeparator p of Some s \<Rightarrow> s | None \<Rightarrow> lit '','') (add_new [] (map fst checked))"
    and "list_all (well_formed encodeURIComponent) [redirect, setting_text (realm p), setting_text (clientId p), scps, key]"
    and "list_all (\<lambda>(k, v). plain_name k \<and> well_formed encodeURIComponent v) (additionalQueryStringParams p)"
  shows "\<exists>p' q. authorize a redirect checked p = (p', Inr [OpenWindow (opt_text (authorizationUrl s) @ lit ''?'' @ q)]) \<and>
    query_params decodeURIComponent q =
      [(lit ''response_type'', Inr (if is_oauth2 s ''implicit'' then lit ''token'' else lit ''code'')), (lit ''redirect_uri'', Inr redirect),
       (lit ''realm'', Inr (setting_text (realm p))), (lit ''client_id'', Inr (setting_text (clientId p))), (lit ''scope'', Inr scps), (lit ''state'', Inr key)] @
      map (\<lambda>(k, v). (k, Inr v)) (additionalQueryStringParams p)"
proof -
  let ?p = "p\<lparr>enabledScopes := Some (add_new [] (map fst checked))\<rparr>"
  let ?rt = "if is_oauth2 s ''implicit'' then lit ''token'' else lit ''code''"
  obtain p1 r1 where 1: "scheme_loop keys ds \<lparr>url = None, req_state = None\<rparr> ?p = (p1, Inr (Scanned r1))"
      "realm p1 = realm p" "clientId p1 = clientId p" "scopeSeparator p1 = scopeSeparator p" "additionalQueryStringParams p1 = additionalQueryStringParams p"
      "req_state r1 = Some key" "url r1 = Some (opt_text (authorizationUrl s) @ lit ''?response_type='' @ ?rt)"
    using scheme_loop_last [OF assms(3), of "\<lparr>url = None, req_state = None\<rparr>" ?p] assms(4) by auto
  let ?ps = "[(lit ''redirect_uri'', redirect), (lit ''realm'', setting_text (realm p)), (lit ''client_id'', setting_text (clientId p)), (lit ''scope'', scps), (lit ''state'', key)] @ additionalQueryStringParams p"
  let ?first = "lit ''response_type='' @ ?rt"
  have first: "38 \<notin> set ?first" "query_part decodeURIComponent ?first = (lit ''response_type'', Inr ?rt)"
    by (simp_all add: query_part_def decodeURIComponent.simps)
  have "list_all (\<lambda>(k, v). plain_name k \<and> well_formed encodeURIComponent v) ?ps" using assms(6,7) by (simp add: plain_name_def)
  from uri.params_text_parts [OF this first(1)] obtain t where t: "params_text encodeURIComponent ?ps = Inr t" "query_params decodeURIComponent (?first @ t) = query_part decodeURIComponent ?first # map (\<lambda>(k, v). (k, Inr v)) ?ps" by blast
  have "request_url r1 (p1\<lparr>redirect_uri := redirect\<rparr>) redirect (add_new [] (map fst checked)) = Inr (opt_text (authorizationUrl s) @ lit ''?'' @ (?first @ t))"
    using t(1) 1 by (simp add: request_url_text assms(5) opt_text_def del: params_text.simps) 
  then have "authorize a redirect checked p = (p1\<lparr>redirect_uri := redirect\<rparr>, Inr [OpenWindow (opt_text (authorizationUrl s) @ lit ''?'' @ (?first @ t))])"
    using 1(1) by (simp add: authorize_def assms(1,2) Let_def)
  with t(2) first(2) show ?thesis by (intro exI conjI) simp_all
qed

text \<open>A page of the example: one scheme of version 2.0 with the implicit flow.\<close>

definition sample_page :: page where
  "sample_page = \<lparr>appName = Str (lit ''app''), clientId = Str (lit ''c&1''), realm = Str (lit ''r''), redirect_uri = [], clientSecret = None,
     scopeSeparator = Some (lit '' ''), additionalQueryStringParams = [(lit ''nonce'', lit ''5'')], tokenName = None, tokenUrl = None,
     enabledScopes = None, authz = Map.empty, window_key = None\<rparr>"

definition sample_scheme :: scheme where
  "sample_scheme = \<lparr>scheme_type = lit ''oauth2'', flow = Some (lit ''implicit''), scheme_scopes = Some (ScopeObject [(lit ''read'', lit ''Reading'')]),
     authorizationUrl = Some (lit ''https://h/auth''), scheme_tokenUrl = None, scheme_tokenName = None, grantTypes = None\<rparr>"

theorem authorize_request_witness:
  "\<exists>p' q. authorize \<lparr>authSchemes = Some [(lit ''k'', sample_scheme)], securityDefinitions = None, info_title = None\<rparr> (lit ''http://x/o2c.html'')
      [(lit ''read'', lit ''k''), (lit ''write'', lit ''k'')] sample_page = (p', Inr [OpenWindow (lit ''https://h/auth?'' @ q)]) \<and>
    query_params decodeURIComponent q =
      [(lit ''response_type'', Inr (lit ''token'')), (lit ''redirect_uri'', Inr (lit ''http://x/o2c.html'')), (lit ''realm'', Inr (lit ''r'')),
       (lit ''client_id'', Inr (lit ''c&1'')), (lit ''scope'', Inr (lit ''read write'')), (lit ''state'', Inr (lit ''k'')), (lit ''nonce'', Inr (lit ''5''))]"
proof -
  have wf: "well_formed encodeURIComponent (lit ''http://x/o2c.html'')" "well_formed encodeURIComponent (lit ''r'')" "well_formed encodeURIComponent (lit ''c&1'')" "well_formed encodeURIComponent (lit ''read write'')" "well_formed encodeURIComponent (lit ''k'')" "well_formed encodeURIComponent (lit ''5'')"
    by (simp_all add: well_formed_def unreserved_def is_digit_def)
  have i: "is_oauth2 sample_scheme ''implicit''" by (simp add: is_oauth2_def sample_scheme_def)
  let ?a = "\<lparr>authSchemes = Some [(lit ''k'', sample_scheme)], securityDefinitions = None, info_title = None\<rparr>"
  have "\<exists>p' q. authorize ?a (lit ''http://x/o2c.html'') [(lit ''read'', lit ''k''), (lit ''write'', lit ''k'')] sample_page =
      (p', Inr [OpenWindow (opt_text (authorizationUrl sample_scheme) @ lit ''?'' @ q)]) \<and>
    query_params decodeURIComponent q =
      [(lit ''response_type'', Inr (if is_oauth2 sample_scheme ''implicit'' then lit ''token'' else lit ''code'')), (lit ''redirect_uri'', Inr (lit ''http://x/o2c.html'')),
       (lit ''realm'', Inr (setting_text (realm sample_page))), (lit ''client_id'', Inr (setting_text (clientId sample_page))), (lit ''scope'', Inr (lit ''read write'')), (lit ''state'', Inr (lit ''k''))] @
      map (\<lambda>(k, v). (k, Inr v)) (additionalQueryStringParams sample_page)"
    by (rule authorize_request [where ds = "[(lit ''k'', sample_scheme)]" and keys = "[lit ''k'']" and ms = "[]"])
       (use wf i in \<open>simp_all add: browser_flow_def sample_page_def setting_text_def plain_name_def\<close>)
  then show ?thesis using i by (simp add: sample_page_def sample_scheme_def opt_text_def setting_text_def)
qed

text \<open>C39: the dialog and its button look at different descriptions: with schemes only in \<open>securityDefinitions\<close>
  the dialog offers their scopes, and the button, whatever was chosen, opens an address that begins with the
  word null, or throws on a text that cannot be encoded.\<close>

theorem authorize_null_request:
  assumes "authSchemes a = None"
  shows "login_scopes a = (case securityDefinitions a of None \<Rightarrow> [] | Some ds \<Rightarrow> concat (map scopes_of ds)) \<and>
    (case snd (authorize a redirect checked p) of Inl e \<Rightarrow> e = JSError (lit ''URIError'') | Inr es \<Rightarrow> \<exists>q. es = [OpenWindow (lit ''null&redirect_uri='' @ q)])"
proof -
  have par: "params_text encodeURIComponent ps = Inl e \<Longrightarrow> e = JSError (lit ''URIError'')" for ps e
    by (induction encodeURIComponent ps rule: params_text.induct) (auto simp: bindR_def dest: encode_error split: sum.splits)
  have bind: "bindR m (\<lambda>t. Inr (f t)) = Inl e \<Longrightarrow> m = Inl e" for m :: "jsstr res" and f e by (cases m) auto
  have "request_url \<lparr>url = None, req_state = None\<rparr> p' redirect scps = Inl e \<Longrightarrow> e = JSError (lit ''URIError'')" for p' scps e
    unfolding request_url_text by (drule bind, erule par)
  moreover have "request_url \<lparr>url = None, req_state = None\<rparr> p' redirect scps = Inr u \<Longrightarrow> \<exists>q. u = lit ''null&redirect_uri='' @ q" for p' scps u
    by (auto simp: request_url_def param_def bindR_Inr_conv)
  ultimately show ?thesis
    using assms by (auto simp: authorize_def Let_def login_scopes_def login_schemes_def split: sum.splits)
qed

theorem authorize_null_request_witness:
  "let a = \<lparr>authSchemes = None, securityDefinitions = Some [(lit ''k'', sample_scheme)], info_title = None\<rparr>
   in map scope (login_scopes a) = [lit ''read''] \<and>
      (case snd (authorize a (lit ''u'') [(lit ''read'', lit ''k'')] sample_page) of Inl e \<Rightarrow> False | Inr es \<Rightarrow> \<exists>q. es = [OpenWindow (lit ''null&redirect_uri='' @ q)])"
proof -
  let ?a = "\<lparr>authSchemes = None, securityDefinitions = Some [(lit ''k'', sample_scheme)], info_title = None\<rparr>"
  have "case snd (authorize ?a (lit ''u'') [(lit ''read'', lit ''k'')] sample_page) of Inl e \<Rightarrow> False | Inr es \<Rightarrow> True" by code_simp
  moreover have "authSchemes ?a = None" by simp
  note authorize_null_request [OF this, of "lit ''u''" "[(lit ''read'', lit ''k'')]" sample_page]
  ultimately show ?thesis by (auto simp: scopes_of_def sample_scheme_def Let_def split: sum.splits)
qed

section \<open>Reachable states\<close>

text \<open>The operations of the file, in any order, from any page: other code may have set \<open>window.OAuthSchemeKey\<close>
  before.\<close>

inductive oauth_step :: "page \<Rightarrow> page \<Rightarrow> bool" where
  step_init: "oauth_step p (fst (initOAuth o' p))"
| step_login: "oauth_step p (fst (handleLogin a p))"
| step_authorize: "oauth_step p (fst (authorize a redirect checked p))"
| step_complete: "oauth_step p (fst (onOAuthComplete panels answer key p))"
| step_logout: "oauth_step p (fst (handleLogout p))"

definition start_page :: page where
  "start_page = \<lparr>appName = Undef, clientId = Undef, realm = Undef, redirect_uri = [], clientSecret = None, scopeSeparator = None,
     additionalQueryStringParams = [], tokenName = None, tokenUrl = None, enabledScopes = None, authz = Map.empty, window_key = None\<rparr>"

lemma grant_loop_keeps: "authz (fst (grant_loop gs r p)) = authz p \<and> window_key (fst (grant_loop gs r p)) = window_key p"
  by (induction gs r p rule: grant_loop.induct) (auto split: option.splits)

lemma scheme_loop_keeps: "authz (fst (scheme_loop keys ds r p)) = authz p \<and> window_key (fst (scheme_loop keys ds r p)) = window_key p"
proof (induction keys ds r p rule: scheme_loop.induct)
  case (2 keys key s ds r p)
  show ?case
  proof (cases "grantTypes s")
    case (Some gs)
    with 2 grant_loop_keeps [of gs r p] show ?thesis by (auto split: prod.splits sum.splits)
  qed (use 2 in auto)
qed simp

lemma authorize_keeps: "authz (fst (authorize a redirect checked p)) = authz p \<and> window_key (fst (authorize a redirect checked p)) = window_key p"
proof -
  let ?keys = "add_new [] (map snd checked)" and ?ds = "case authSchemes a of Some ds \<Rightarrow> ds | None \<Rightarrow> []" and ?p = "p\<lparr>enabledScopes := Some (add_new [] (map fst checked))\<rparr>"
  obtain p1 x where 1: "scheme_loop ?keys ?ds \<lparr>url = None, req_state = None\<rparr> ?p = (p1, x)" by (cases "scheme_loop ?keys ?ds \<lparr>url = None, req_state = None\<rparr> ?p")
  with scheme_loop_keeps [of ?keys ?ds "\<lparr>url = None, req_state = None\<rparr>" ?p] have "authz p1 = authz p" "window_key p1 = window_key p" by simp_all
  with 1 show ?thesis by (auto simp: authorize_def Let_def split: sum.splits scan.splits)
qed

lemma reachable_authz:
  "oauth_step\<^sup>*\<^sup>* p0 p \<Longrightarrow> window_key p = window_key p0 \<and> dom (authz p) \<subseteq> insert (opt_text (window_key p0)) (dom (authz p0))"
proof (induction rule: rtranclp_induct)
  case (step p p')
  from step.hyps(2) show ?case
  proof (cases rule: oauth_step.cases)
    case (step_init o')
    with step.IH show ?thesis by (auto simp: initOAuth_def Let_def split: prod.splits)
  next
    case (step_login a)
    with step.IH show ?thesis by (auto simp: handleLogin_def Let_def split: option.splits)
  next
    case (step_authorize a redirect checked)
    with step.IH authorize_keeps [of a redirect checked p] show ?thesis by simp
  next
    case (step_complete panels answer key)
    with step.IH show ?thesis by (auto simp: onOAuthComplete_def split: option.splits)
  next
    case step_logout
    with step.IH show ?thesis by (simp add: handleLogout_def)
  qed
qed auto

text \<open>C4: whatever the file has done since other code last set \<open>window.OAuthSchemeKey\<close>, authorizations were added under
  that one key only, and the answer to a request is stored there, whatever scheme it is for, in place of the
  authorization that was there.\<close>

theorem answers_one_key:
  assumes "oauth_step\<^sup>*\<^sup>* p0 p" "w = opt_text (window_key p0)" "t (lit ''error'') = None" "t (opt_text (tokenName p)) = Some (b # bs)"
  shows "dom (authz p) \<subseteq> insert w (dom (authz p0)) \<and> authz (fst (onOAuthComplete panels (Some t) key p)) = (authz p)(w \<mapsto> lit ''Bearer '' @ b # bs)"
  using reachable_authz [OF assms(1)] assms(2-4) by (simp add: onOAuthComplete_def truthy_def)

text \<open>The answer for \<open>l\<close> replaces the one for \<open>k\<close>.\<close>

theorem answers_one_key_witness:
  "\<exists>p. oauth_step\<^sup>*\<^sup>* start_page p \<and> authz p = [lit ''undefined'' \<mapsto> lit ''Bearer T''] \<and>
     authz (fst (onOAuthComplete [] (Some [lit ''access_token'' \<mapsto> lit ''U'']) (Some (lit ''l'')) p)) = [lit ''undefined'' \<mapsto> lit ''Bearer U'']"
proof -
  let ?a = "\<lparr>authSchemes = Some [(lit ''k'', sample_scheme), (lit ''l'', sample_scheme)], securityDefinitions = None, info_title = None\<rparr>"
  define p1 where "p1 = fst (authorize ?a (lit ''u'') [(lit ''read'', lit ''k'')] start_page)"
  define p2 where "p2 = fst (onOAuthComplete [] (Some [lit ''access_token'' \<mapsto> lit ''T'']) (Some (lit ''k'')) p1)"
  define p where "p = fst (authorize ?a (lit ''u'') [(lit ''read'', lit ''l'')] p2)"
  have "oauth_step start_page p1" "oauth_step p1 p2" "oauth_step p2 p" unfolding p1_def p2_def p_def by (rule oauth_step.intros)+
  then have p: "oauth_step\<^sup>*\<^sup>* start_page p" by (meson converse_rtranclp_into_rtranclp rtranclp.rtrancl_refl)
  have w: "lit ''undefined'' = opt_text (window_key start_page)" by (simp add: start_page_def opt_text_def)
  have n1: "tokenName p1 = Some (lit ''access_token'')" "authz p1 = Map.empty" "window_key p1 = None"
    unfolding p1_def by (code_simp, simp_all add: authorize_keeps start_page_def)
  have a: "authz p = [lit ''undefined'' \<mapsto> lit ''Bearer T'']"
    using n1 by (simp add: p_def authorize_keeps p2_def onOAuthComplete_def truthy_def opt_text_def)
  have n: "tokenName p = Some (lit ''access_token'')"
  proof -
    have "tokenName (fst (authorize ?a (lit ''u'') [(lit ''read'', lit ''l'')] q)) = Some (lit ''access_token'')" for q
      by (cases "request_url \<lparr>url = None, req_state = None\<rparr> q [] []")
         (simp_all add: authorize_def Let_def sample_scheme_def is_oauth2_def token_name_def truthy_def split: sum.splits)
    then show ?thesis by (simp add: p_def)
  qed
  have "authz (fst (onOAuthComplete [] (Some [lit ''access_token'' \<mapsto> lit ''U'']) (Some (lit ''l'')) p)) = (authz p)(lit ''undefined'' \<mapsto> lit ''Bearer '' @ 85 # [])"
    using answers_one_key [OF p w, of "[lit ''access_token'' \<mapsto> lit ''U'']" 85 "[]"] n by (simp add: opt_text_def)
  with p a show ?thesis by auto
qed

end
