(* ===== verification/Page_Helpers.thy ===== *)
theory Page_Helpers
  imports Marked_Main JS_Effect
begin

text \<open>
  Two small helpers of the pages: \<open>Object.assign\<close> for engines without it (object-assign-pollyfill.js), which
  does what \<open>merge\<close> of marked.js does, and the limit on the texts that are highlighted
  (highlight.9.1.0.pack_extended.js).
\<close>

section \<open>Object.assign\<close>

text \<open>The loop over the keys of one source, own and inherited, and the loop over the sources; \<open>None\<close> is undefined or
  null.\<close>

fun assign_keys :: "'v properties \<Rightarrow> (jsstr \<rightharpoonup> 'v) \<Rightarrow> (jsstr \<rightharpoonup> 'v)" where
  "assign_keys [] out = out"
| "assign_keys ((nextKey, own, v) # keys) out = assign_keys keys (if own then out(nextKey \<mapsto> v) else out)"

fun assign_sources :: "'v properties option list \<Rightarrow> (jsstr \<rightharpoonup> 'v) \<Rightarrow> (jsstr \<rightharpoonup> 'v)" where
  "assign_sources [] out = out"
| "assign_sources (None # sources) out = assign_sources sources out"
| "assign_sources (Some source # sources) out = assign_sources sources (assign_keys source out)"

definition object_assign :: "(jsstr \<rightharpoonup> 'v) option \<Rightarrow> 'v properties option list \<Rightarrow> (jsstr \<rightharpoonup> 'v) res" where
  "object_assign target sources =
     (case target of
        None \<Rightarrow> Inl TypeError
      | Some out \<Rightarrow> Inr (assign_sources sources out))"

text \<open>The own properties of the sources, in the order of the loops.\<close>

definition own_props :: "'v properties option list \<Rightarrow> (jsstr \<times> 'v) list" where
  "own_props sources = [(k, v). Some source \<leftarrow> sources, (k, own, v) \<leftarrow> source, own]"

lemma own_props_simps [simp]:
  "own_props [] = []"
  "own_props (None # sources) = own_props sources"
  "own_props (Some source # sources) = map (\<lambda>(k, own, v). (k, v)) (filter (\<lambda>(k, own, v). own) source) @ own_props sources"
  by (simp_all add: own_props_def) (induction source, auto)

lemma assign_keys_merge: "assign_keys source = merge_one source"
proof
  show "assign_keys source out = merge_one source out" for out
    by (induction source out rule: assign_keys.induct) auto
qed

lemma assign_sources_own: "assign_sources sources out = out ++ map_of (rev (own_props sources))"
  by (induction sources out rule: assign_sources.induct) (simp_all add: assign_keys_merge merge_one_eq rev_map rev_filter)

lemma assign_sources_merge: "assign_sources (map Some sources) out = merge out sources"
  by (induction sources arbitrary: out) (simp_all add: assign_keys_merge merge_def)

text \<open>C40: \<open>Object.assign\<close> gives each key the value of the last source that has it itself, keeps the other
  keys of the target, skips undefined and null, and agrees with \<open>merge\<close> of marked.js on sources that are objects.\<close>

theorem object_assign_last:
  "object_assign (Some target) sources = Inr (\<lambda>k. case map_of (rev (own_props sources)) k of Some v \<Rightarrow> Some v | None \<Rightarrow> target k) \<and>
   object_assign (Some target) (map Some objs) = Inr (merge target objs)"
  by (simp add: object_assign_def assign_sources_own [of sources] assign_sources_merge map_add_def fun_eq_iff split: option.split)

section \<open>The limit on highlighting\<close>

text \<open>The value of an option: a number, undefined or null, or something else.\<close>

datatype size_value = Number jsnum | Other

record 's hljs =
  highlightSizeThreshold :: "jsnum option"
  library :: 's

definition in_library :: "('s, 'a) eff \<Rightarrow> ('s hljs, 'a) eff" where
  "in_library m = (\<lambda>h. case m (library h) of (r, s) \<Rightarrow> (r, h\<lparr>library := s\<rparr>))"

text \<open>\<open>size === +size\<close> holds for numbers that are not \<open>NaN\<close>.\<close>

definition size_limit :: "size_value \<Rightarrow> jsnum option" where
  "size_limit v = (case v of Number n \<Rightarrow> if n = NaN then None else Some n | Other \<Rightarrow> None)"

definition configure :: "('o \<Rightarrow> ('s, unit) eff) \<Rightarrow> ('o \<Rightarrow> size_value) \<Rightarrow> 'o option \<Rightarrow> ('s hljs, unit) eff" where
  "configure native threshold_of opts =
     (case opts of
        None \<Rightarrow> raise TypeError
      | Some o' \<Rightarrow> bindE (modify (\<lambda>h. h\<lparr>highlightSizeThreshold := size_limit (threshold_of o')\<rparr>)) (\<lambda>_. in_library (native o')))"

definition exceeds :: "jsnum \<Rightarrow> nat \<Rightarrow> bool" where
  "exceeds n k = (case n of NaN \<Rightarrow> False | Infinite neg \<Rightarrow> \<not> neg | Fin q \<Rightarrow> q > of_nat k)"

definition highlightBlock :: "('e \<Rightarrow> ('s, unit) eff) \<Rightarrow> ('s \<Rightarrow> 'e \<Rightarrow> jsstr) \<Rightarrow> 'e \<Rightarrow> ('s hljs, unit) eff" where
  "highlightBlock native innerHTML el =
     bindE (gets (\<lambda>h. innerHTML (library h) el)) (\<lambda>html.
     bindE (gets highlightSizeThreshold) (\<lambda>size.
       if (case size of None \<Rightarrow> True | Some n \<Rightarrow> exceeds n (length html)) then in_library (native el) else ret ()))"

lemma configure_run:
  "configure native threshold_of (Some o') h =
     (fst (native o' (library h)), \<lparr>highlightSizeThreshold = size_limit (threshold_of o'), library = snd (native o' (library h))\<rparr>)"
  by (cases h) (simp add: configure_def bindE_def in_library_def split: prod.split)

text \<open>On a page whose blocks do not change each other's text, exactly the blocks shorter than the number in the option
  are highlighted, in the order of the calls; the option need not be a number, and then all are.\<close>

lemma highlight_short_blocks:
  assumes "highlightSizeThreshold h = size_limit v"
    and "\<And>el s. fst (native el s) = Inr ()" "\<And>el el' s. el \<noteq> el' \<Longrightarrow> innerHTML (snd (native el s)) el' = innerHTML s el'" "distinct els"
  shows "forE (highlightBlock native innerHTML) els h =
    (Inr (), h\<lparr>library := fold (\<lambda>el s. snd (native el s))
       (filter (\<lambda>el. case size_limit v of None \<Rightarrow> True | Some n \<Rightarrow> exceeds n (length (innerHTML (library h) el))) els) (library h)\<rparr>)"
  using assms(1,4)
proof (induction els arbitrary: h)
  case (Cons el els)
  let ?short = "\<lambda>h el. case size_limit v of None \<Rightarrow> True | Some n \<Rightarrow> exceeds n (length (innerHTML (library h) el))"
  show ?case
  proof (cases "?short h el")
    case True
    let ?h = "h\<lparr>library := snd (native el (library h))\<rparr>"
    have run: "highlightBlock native innerHTML el h = (Inr (), ?h)"
      using True Cons.prems(1) assms(2) [of el "library h"] by (cases "native el (library h)") (simp add: highlightBlock_def bindE_def in_library_def)
    have "innerHTML (snd (native el (library h))) x = innerHTML (library h) x" if "x \<in> set els" for x
      by (rule assms(3)) (use that Cons.prems(2) in auto)
    then have "filter (?short ?h) els = filter (?short h) els" by (intro filter_cong refl) (simp split: option.split)
    then show ?thesis using Cons.IH [of ?h] Cons.prems True run by simp
  next
    case False
    then have "highlightBlock native innerHTML el h = (Inr (), h)" using Cons.prems(1) by (simp add: highlightBlock_def bindE_def)
    then show ?thesis using Cons.IH [of h] Cons.prems False by simp
  qed
qed simp

end
