(* ===== verification/Spec2Isabelle.thy ===== *)
theory Spec2Isabelle
  imports SortTable_Pages SortTable_Events ES5_Array_Laws ES5_Number_Laws ES5_Date_Laws ES5_String_Laws ES5_Tests_Laws Marked_Safety Pattern_Sources
    Swagger_OAuth_Laws Page_Helpers
begin

text \<open>
  Verification of the JavaScript of the repository.  The repository is an XMPP server written in
  Erlang; its JavaScript serves the pages around it: \<open>src/big_tests/priv/sorttable.js\<close> makes the tables of
  the test reports sortable, and the pages of the REST interface under \<open>src/doc/swagger\<close> use
  \<open>lib/es5-shim.js\<close>, which gives old engines the methods of ECMAScript 5, and \<open>lib/marked.js\<close>, which renders the
  descriptions written in Markdown, and \<open>lib/swagger-oauth.js\<close>, which gets the tokens, next to minified libraries.

  \<^bold>\<open>Foundations.\<close>  \<open>JS_Prelude\<close> has strings as lists of UTF-16 code units, exceptions as values of a sum
  type, and decimal numerals.  \<open>JS_Regex\<close> is the regular expressions of the language: a backtracking
  matcher in continuation-passing style that follows the specification, proved equal to the list of
  successes (\<open>rm_ss\<close>); the fuel of a quantifier is the length of the input plus the minimal count, and
  \<open>rep_bound_sufficient\<close> shows that more fuel changes nothing.  \<open>JS_Num\<close> is binary64 arithmetic: rationals and
  the rounding \<open>fl\<close>, ties to even.  \<open>JS_Regex_Static\<close> computes from a pattern how much a match consumes at
  least and by how much it is longer than a group, and describes the ways to match; the loops of marked.js
  end because of these numbers.  \<open>JS_Regex_Syntax\<close> reads the text of an expression: tokens, then a parser with a stack of
  open groups, and a normal form of patterns up to the nesting of sequences and alternatives (\<open>exec_from_norm\<close>);
  \<open>Pattern_Sources\<close> shows of the rules of the grammars and of the literals in its lists that the text in the source
  reads as the pattern of the models.  \<open>JS_URI\<close> is the coding of texts as octets in an address; its locale \<open>query_codec\<close> has the laws
  that a query relies on.  \<open>JS_Effect\<close> is the monad of callbacks that change a state and may
  throw.

  \<^bold>\<open>sorttable.js.\<close>  \<open>SortTable_Shaker\<close>: \<open>shaker_sort\<close> with its two passes, a stable sort for each comparison
  function; termination is proved.  \<open>SortTable_Compare\<close>: \<open>sort_numeric\<close>, \<open>sort_alpha\<close>, \<open>sort_ddmm\<close>, \<open>sort_mmdd\<close>
  and \<open>guessType\<close>.  \<open>SortTable_Dom\<close>: the document as a record of tables, \<open>getInnerText\<close>, \<open>makeSortable\<close>, \<open>init\<close> and
  the click handler \<open>innerSortFunction\<close>, which returns the document it leaves behind and the exception, if
  any.  \<open>SortTable_Click\<close>: a sequence of clicks refines an abstract machine that toggles the state of one
  column and rows are permuted into order.  \<open>SortTable_Pages\<close>: pages with several tables, where the indicators of
  one table are taken for those of another, and columns of dates with blank cells, where the handler throws.
  \<open>SortTable_Events\<close>:
  \<open>dean_addEvent\<close>, \<open>removeEvent\<close>, \<open>handleEvent\<close> and the four \<open>forEach\<close>.

  \<^bold>\<open>es5-shim.js.\<close>  \<open>ES5_Object\<close>: \<open>defineProperties\<close>, the conversions, \<open>bind\<close> and \<open>Object.keys\<close>.  \<open>ES5_Arrays\<close>: the
  methods of arrays on objects with holes and inherited elements; \<open>ES5_Array_Laws\<close> proves them against
  list operations, with the contract of \<open>splice\<close> as a locale that the replacement interprets.  \<open>ES5_Number\<close>:
  \<open>toFixed\<close> with its six-limb arithmetic; \<open>ES5_Number_Laws\<close> shows that rounding never spoils a limb and that
  the text is the number rounded half up.  \<open>ES5_Date\<close>: getters, printers, \<open>toISOString\<close>, \<open>toJSON\<close>, the
  constructor and \<open>Date.parse\<close>; \<open>ES5_Date_Laws\<close> proves the round trip between the last two printers and
  the parser for every time value.  \<open>ES5_Strings\<close>: \<open>split\<close>, \<open>replace\<close>, \<open>substr\<close>, \<open>trim\<close>, \<open>lastIndexOf\<close> and the
  wrappers of \<open>parseInt\<close> and \<open>parseFloat\<close>; \<open>ES5_String_Laws\<close> proves \<open>split\<close> against the algorithm of the
  language.  A flag stands for what an engine gets wrong, and a native method that a wrapper calls is an
  argument.  \<open>ES5_Tests\<close> has the tests that decide what is installed, as functions of the native method, and
  \<open>ES5_Tests_Laws\<close> shows which replacements pass their tests (the locale \<open>self_tested\<close>), that \<open>toUTCString\<close> does not on the
  engines it is meant for, and which tests misjudge engines.

  \<^bold>\<open>marked.js.\<close>  \<open>Marked_Sources\<close>: \<open>replace\<close> and the texts of the rules of both grammars as the file composes them.
  \<open>Marked_Text\<close>: the options, \<open>escape\<close>, \<open>unescape\<close>, \<open>smartypants\<close>, \<open>mangle\<close> and the methods of
  \<open>Renderer\<close>; \<open>toLowerCase\<close>, \<open>Math.random\<close> and a highlighter are fields of the options.  \<open>Marked_Inline\<close>: the patterns of
  the four inline grammars and \<open>InlineLexer.output\<close>; \<open>Marked_Inline_Laws\<close> shows that escaping can be undone and that
  the inline lexer always returns.  \<open>Marked_Block\<close>: the patterns of the three block grammars, with the groups
  numbered as the composed patterns number them, tables and the items of lists.  \<open>Marked_Lexer\<close>: \<open>Lexer.token\<close> as
  three mutually recursive functions without fuel; the texts of quotes and items, and what \<open>smartLists\<close> puts
  back, are shorter than the text at hand.  Its tokens are always the tokens of a tree of blocks, which
  is the contract \<open>token_source\<close> between lexer and parser.
  \<open>Marked_Parser\<close>: \<open>Parser.parse\<close> and \<open>tok\<close>, which read exactly the tokens of such a tree.  \<open>Marked_Main\<close>: \<open>marked\<close>,
  which therefore always returns, and the call with a callback as a sequence of events in any order.
  \<open>Marked_Safety\<close>: with \<open>sanitize\<close> the document has no tags but the renderer's own, for every source of tokens
  that escapes raw texts (\<open>safe_source\<close> extends the contract), and the links to scripts
  that get past the test of the renderer.

  \<^bold>\<open>swagger-oauth.js.\<close>  \<open>Swagger_OAuth\<close>: the description of the interface, the variables of the file, \<open>initOAuth\<close>,
  \<open>handleLogin\<close>, the handler of its button (\<open>authorize\<close>), \<open>processOAuthCode\<close>, \<open>onOAuthComplete\<close> and \<open>handleLogout\<close>; each
  returns the state it leaves and the list of its calls to page and network.  \<open>Swagger_OAuth_Laws\<close>: the query of
  a request reads back as what was asked for, and the operations as a step relation whose reachable states
  keep all authorizations under one key.

  \<^bold>\<open>Helpers.\<close>  \<open>Page_Helpers\<close>: \<open>Object.assign\<close> of \<open>lib/object-assign-pollyfill.js\<close> and the limit on highlighting of
  \<open>lib/highlight.9.1.0.pack_extended.js\<close>.

  \<^bold>\<open>Not modelled.\<close>  Case-insensitive matching.  Of the tests of es5-shim.js, those of prototypes, enumeration,
  boxing and strict mode of host objects, for which flags range over all answers, and those of the local printer and of
  \<open>replace\<close>.  The remaining files under \<open>src/doc\<close> are third-party libraries, most of them minified, and pages that
  only wire them together; the server itself is not JavaScript.
\<close>

end
